(* ===== verification/Prelude.thy ===== *)
theory Prelude
  imports Main "HOL-Library.Word" "HOL-Library.Monad_Syntax"
begin

text \<open>
  Shared vocabulary of the development: the machine types of the ILP32 target (armeabi, the ABI
  \<^verbatim>\<open>jni/serval-dna/Android.mk\<close> builds for), the two ways a C function can fail to return
  (a failed \<^verbatim>\<open>assert\<close> or \<^verbatim>\<open>FATAL\<close>, modelled by \<^const>\<open>None\<close> of the option monad), the memory
  allocator as a parameter, and lemmas on byte arrays that several components use.
\<close>

unbundle bit_operations_syntax

section \<open>Machine types\<close>

type_synonym u8 = "8 word"
type_synonym u16 = "16 word"
type_synonym u32 = "32 word"
type_synonym u64 = "64 word"

text \<open>
  A computation that may stop the process: \<^const>\<open>None\<close> is a failed \<^verbatim>\<open>assert\<close>, a \<^verbatim>\<open>FATAL\<close>, or an
  operation to which C gives no meaning; \<^term>\<open>Some x\<close> is a normal return of \<^term>\<open>x\<close>.
\<close>

type_synonym 'a run = "'a option"

definition c_assert :: "bool \<Rightarrow> unit run" where
  "c_assert p = (if p then Some () else None)"

lemma c_assert_True [simp]: "c_assert True = Some ()"
  and c_assert_False [simp]: "c_assert False = None"
  by (simp_all add: c_assert_def)

lemma c_assert_Some_iff [simp]: "c_assert p = Some u \<longleftrightarrow> p"
  by (simp add: c_assert_def)

lemma c_assert_None_iff [simp]: "c_assert p = None \<longleftrightarrow> \<not> p"
  by (simp add: c_assert_def)

text \<open>Taking a sequence of computations apart.\<close>

lemma run_bindE:
  assumes "m \<bind> f = Some y"
  obtains x where "m = Some x" and "f x = Some y"
  using assms by (cases m) auto

section \<open>The type size\_t\<close>

text \<open>\<^verbatim>\<open>size_t\<close> has 32 bits; its values are natural numbers and its addition wraps.\<close>

definition SIZE_MAX :: nat where
  "SIZE_MAX = 4294967295"

definition size_add :: "nat \<Rightarrow> nat \<Rightarrow> nat" where
  "size_add x y = (x + y) mod 4294967296"

lemma size_add_exact [simp]: "x + y \<le> SIZE_MAX \<Longrightarrow> size_add x y = x + y"
  by (simp add: size_add_def SIZE_MAX_def)

lemma size_add_le_max [simp]: "size_add x y \<le> SIZE_MAX"
proof -
  have "(x + y) mod 4294967296 < 4294967296" by simp
  then show ?thesis unfolding size_add_def SIZE_MAX_def by linarith
qed

lemma size_add_0 [simp]: "x \<le> SIZE_MAX \<Longrightarrow> size_add x 0 = x"
  by simp

section \<open>Memory\<close>

text \<open>
  \<^verbatim>\<open>malloc\<close> is a parameter: for a size it gives \<^const>\<open>None\<close> (a NULL pointer) or a block of that many
  bytes whose contents are arbitrary.
\<close>

type_synonym allocator = "nat \<Rightarrow> u8 list option"

definition malloc_ok :: "allocator \<Rightarrow> bool" where
  "malloc_ok malloc \<longleftrightarrow> (\<forall>n xs. malloc n = Some xs \<longrightarrow> length xs = n)"

lemma malloc_okD: "malloc_ok malloc \<Longrightarrow> malloc n = Some xs \<Longrightarrow> length xs = n"
  by (simp add: malloc_ok_def)

definition emalloc :: "allocator \<Rightarrow> nat \<Rightarrow> u8 list option" where
  "emalloc malloc n = malloc n"

definition emalloc_zero :: "allocator \<Rightarrow> nat \<Rightarrow> u8 list option" where
  "emalloc_zero malloc n =
     (case emalloc malloc n of None \<Rightarrow> None | Some new \<Rightarrow> Some (replicate n 0))"

text \<open>Block writes and reads inside an array; \<open>memwrite xs i vs\<close> is \<^verbatim>\<open>bcopy(vs, xs + i, length vs)\<close>.\<close>

definition memwrite :: "'a list \<Rightarrow> nat \<Rightarrow> 'a list \<Rightarrow> 'a list" where
  "memwrite xs i vs = take i xs @ vs @ drop (i + length vs) xs"

definition memread :: "'a list \<Rightarrow> nat \<Rightarrow> nat \<Rightarrow> 'a list" where
  "memread xs i n = take n (drop i xs)"

lemma length_memwrite [simp]:
  "i + length vs \<le> length xs \<Longrightarrow> length (memwrite xs i vs) = length xs"
  by (simp add: memwrite_def)

lemma length_memread [simp]: "i + n \<le> length xs \<Longrightarrow> length (memread xs i n) = n"
  by (simp add: memread_def)

lemma take_memwrite_end [simp]:
  "i + length vs \<le> length xs \<Longrightarrow> take (i + length vs) (memwrite xs i vs) = take i xs @ vs"
  by (simp add: memwrite_def)

lemma take_memwrite_before [simp]:
  "i + length vs \<le> length xs \<Longrightarrow> n \<le> i \<Longrightarrow> take n (memwrite xs i vs) = take n xs"
  by (simp add: memwrite_def min_def)

lemma memread_memwrite_same [simp]:
  "i + length vs \<le> length xs \<Longrightarrow> memread (memwrite xs i vs) i (length vs) = vs"
  by (simp add: memwrite_def memread_def)

lemma memread_append_exact:
  "length xs = i \<Longrightarrow> memread (xs @ vs @ ys) i (length vs) = vs"
  by (simp add: memread_def)

lemma memread_split:
  "memread xs i (m + n) = memread xs i m @ memread xs (i + m) n"
  by (simp add: memread_def take_add add.commute)

lemma memread_take:
  "i + n \<le> k \<Longrightarrow> memread (take k xs) i n = memread xs i n"
  by (simp add: memread_def drop_take min_def)

section \<open>Bytes of machine words\<close>

text \<open>\<open>byte_of k v\<close> is \<^verbatim>\<open>(v >> k) & 0xFF\<close> stored in an \<^verbatim>\<open>unsigned char\<close>.\<close>

definition byte_of :: "nat \<Rightarrow> 'a::len word \<Rightarrow> u8" where
  "byte_of k v = ucast (drop_bit k v AND 0xFF)"

lemma mask8_word: "(0xFF :: 'a::len word) = mask 8"
  by (simp add: mask_eq_exp_minus_1)

lemma bit_byte_of:
  "bit (byte_of k (v :: 'a::len word)) n \<longleftrightarrow> n < 8 \<and> bit v (k + n)"
proof -
  have "bit v (k + n) \<Longrightarrow> n < LENGTH('a)"
    by (metis add_lessD1 add.commute bit_imp_le_length)
  then show ?thesis
    by (auto simp: byte_of_def mask8_word bit_simps add.commute)
qed

end
