(* ===== verification/Overlay_Buffer.thy ===== *)
theory Overlay_Buffer
  imports Prelude
begin

text \<open>
  The overlay buffer of \<^verbatim>\<open>overlay_buffer.c\<close>: a growable or static byte array with a read/write
  position, a size limit and a checkpoint.  Every operation of the file that touches the structure
  is a definition here; a failed \<^verbatim>\<open>assert\<close> is \<^const>\<open>None\<close>.  The debug output is left out.
\<close>

section \<open>The structure\<close>

text \<open>
  \<open>bytes\<close> is \<^const>\<open>None\<close> for a NULL pointer; otherwise it is the array the pointer refers to, of
  length \<open>allocSize\<close>.  \<open>allocated\<close> says whether the array belongs to the buffer.
\<close>

record overlay_buffer =
  bytes :: "u8 list option"
  checkpointLength :: nat
  position :: nat
  sizeLimit :: nat
  allocSize :: nat
  allocated :: bool

definition sizeof_overlay_buffer :: nat where
  "sizeof_overlay_buffer = 24"

definition zero_buffer :: overlay_buffer where
  "zero_buffer = \<lparr>bytes = None, checkpointLength = 0, position = 0, sizeLimit = 0,
     allocSize = 0, allocated = False\<rparr>"

definition ob_unlimitsize :: "overlay_buffer \<Rightarrow> overlay_buffer" where
  "ob_unlimitsize b = b\<lparr>sizeLimit := SIZE_MAX\<rparr>"

definition ob_new :: "allocator \<Rightarrow> overlay_buffer option" where
  "ob_new malloc =
     (case emalloc_zero malloc sizeof_overlay_buffer of
        None \<Rightarrow> None
      | Some _ \<Rightarrow> Some (ob_unlimitsize zero_buffer))"

text \<open>\<open>ob_static\<close> takes the array itself; the C \<^verbatim>\<open>size\<close> argument is its length.\<close>

definition ob_static :: "allocator \<Rightarrow> u8 list \<Rightarrow> overlay_buffer option" where
  "ob_static malloc xs =
     (case emalloc_zero malloc sizeof_overlay_buffer of
        None \<Rightarrow> None
      | Some _ \<Rightarrow> Some (ob_unlimitsize
          (zero_buffer\<lparr>bytes := Some xs, allocSize := length xs, allocated := False\<rparr>)))"

text \<open>A slice sees the bytes of its parent from \<open>offset\<close> on.\<close>

definition ob_slice :: "allocator \<Rightarrow> overlay_buffer \<Rightarrow> nat \<Rightarrow> nat \<Rightarrow> overlay_buffer option" where
  "ob_slice malloc b offset len =
     (if size_add offset len > allocSize b then None
      else case emalloc_zero malloc sizeof_overlay_buffer of
        None \<Rightarrow> None
      | Some _ \<Rightarrow> Some (ob_unlimitsize
          (zero_buffer\<lparr>bytes := map_option (\<lambda>xs. memread xs offset len) (bytes b),
             allocSize := len, allocated := False\<rparr>)))"

section \<open>Positions and limits\<close>

definition ob_checkpoint :: "overlay_buffer \<Rightarrow> overlay_buffer" where
  "ob_checkpoint b = b\<lparr>checkpointLength := position b\<rparr>"

definition ob_rewind :: "overlay_buffer \<Rightarrow> overlay_buffer" where
  "ob_rewind b = b\<lparr>position := checkpointLength b\<rparr>"

definition ob_limitsize :: "overlay_buffer \<Rightarrow> nat \<Rightarrow> overlay_buffer run" where
  "ob_limitsize b n = do {
     c_assert (n \<noteq> SIZE_MAX);
     c_assert (position b \<le> n);
     c_assert (checkpointLength b \<le> n);
     c_assert (bytes b \<noteq> None \<and> \<not> allocated b \<longrightarrow> n \<le> allocSize b);
     Some (b\<lparr>sizeLimit := n\<rparr>)
   }"

definition ob_flip :: "overlay_buffer \<Rightarrow> overlay_buffer run" where
  "ob_flip b = do {
     b \<leftarrow> ob_limitsize (b\<lparr>checkpointLength := 0\<rparr>) (position b);
     Some (b\<lparr>position := 0\<rparr>)
   }"

definition ob_clear :: "overlay_buffer \<Rightarrow> overlay_buffer" where
  "ob_clear b = ob_unlimitsize (b\<lparr>checkpointLength := 0, position := 0\<rparr>)"

section \<open>Appending\<close>

text \<open>
  \<open>ob_makespace\<close> copies the old contents into the new block; a copy that does not fit the block is
  no normal return.
\<close>

text \<open>The rounding of a new allocation: to 64, then to 1024, then to 65536 bytes.\<close>

definition round_up :: "nat \<Rightarrow> nat \<Rightarrow> nat" where
  "round_up k n = (if n mod k \<noteq> 0 then size_add n (k - n mod k) else n)"

definition ob_new_size :: "nat \<Rightarrow> nat" where
  "ob_new_size n0 =
     (let n1 = (if n0 < 64 then 64 else n0);
          n2 = round_up 64 n1;
          n3 = (if n2 > 1024 then round_up 1024 n2 else n2)
      in if n3 > 65536 then round_up 65536 n3 else n3)"

definition ob_makespace :: "allocator \<Rightarrow> overlay_buffer \<Rightarrow> nat \<Rightarrow> (bool \<times> overlay_buffer) run" where
  "ob_makespace malloc b n = do {
     c_assert (position b \<le> sizeLimit b);
     c_assert (position b \<le> allocSize b);
     c_assert (position b \<noteq> 0 \<longrightarrow> bytes b \<noteq> None);
     if size_add (position b) n > sizeLimit b then Some (False, b)
     else if size_add (position b) n \<le> allocSize b then Some (True, b)
     else if bytes b \<noteq> None \<and> \<not> allocated b then Some (False, b)
     else (let newSize = ob_new_size (size_add (position b) n) in
       case emalloc malloc newSize of
         None \<Rightarrow> Some (False, b)
       | Some new \<Rightarrow>
           if position b > length new then None
           else Some (True, b\<lparr>bytes := Some (take (position b) (case bytes b of None \<Rightarrow> [] | Some xs \<Rightarrow> xs)
                                       @ drop (position b) new),
                        allocated := True, allocSize := newSize\<rparr>))
   }"

text \<open>
  The stores \<^verbatim>\<open>b->bytes[b->position + i] = vs[i]\<close>; a store outside the array is no normal return.
\<close>

definition ob_poke :: "overlay_buffer \<Rightarrow> u8 list \<Rightarrow> overlay_buffer run" where
  "ob_poke b vs =
     (case bytes b of
        None \<Rightarrow> None
      | Some xs \<Rightarrow> if position b + length vs \<le> length xs
          then Some (b\<lparr>bytes := Some (memwrite xs (position b) vs)\<rparr>) else None)"

text \<open>The shape all append operations have: store if there is space, advance in any case.\<close>

definition ob_append_block :: "allocator \<Rightarrow> overlay_buffer \<Rightarrow> u8 list \<Rightarrow> overlay_buffer run" where
  "ob_append_block malloc b vs = do {
     (ok, b) \<leftarrow> ob_makespace malloc b (length vs);
     b \<leftarrow> (if ok then ob_poke b vs else Some b);
     Some (b\<lparr>position := size_add (position b) (length vs)\<rparr>)
   }"

definition ob_append_byte :: "allocator \<Rightarrow> overlay_buffer \<Rightarrow> u8 \<Rightarrow> overlay_buffer run" where
  "ob_append_byte malloc b v = ob_append_block malloc b [v]"

text \<open>\<open>ob_append_space\<close> returns the offset of the reserved bytes, \<^const>\<open>None\<close> for NULL.\<close>

definition ob_append_space :: "allocator \<Rightarrow> overlay_buffer \<Rightarrow> nat \<Rightarrow> (nat option \<times> overlay_buffer) run" where
  "ob_append_space malloc b count = do {
     c_assert (count > 0);
     (ok, b) \<leftarrow> ob_makespace malloc b count;
     Some (if ok then Some (position b) else None, b\<lparr>position := size_add (position b) count\<rparr>)
   }"

definition ob_append_bytes :: "allocator \<Rightarrow> overlay_buffer \<Rightarrow> u8 list \<Rightarrow> overlay_buffer run" where
  "ob_append_bytes malloc b vs = do {
     c_assert (length vs > 0);
     ob_append_block malloc b vs
   }"

text \<open>A C string is its bytes before the terminating zero.\<close>

definition ob_append_str :: "allocator \<Rightarrow> overlay_buffer \<Rightarrow> u8 list \<Rightarrow> overlay_buffer run" where
  "ob_append_str malloc b str = ob_append_bytes malloc b (str @ [0])"

definition ob_append_ui16 :: "allocator \<Rightarrow> overlay_buffer \<Rightarrow> u16 \<Rightarrow> overlay_buffer run" where
  "ob_append_ui16 malloc b v = ob_append_block malloc b [byte_of 8 v, byte_of 0 v]"

definition ob_append_ui16_rv :: "allocator \<Rightarrow> overlay_buffer \<Rightarrow> u16 \<Rightarrow> overlay_buffer run" where
  "ob_append_ui16_rv malloc b v = ob_append_block malloc b [byte_of 0 v, byte_of 8 v]"

definition ob_append_ui32 :: "allocator \<Rightarrow> overlay_buffer \<Rightarrow> u32 \<Rightarrow> overlay_buffer run" where
  "ob_append_ui32 malloc b v =
     ob_append_block malloc b [byte_of 24 v, byte_of 16 v, byte_of 8 v, byte_of 0 v]"

definition ob_append_ui32_rv :: "allocator \<Rightarrow> overlay_buffer \<Rightarrow> u32 \<Rightarrow> overlay_buffer run" where
  "ob_append_ui32_rv malloc b v =
     ob_append_block malloc b [byte_of 0 v, byte_of 8 v, byte_of 16 v, byte_of 24 v]"

definition ob_append_ui64 :: "allocator \<Rightarrow> overlay_buffer \<Rightarrow> u64 \<Rightarrow> overlay_buffer run" where
  "ob_append_ui64 malloc b v =
     ob_append_block malloc b [byte_of 56 v, byte_of 48 v, byte_of 40 v, byte_of 32 v,
       byte_of 24 v, byte_of 16 v, byte_of 8 v, byte_of 0 v]"

definition ob_append_ui64_rv :: "allocator \<Rightarrow> overlay_buffer \<Rightarrow> u64 \<Rightarrow> overlay_buffer run" where
  "ob_append_ui64_rv malloc b v =
     ob_append_block malloc b [byte_of 0 v, byte_of 8 v, byte_of 16 v, byte_of 24 v,
       byte_of 32 v, byte_of 40 v, byte_of 48 v, byte_of 56 v]"


text \<open>A duplicate copies the limits first and then appends the relevant bytes.\<close>

definition ob_dup :: "allocator \<Rightarrow> overlay_buffer \<Rightarrow> overlay_buffer option run" where
  "ob_dup malloc b =
     (case emalloc_zero malloc sizeof_overlay_buffer of
        None \<Rightarrow> Some None
      | Some _ \<Rightarrow>
          (let ret = zero_buffer\<lparr>sizeLimit := sizeLimit b, position := position b,
                       checkpointLength := checkpointLength b\<rparr> in
           case bytes b of
             None \<Rightarrow> Some (Some ret)
           | Some xs \<Rightarrow>
               if allocSize b = 0 then Some (Some ret)
               else do {
                 byteCount \<leftarrow> (if sizeLimit b \<noteq> SIZE_MAX
                   then do { c_assert (position b \<le> sizeLimit b); Some (sizeLimit b) }
                   else Some (position b));
                 let byteCount = (if byteCount > allocSize b then allocSize b else byteCount);
                 if byteCount \<noteq> 0
                   then do { ret \<leftarrow> ob_append_bytes malloc ret (take byteCount xs); Some (Some ret) }
                   else Some (Some ret)
               }))"

section \<open>Variable-length integers\<close>

text \<open>Seven bits per byte, low bits first, the top bit set on all bytes but the last.\<close>

definition packed_byte :: "u64 \<Rightarrow> u8" where
  "packed_byte v = ucast ((v AND 0x7f) OR (if v > 0x7f then 0x80 else 0))"

lemma unat_drop_bit_7_less: "drop_bit 7 v \<noteq> 0 \<Longrightarrow> unat (drop_bit 7 v) < unat (v :: 'a::len word)"
proof -
  assume a: "drop_bit 7 v \<noteq> 0"
  have e: "unat (drop_bit 7 v) = unat v div 128"
    unfolding unat_drop_bit_eq by (simp add: drop_bit_eq_div)
  have "unat (drop_bit 7 v) \<noteq> 0"
    using a by (metis unat_eq_zero)
  then show ?thesis using e by simp
qed

function measure_packed_uint :: "u64 \<Rightarrow> nat" where
  "measure_packed_uint v =
     (if drop_bit 7 v \<noteq> 0 then 1 + measure_packed_uint (drop_bit 7 v) else 1)"
  by pat_completeness auto
termination
  by (relation "measure unat") (auto simp: unat_drop_bit_7_less)

function pack_uint :: "u64 \<Rightarrow> u8 list" where
  "pack_uint v = packed_byte v # (if drop_bit 7 v \<noteq> 0 then pack_uint (drop_bit 7 v) else [])"
  by pat_completeness auto
termination
  by (relation "measure unat") (auto simp: unat_drop_bit_7_less)

declare measure_packed_uint.simps [simp del] pack_uint.simps [simp del]

text \<open>
  \<^verbatim>\<open>(byte&0x7f)<<shift\<close> is an \<^verbatim>\<open>int\<close> of 32 bits: the compiler keeps the low 32 bits, a shift by 32 or
  more has no meaning, and the value is sign extended when it is or-ed into a 64 bit result.
\<close>

definition shl_int :: "u8 \<Rightarrow> nat \<Rightarrow> u32 run" where
  "shl_int byte shift = (if shift < 32 then Some (push_bit shift (ucast (byte AND 0x7f))) else None)"

text \<open>
  The loop of \<^verbatim>\<open>unpack_uint\<close> over the bytes from index \<open>i\<close> on.  The result is the returned index
  (\<^const>\<open>None\<close> for -1) and the value left in \<^verbatim>\<open>*v\<close>.
\<close>

fun unpack_uint_loop :: "u8 list \<Rightarrow> nat \<Rightarrow> u64 \<Rightarrow> (nat option \<times> u64) run" where
  "unpack_uint_loop [] i v = Some (None, v)"
| "unpack_uint_loop (byte # rest) i v =
     (case shl_int byte (i * 7) of
        None \<Rightarrow> None
      | Some x \<Rightarrow>
          (let v' = v OR scast x in
           if byte AND 0x80 = 0 then Some (Some (i + 1), v')
           else unpack_uint_loop rest (i + 1) v'))"

definition unpack_uint :: "u8 list \<Rightarrow> (nat option \<times> u64) run" where
  "unpack_uint buffer = unpack_uint_loop buffer 0 0"

function ob_append_packed_ui64 :: "allocator \<Rightarrow> overlay_buffer \<Rightarrow> u64 \<Rightarrow> overlay_buffer run" where
  "ob_append_packed_ui64 malloc b v =
     (case ob_append_byte malloc b (packed_byte v) of
        None \<Rightarrow> None
      | Some b' \<Rightarrow>
          if drop_bit 7 v \<noteq> 0 then ob_append_packed_ui64 malloc b' (drop_bit 7 v) else Some b')"
  by pat_completeness auto
termination
  by (relation "measure (\<lambda>(_, _, v). unat v)") (auto simp: unat_drop_bit_7_less)

function ob_append_packed_ui32 :: "allocator \<Rightarrow> overlay_buffer \<Rightarrow> u32 \<Rightarrow> overlay_buffer run" where
  "ob_append_packed_ui32 malloc b v =
     (case ob_append_byte malloc b (ucast ((v AND 0x7f) OR (if v > 0x7f then 0x80 else 0))) of
        None \<Rightarrow> None
      | Some b' \<Rightarrow>
          if drop_bit 7 v \<noteq> 0 then ob_append_packed_ui32 malloc b' (drop_bit 7 v) else Some b')"
  by pat_completeness auto
termination
  by (relation "measure (\<lambda>(_, _, v). unat v)") (auto simp: unat_drop_bit_7_less)

declare ob_append_packed_ui64.simps [simp del] ob_append_packed_ui32.simps [simp del]

section \<open>Reading\<close>

definition test_offset :: "overlay_buffer \<Rightarrow> nat \<Rightarrow> int" where
  "test_offset b n =
     (if size_add (position b) n > sizeLimit b then -1
      else if size_add (position b) n > allocSize b then -1 else 0)"

text \<open>Loads of the byte at an index and of a block; a load outside the array is no normal return.\<close>

definition ob_byte :: "overlay_buffer \<Rightarrow> nat \<Rightarrow> u8 run" where
  "ob_byte b i = (case bytes b of None \<Rightarrow> None | Some xs \<Rightarrow> if i < length xs then Some (xs ! i) else None)"

definition ob_load :: "overlay_buffer \<Rightarrow> nat \<Rightarrow> u8 list run" where
  "ob_load b n =
     (case bytes b of
        None \<Rightarrow> if n = 0 then Some [] else None
      | Some xs \<Rightarrow> if position b + n \<le> length xs then Some (memread xs (position b) n) else None)"

definition ob_peek :: "overlay_buffer \<Rightarrow> int run" where
  "ob_peek b =
     (if test_offset b 1 \<noteq> 0 then Some (-1)
      else do { v \<leftarrow> ob_byte b (position b); Some (uint v) })"

definition ob_get :: "overlay_buffer \<Rightarrow> (int \<times> overlay_buffer) run" where
  "ob_get b =
     (if test_offset b 1 \<noteq> 0 then Some (-1, b)
      else do { v \<leftarrow> ob_byte b (position b); Some (uint v, b\<lparr>position := size_add (position b) 1\<rparr>) })"

definition ob_skip :: "overlay_buffer \<Rightarrow> nat \<Rightarrow> overlay_buffer" where
  "ob_skip b n = b\<lparr>position := size_add (position b) n\<rparr>"

text \<open>The loop looks for the terminating zero; its result is the offset of that zero.\<close>

function ob_str_loop :: "overlay_buffer \<Rightarrow> nat \<Rightarrow> nat option run" where
  "ob_str_loop b ofs =
     (if test_offset b ofs \<noteq> 0 then Some None
      else case ob_byte b (position b + ofs) of
        None \<Rightarrow> None
      | Some c \<Rightarrow> if c = 0 then Some (Some ofs) else ob_str_loop b (ofs + 1))"
  by pat_completeness auto
termination
  by (relation "measure (\<lambda>(b, ofs). (case bytes b of None \<Rightarrow> 0 | Some xs \<Rightarrow> length xs) - (position b + ofs))")
    (auto simp: ob_byte_def split: option.splits if_splits)

declare ob_str_loop.simps [simp del]

definition ob_get_str_ptr :: "overlay_buffer \<Rightarrow> (u8 list option \<times> overlay_buffer) run" where
  "ob_get_str_ptr b = do {
     r \<leftarrow> ob_str_loop b 0;
     case r of
       None \<Rightarrow> Some (None, b)
     | Some ofs \<Rightarrow> do {
         str \<leftarrow> ob_load b ofs;
         Some (Some str, b\<lparr>position := size_add (position b) (ofs + 1)\<rparr>)
       }
   }"

text \<open>\<open>ob_get_bytes\<close> gives the copied bytes, \<^const>\<open>None\<close> for the return value -1.\<close>

definition ob_get_bytes :: "overlay_buffer \<Rightarrow> nat \<Rightarrow> (u8 list option \<times> overlay_buffer) run" where
  "ob_get_bytes b n =
     (if test_offset b n \<noteq> 0 then Some (None, b)
      else do { vs \<leftarrow> ob_load b n; Some (Some vs, b\<lparr>position := size_add (position b) n\<rparr>) })"

text \<open>\<open>ob_get_bytes_ptr\<close> gives the bytes the returned pointer refers to, \<^const>\<open>None\<close> for NULL.\<close>

definition ob_get_bytes_ptr :: "overlay_buffer \<Rightarrow> nat \<Rightarrow> (u8 list option \<times> overlay_buffer) run" where
  "ob_get_bytes_ptr b n =
     (if test_offset b n \<noteq> 0 then Some (None, b)
      else do { vs \<leftarrow> ob_load b n; Some (Some vs, b\<lparr>position := size_add (position b) n\<rparr>) })"

text \<open>The byte at a place of a loaded block, widened to the type it is shifted in.\<close>

definition wide :: "nat \<Rightarrow> u8 list \<Rightarrow> nat \<Rightarrow> 'a::len word" where
  "wide k vs i = push_bit k (ucast (vs ! i))"

definition ob_get_ui32 :: "overlay_buffer \<Rightarrow> (u32 \<times> overlay_buffer) run" where
  "ob_get_ui32 b =
     (if test_offset b 4 \<noteq> 0 then Some (0xFFFFFFFF, b)
      else do { vs \<leftarrow> ob_load b 4;
        Some (wide 24 vs 0 OR wide 16 vs 1 OR wide 8 vs 2 OR wide 0 vs 3,
              b\<lparr>position := size_add (position b) 4\<rparr>) })"

definition ob_get_ui32_rv :: "overlay_buffer \<Rightarrow> (u32 \<times> overlay_buffer) run" where
  "ob_get_ui32_rv b =
     (if test_offset b 4 \<noteq> 0 then Some (0xFFFFFFFF, b)
      else do { vs \<leftarrow> ob_load b 4;
        Some (wide 0 vs 0 OR wide 8 vs 1 OR wide 16 vs 2 OR wide 24 vs 3,
              b\<lparr>position := size_add (position b) 4\<rparr>) })"

text \<open>
  The last four bytes are shifted as \<^verbatim>\<open>int\<close> values and sign extended; the fourth byte is shifted
  by 36, as in the source.
\<close>

definition be64_of :: "u8 list \<Rightarrow> u64" where
  "be64_of vs = wide 56 vs 0 OR wide 48 vs 1 OR wide 40 vs 2 OR wide 36 vs 3
     OR scast (wide 24 vs 4 :: u32) OR wide 16 vs 5 OR wide 8 vs 6 OR wide 0 vs 7"

definition ob_get_ui64 :: "overlay_buffer \<Rightarrow> (u64 \<times> overlay_buffer) run" where
  "ob_get_ui64 b =
     (if test_offset b 8 \<noteq> 0 then Some (0xFFFFFFFF, b)
      else do { vs \<leftarrow> ob_load b 8;
        Some (be64_of vs, b\<lparr>position := size_add (position b) 8\<rparr>) })"

definition ob_get_ui64_rv :: "overlay_buffer \<Rightarrow> (u64 \<times> overlay_buffer) run" where
  "ob_get_ui64_rv b =
     (if test_offset b 8 \<noteq> 0 then Some (0xFFFFFFFF, b)
      else do { vs \<leftarrow> ob_load b 8;
        Some (wide 0 vs 0 OR wide 8 vs 1 OR wide 16 vs 2 OR wide 24 vs 3
                OR wide 32 vs 4 OR wide 40 vs 5 OR wide 48 vs 6 OR wide 56 vs 7,
              b\<lparr>position := size_add (position b) 8\<rparr>) })"

definition ob_get_ui16 :: "overlay_buffer \<Rightarrow> (u16 \<times> overlay_buffer) run" where
  "ob_get_ui16 b =
     (if test_offset b 2 \<noteq> 0 then Some (0xFFFF, b)
      else do { vs \<leftarrow> ob_load b 2;
        Some (wide 8 vs 0 OR wide 0 vs 1, b\<lparr>position := size_add (position b) 2\<rparr>) })"

definition ob_get_ui16_rv :: "overlay_buffer \<Rightarrow> (u16 \<times> overlay_buffer) run" where
  "ob_get_ui16_rv b =
     (if test_offset b 2 \<noteq> 0 then Some (0xFFFF, b)
      else do { vs \<leftarrow> ob_load b 2;
        Some (wide 0 vs 0 OR wide 8 vs 1, b\<lparr>position := size_add (position b) 2\<rparr>) })"

text \<open>
  The loops of the packed readers; a byte that is missing makes the result \<^verbatim>\<open>(uint)-1\<close>.
\<close>

function ob_get_packed_ui32_loop :: "overlay_buffer \<Rightarrow> u32 \<Rightarrow> nat \<Rightarrow> (u32 \<times> overlay_buffer) run" where
  "ob_get_packed_ui32_loop b ret shift =
     (case ob_get b of
        None \<Rightarrow> None
      | Some (byte, b') \<Rightarrow>
          if byte < 0 then Some (-1, b')
          else if shift \<ge> 32 then None
          else (let x = the (shl_int (word_of_int byte) shift); ret' = ret OR x in
            if (word_of_int byte :: u8) AND 0x80 \<noteq> 0
            then ob_get_packed_ui32_loop b' ret' (shift + 7) else Some (ret', b')))"
  by pat_completeness auto
termination
  by (relation "measure (\<lambda>(_, _, shift). 32 - shift)") auto

definition ob_get_packed_ui32 :: "overlay_buffer \<Rightarrow> (u32 \<times> overlay_buffer) run" where
  "ob_get_packed_ui32 b = ob_get_packed_ui32_loop b 0 0"

function ob_get_packed_ui64_loop :: "overlay_buffer \<Rightarrow> u64 \<Rightarrow> nat \<Rightarrow> (u64 \<times> overlay_buffer) run" where
  "ob_get_packed_ui64_loop b ret shift =
     (case ob_get b of
        None \<Rightarrow> None
      | Some (byte, b') \<Rightarrow>
          if byte < 0 then Some (-1, b')
          else if shift \<ge> 32 then None
          else (let x = the (shl_int (word_of_int byte) shift); ret' = ret OR scast x in
            if (word_of_int byte :: u8) AND 0x80 \<noteq> 0
            then ob_get_packed_ui64_loop b' ret' (shift + 7) else Some (ret', b')))"
  by pat_completeness auto
termination
  by (relation "measure (\<lambda>(_, _, shift). 32 - shift)") auto

declare ob_get_packed_ui32_loop.simps [simp del] ob_get_packed_ui64_loop.simps [simp del]

definition ob_get_packed_ui64 :: "overlay_buffer \<Rightarrow> (u64 \<times> overlay_buffer) run" where
  "ob_get_packed_ui64 b = ob_get_packed_ui64_loop b 0 0"

section \<open>Writing in place, information\<close>

definition ob_set_at :: "overlay_buffer \<Rightarrow> nat \<Rightarrow> u8 list \<Rightarrow> overlay_buffer run" where
  "ob_set_at b offset vs = do {
     c_assert (size_add offset (length vs) \<le> sizeLimit b);
     c_assert (size_add offset (length vs) \<le> allocSize b);
     case bytes b of
       None \<Rightarrow> None
     | Some xs \<Rightarrow> if offset + length vs \<le> length xs
         then Some (b\<lparr>bytes := Some (memwrite xs offset vs)\<rparr>) else None
   }"

definition ob_set_ui16 :: "overlay_buffer \<Rightarrow> nat \<Rightarrow> u16 \<Rightarrow> overlay_buffer run" where
  "ob_set_ui16 b offset v = ob_set_at b offset [byte_of 8 v, byte_of 0 v]"

definition ob_set :: "overlay_buffer \<Rightarrow> nat \<Rightarrow> u8 \<Rightarrow> overlay_buffer run" where
  "ob_set b offset v = ob_set_at b offset [v]"

definition ob_position :: "overlay_buffer \<Rightarrow> nat" where
  "ob_position b = position b"

definition ob_limit :: "overlay_buffer \<Rightarrow> nat" where
  "ob_limit b = sizeLimit b"

definition ob_remaining :: "overlay_buffer \<Rightarrow> nat run" where
  "ob_remaining b = do {
     c_assert (sizeLimit b \<noteq> SIZE_MAX);
     c_assert (position b \<le> sizeLimit b);
     Some (sizeLimit b - position b)
   }"

definition ob_overrun :: "overlay_buffer \<Rightarrow> bool" where
  "ob_overrun b \<longleftrightarrow>
     position b > (if sizeLimit b \<noteq> SIZE_MAX \<and> sizeLimit b < allocSize b
                   then sizeLimit b else allocSize b)"

section \<open>Well-formed buffers\<close>

definition ob_wf :: "overlay_buffer \<Rightarrow> bool" where
  "ob_wf b \<longleftrightarrow>
     (case bytes b of None \<Rightarrow> allocSize b = 0 \<and> \<not> allocated b | Some xs \<Rightarrow> length xs = allocSize b)
     \<and> allocSize b \<le> SIZE_MAX \<and> position b \<le> SIZE_MAX \<and> sizeLimit b \<le> SIZE_MAX
     \<and> checkpointLength b \<le> SIZE_MAX"

text \<open>The bytes written so far, and the bytes still to be read.\<close>

definition ob_data :: "overlay_buffer \<Rightarrow> u8 list" where
  "ob_data b = (case bytes b of None \<Rightarrow> [] | Some xs \<Rightarrow> take (position b) xs)"

definition ob_rest :: "overlay_buffer \<Rightarrow> u8 list" where
  "ob_rest b = (case bytes b of None \<Rightarrow> [] | Some xs \<Rightarrow> drop (position b) (take (sizeLimit b) xs))"

text \<open>A buffer that has not been overrun.\<close>

definition ob_good :: "overlay_buffer \<Rightarrow> bool" where
  "ob_good b \<longleftrightarrow> ob_wf b \<and> position b \<le> sizeLimit b \<and> position b \<le> allocSize b"

text \<open>
  There is space for \<open>n\<close> more bytes: within the limit, and inside the array or the array can grow.
  The bound keeps the rounded allocation size below the range of \<^verbatim>\<open>size_t\<close>.
\<close>

definition ob_space :: "overlay_buffer \<Rightarrow> nat \<Rightarrow> bool" where
  "ob_space b n \<longleftrightarrow> position b + n \<le> sizeLimit b \<and> position b + n \<le> 4294901760
     \<and> (position b + n \<le> allocSize b \<or> bytes b = None \<or> allocated b)"

definition malloc_total :: "allocator \<Rightarrow> bool" where
  "malloc_total malloc \<longleftrightarrow> (\<forall>n. \<exists>xs. malloc n = Some xs \<and> length xs = n)"

lemma malloc_totalD: "malloc_total malloc \<Longrightarrow> malloc n = None \<Longrightarrow> False"
  by (metis malloc_total_def option.distinct(1))

lemma malloc_total_ok: "malloc_total malloc \<Longrightarrow> malloc_ok malloc"
  by (metis malloc_ok_def malloc_total_def option.inject)

lemma ob_wf_zero [simp]: "ob_wf zero_buffer" "ob_wf (ob_unlimitsize zero_buffer)"
  by (simp_all add: ob_wf_def zero_buffer_def ob_unlimitsize_def)

lemma round_up_ge:
  assumes "k dvd 65536" and "0 < k" and "n \<le> 4294901760"
  shows "n \<le> round_up k n \<and> round_up k n \<le> 4294901760"
proof (cases "n mod k = 0")
  case True
  then show ?thesis using assms by (simp add: round_up_def)
next
  case False
  obtain m where m: "4294901760 = k * m"
  proof -
    have "(65536::nat) dvd 4294901760" by simp
    with assms(1) have "k dvd 4294901760" by (rule dvd_trans)
    then show ?thesis using that by (auto simp: dvd_def)
  qed
  have "n mod k < k" and "k * (n div k) + n mod k = n"
    using assms(2) by simp_all
  moreover have "k * (n div k + 1) = k * (n div k) + k"
    by simp
  ultimately have eq: "n + (k - n mod k) = k * (n div k + 1)"
    by linarith
  have "n div k < m"
  proof (rule ccontr)
    assume "\<not> n div k < m"
    then have "k * m \<le> k * (n div k)" by simp
    also have "\<dots> = n - n mod k" by (simp add: minus_mod_eq_mult_div)
    finally show False using False assms(3) m by linarith
  qed
  then have "n div k + 1 \<le> m" by simp
  then have "k * (n div k + 1) \<le> k * m" by (rule mult_le_mono2)
  then have le: "n + (k - n mod k) \<le> 4294901760" using eq m by simp
  then have "size_add n (k - n mod k) = n + (k - n mod k)"
    by (simp add: SIZE_MAX_def)
  then show ?thesis using False le by (simp add: round_up_def)
qed

lemma ob_new_size_ge: "n \<le> 4294901760 \<Longrightarrow> n \<le> ob_new_size n \<and> ob_new_size n \<le> 4294901760"
proof -
  assume n: "n \<le> 4294901760"
  define n1 where "n1 = (if n < 64 then 64 else n)"
  define n2 where "n2 = round_up 64 n1"
  define n3 where "n3 = (if n2 > 1024 then round_up 1024 n2 else n2)"
  have 1: "n \<le> n1 \<and> n1 \<le> 4294901760" using n by (simp add: n1_def)
  have d: "(64::nat) dvd 65536" "(1024::nat) dvd 65536" by simp_all
  have 2: "n1 \<le> n2 \<and> n2 \<le> 4294901760" unfolding n2_def by (rule round_up_ge) (use 1 d in auto)
  have 3: "n2 \<le> n3 \<and> n3 \<le> 4294901760"
  proof (cases "n2 > 1024")
    case True
    then show ?thesis using round_up_ge [OF d(2), of n2] 2 by (simp add: n3_def)
  qed (use 2 in \<open>simp add: n3_def\<close>)
  have 4: "n3 \<le> round_up 65536 n3 \<and> round_up 65536 n3 \<le> 4294901760"
    by (rule round_up_ge) (use 3 in auto)
  have "ob_new_size n = (if n3 > 65536 then round_up 65536 n3 else n3)"
    by (simp add: ob_new_size_def Let_def n1_def n2_def n3_def)
  then show ?thesis using 1 2 3 4 by auto
qed

lemma ob_good_bytes: "ob_good b \<Longrightarrow> position b \<noteq> 0 \<Longrightarrow> bytes b \<noteq> None"
  by (auto simp: ob_good_def ob_wf_def split: option.splits)

lemma ob_makespace_space:
  assumes "ob_good b" and "malloc_total malloc" and "ob_space b n" and "0 < n"
  obtains b' where "ob_makespace malloc b n = Some (True, b')" and "ob_good b'"
    and "ob_data b' = ob_data b" and "position b' = position b" and "sizeLimit b' = sizeLimit b"
    and "checkpointLength b' = checkpointLength b" and "position b + n \<le> allocSize b'"
    and "bytes b' \<noteq> None" and "b' = b \<or> allocated b'"
proof (cases "position b + n \<le> allocSize b")
  case True
  have "size_add (position b) n = position b + n"
    using assms(3) by (simp add: ob_space_def SIZE_MAX_def)
  with True assms have "ob_makespace malloc b n = Some (True, b)"
    by (auto simp: ob_makespace_def ob_good_def ob_space_def ob_wf_def split: option.splits)
  moreover have "bytes b \<noteq> None"
    using True assms(1,4) by (auto simp: ob_good_def ob_wf_def split: option.splits)
  ultimately show ?thesis using that [of b] assms(1) True by simp
next
  case False
  have add: "size_add (position b) n = position b + n"
    using assms(3) by (simp add: ob_space_def SIZE_MAX_def)
  let ?N = "ob_new_size (position b + n)"
  have N: "position b + n \<le> ?N" "?N \<le> 4294901760"
    using ob_new_size_ge [of "position b + n"] assms(3) by (simp_all add: ob_space_def)
  obtain new where new: "malloc ?N = Some new" "length new = ?N"
    using assms(2) by (auto simp: malloc_total_def)
  define b' where "b' = b\<lparr>bytes := Some (take (position b) (case bytes b of None \<Rightarrow> [] | Some xs \<Rightarrow> xs)
     @ drop (position b) new), allocated := True, allocSize := ?N\<rparr>"
  have grow: "bytes b = None \<or> allocated b"
    using assms(3) False by (simp add: ob_space_def)
  have "ob_makespace malloc b n = Some (True, b')"
    using assms False add new N grow ob_good_bytes [OF assms(1)]
    by (auto simp: ob_makespace_def ob_good_def ob_space_def b'_def emalloc_def Let_def)
  moreover have "ob_good b'"
    using assms(1) N new(2) by (auto simp: ob_good_def ob_wf_def b'_def SIZE_MAX_def split: option.splits)
  moreover have "ob_data b' = ob_data b"
    using assms(1) by (auto simp: ob_data_def b'_def ob_good_def ob_wf_def split: option.splits)
  ultimately show ?thesis using that [of b'] N grow by (simp add: b'_def)
qed

theorem ob_append_block_space:
  assumes "ob_good b" and "malloc_total malloc" and "ob_space b (length vs)" and "vs \<noteq> []"
  obtains b' where "ob_append_block malloc b vs = Some b'" and "ob_good b'"
    and "ob_data b' = ob_data b @ vs" and "position b' = position b + length vs"
    and "sizeLimit b' = sizeLimit b" and "checkpointLength b' = checkpointLength b"
    and "\<And>k. ob_space b (length vs + k) \<Longrightarrow> ob_space b' k"
proof -
  from assms(4) have "0 < length vs" by simp
  from ob_makespace_space [OF assms(1-3) this] obtain c where c:
    "ob_makespace malloc b (length vs) = Some (True, c)" "ob_good c" "ob_data c = ob_data b"
    "position c = position b" "sizeLimit c = sizeLimit b" "checkpointLength c = checkpointLength b"
    "position b + length vs \<le> allocSize c" "bytes c \<noteq> None"
    "c = b \<or> allocated c"
    by metis
  obtain xs where xs: "bytes c = Some xs" "length xs = allocSize c"
    using c(2,8) by (auto simp: ob_good_def ob_wf_def)
  have len: "position c + length vs \<le> length xs" using c(4,7) xs(2) by simp
  have add: "size_add (position b) (length vs) = position b + length vs"
    using assms(3) by (simp add: ob_space_def SIZE_MAX_def)
  define b' where "b' = c\<lparr>bytes := Some (memwrite xs (position c) vs),
    position := position b + length vs\<rparr>"
  have "ob_append_block malloc b vs = Some b'"
    using c(1,4) xs(1) len add by (simp add: ob_append_block_def ob_poke_def b'_def)
  moreover have "ob_good b'"
    using c assms(3) xs len by (auto simp: ob_good_def ob_wf_def b'_def ob_space_def SIZE_MAX_def)
  moreover have "ob_data b' = ob_data b @ vs"
    using c(3,4) xs(1) len by (simp add: ob_data_def b'_def)
  moreover have "ob_space b' k" if "ob_space b (length vs + k)" for k
    using that c(4,5,8,9) by (auto simp: ob_space_def b'_def)
  ultimately show ?thesis using that [of b'] c(5,6) by (simp add: b'_def)
qed

text \<open>
  An append beyond the limit, beyond a static array, or without memory stores nothing and still
  advances the position.
\<close>

lemma ob_append_block_overrun:
  assumes "ob_good b" and "malloc_ok malloc" and "position b + length vs \<le> 4294901760"
    and no: "position b + length vs > sizeLimit b
      \<or> (position b + length vs > allocSize b \<and>
          ((bytes b \<noteq> None \<and> \<not> allocated b) \<or> malloc (ob_new_size (position b + length vs)) = None))"
  shows "ob_append_block malloc b vs = Some (b\<lparr>position := position b + length vs\<rparr>)"
proof -
  have add: "size_add (position b) (length vs) = position b + length vs"
    using assms(3) by (simp add: SIZE_MAX_def)
  have "ob_makespace malloc b (length vs) = Some (False, b)"
    using assms add ob_good_bytes [OF assms(1)]
    by (auto simp: ob_makespace_def ob_good_def emalloc_def Let_def)
  then show ?thesis using add by (simp add: ob_append_block_def)
qed

lemma ob_append_block_overrun_flag:
  assumes "ob_good b" and "position b + length vs \<le> 4294901760"
    and "position b + length vs > sizeLimit b \<or> position b + length vs > allocSize b"
  shows "ob_overrun (b\<lparr>position := position b + length vs\<rparr>)"
  using assms by (auto simp: ob_overrun_def ob_good_def ob_wf_def SIZE_MAX_def)

lemma ob_append_after_overrun:
  "position b > sizeLimit b \<or> position b > allocSize b \<Longrightarrow> ob_append_block malloc b vs = None"
  by (auto simp: ob_append_block_def ob_makespace_def c_assert_def)

section \<open>Reading what was written\<close>

lemma ob_flip_good:
  assumes "ob_good b" and "position b \<noteq> SIZE_MAX"
  obtains r where "ob_flip b = Some r" and "ob_good r" and "ob_rest r = ob_data b"
    and "ob_remaining r = Some (length (ob_data b))"
proof -
  define r where "r = b\<lparr>checkpointLength := 0, sizeLimit := position b, position := 0\<rparr>"
  have "ob_flip b = Some r"
    using assms by (auto simp: ob_flip_def ob_limitsize_def r_def ob_good_def)
  moreover have "ob_good r" "ob_rest r = ob_data b"
    using assms by (auto simp: ob_good_def ob_wf_def r_def ob_rest_def ob_data_def split: option.splits)
  moreover have "ob_remaining r = Some (length (ob_data b))"
    using assms by (auto simp: ob_remaining_def r_def ob_good_def ob_wf_def ob_data_def split: option.splits)
  ultimately show ?thesis using that by blast
qed

lemma ob_good_rest_length:
  "ob_good b \<Longrightarrow> position b + length (ob_rest b) \<le> SIZE_MAX \<and> position b + length (ob_rest b) \<le> sizeLimit b
     \<and> position b + length (ob_rest b) \<le> allocSize b"
  by (auto simp: ob_good_def ob_wf_def ob_rest_def split: option.splits)

lemma ob_load_rest:
  assumes "ob_good b" and "ob_rest b = vs @ rest"
  shows "test_offset b (length vs) = 0" and "ob_load b (length vs) = Some vs"
    and "ob_good (b\<lparr>position := size_add (position b) (length vs)\<rparr>)"
    and "ob_rest (b\<lparr>position := size_add (position b) (length vs)\<rparr>) = rest"
proof -
  have len: "position b + length vs + length rest \<le> SIZE_MAX"
      "position b + length vs + length rest \<le> sizeLimit b"
      "position b + length vs + length rest \<le> allocSize b"
    using ob_good_rest_length [OF assms(1)] assms(2) by simp_all
  have add: "size_add (position b) (length vs) = position b + length vs"
    using len(1) by simp
  show "test_offset b (length vs) = 0"
    using len add by (simp add: test_offset_def)
  show "ob_load b (length vs) = Some vs"
  proof (cases "bytes b")
    case None
    then show ?thesis using assms(2) by (simp add: ob_rest_def ob_load_def)
  next
    case (Some xs)
    have "memread xs (position b) (length vs) = memread (take (sizeLimit b) xs) (position b) (length vs)"
      using len(2) by (simp add: memread_take)
    also have "\<dots> = take (length vs) (ob_rest b)"
      using Some by (simp add: memread_def ob_rest_def)
    finally have "memread xs (position b) (length vs) = vs" using assms(2) by simp
    moreover have "position b + length vs \<le> length xs"
      using assms(1) Some len(3) by (simp add: ob_good_def ob_wf_def)
    ultimately show ?thesis using Some by (simp add: ob_load_def)
  qed
  show "ob_good (b\<lparr>position := size_add (position b) (length vs)\<rparr>)"
    using assms(1) len add by (auto simp: ob_good_def ob_wf_def split: option.splits)
  have "drop (length vs) (ob_rest b) = rest" using assms(2) by simp
  then show "ob_rest (b\<lparr>position := size_add (position b) (length vs)\<rparr>) = rest"
    using add by (auto simp: ob_rest_def add.commute split: option.splits)
qed

lemma test_offset_short:
  assumes "ob_good b" and "length (ob_rest b) < n" and "position b + n \<le> SIZE_MAX"
  shows "test_offset b n = -1"
proof -
  have "position b + n > sizeLimit b \<or> position b + n > allocSize b"
    using assms by (auto simp: ob_good_def ob_wf_def ob_rest_def split: option.splits)
  then show ?thesis using assms(3) by (auto simp: test_offset_def)
qed

lemma ob_get_bytes_rest:
  assumes "ob_good b" and "ob_rest b = vs @ rest"
  obtains b' where "ob_get_bytes b (length vs) = Some (Some vs, b')" and "ob_good b'" and "ob_rest b' = rest"
  using ob_load_rest [OF assms] that by (simp add: ob_get_bytes_def)

lemma ob_get_bytes_short:
  "ob_good b \<Longrightarrow> length (ob_rest b) < n \<Longrightarrow> position b + n \<le> SIZE_MAX \<Longrightarrow> ob_get_bytes b n = Some (None, b)"
  by (simp add: ob_get_bytes_def test_offset_short)

lemma ob_get_rest:
  assumes "ob_good b" and "ob_rest b = v # rest"
  obtains b' where "ob_get b = Some (uint v, b')" and "ob_good b'" and "ob_rest b' = rest"
proof -
  note L = ob_load_rest [OF assms(1), of "[v]" rest, simplified, OF assms(2)]
  have "ob_byte b (position b) = Some v"
    using L(2) by (auto simp: ob_load_def ob_byte_def memread_def split: option.splits if_splits)
      (metis Cons_nth_drop_Suc less_eq_Suc_le list.inject take_Suc_Cons)
  then have "ob_get b = Some (uint v, b\<lparr>position := size_add (position b) 1\<rparr>)"
    using L(1) by (simp add: ob_get_def)
  then show ?thesis using that L(3,4) by simp
qed

lemma ob_get_empty: "ob_good b \<Longrightarrow> ob_rest b = [] \<Longrightarrow> position b < SIZE_MAX \<Longrightarrow> ob_get b = Some (-1, b)"
  by (simp add: ob_get_def test_offset_short)

subsection \<open>Fixed-width integers\<close>

lemma bit_wide_byte:
  "vs ! i = byte_of k v \<Longrightarrow>
   bit (wide k vs i :: 'a::len word) n \<longleftrightarrow> k \<le> n \<and> n < k + 8 \<and> bit (v :: 'a word) n"
  by (cases "n < LENGTH('a)") (auto simp: wide_def bit_simps bit_byte_of dest: bit_imp_le_length)

lemma be16: "wide 8 [byte_of 8 v, byte_of 0 v] 0 OR wide 0 [byte_of 8 v, byte_of 0 v] 1 = (v :: u16)"
  by (rule bit_eqI) (auto simp: bit_or_iff bit_wide_byte [where v = v])

lemma le16: "wide 0 [byte_of 0 v, byte_of 8 v] 0 OR wide 8 [byte_of 0 v, byte_of 8 v] 1 = (v :: u16)"
  by (rule bit_eqI) (auto simp: bit_or_iff bit_wide_byte [where v = v])

lemma be32:
  fixes v :: u32
  assumes "vs = [byte_of 24 v, byte_of 16 v, byte_of 8 v, byte_of 0 v]"
  shows "wide 24 vs 0 OR wide 16 vs 1 OR wide 8 vs 2 OR wide 0 vs 3 = v"
  using assms by (intro bit_eqI) (auto simp: bit_or_iff bit_wide_byte [where v = v])

lemma le32:
  fixes v :: u32
  assumes "vs = [byte_of 0 v, byte_of 8 v, byte_of 16 v, byte_of 24 v]"
  shows "wide 0 vs 0 OR wide 8 vs 1 OR wide 16 vs 2 OR wide 24 vs 3 = v"
  using assms by (intro bit_eqI) (auto simp: bit_or_iff bit_wide_byte [where v = v])

lemma le64:
  fixes v :: u64
  assumes "vs = [byte_of 0 v, byte_of 8 v, byte_of 16 v, byte_of 24 v,
                 byte_of 32 v, byte_of 40 v, byte_of 48 v, byte_of 56 v]"
  shows "wide 0 vs 0 OR wide 8 vs 1 OR wide 16 vs 2 OR wide 24 vs 3
           OR wide 32 vs 4 OR wide 40 vs 5 OR wide 48 vs 6 OR wide 56 vs 7 = v"
  using assms by (intro bit_eqI) (auto simp: bit_or_iff bit_wide_byte [where v = v])

text \<open>
  The reader and the writer of 64 bit integers agree on values whose bits 31 to 39 are clear.
\<close>

lemma be64:
  fixes v :: u64
  assumes vs: "vs = [byte_of 56 v, byte_of 48 v, byte_of 40 v, byte_of 32 v,
                 byte_of 24 v, byte_of 16 v, byte_of 8 v, byte_of 0 v]"
    and clear: "\<And>n. 31 \<le> n \<Longrightarrow> n < 40 \<Longrightarrow> \<not> bit v n"
  shows "be64_of vs = v"
proof (rule bit_eqI)
  fix n assume "possible_bit TYPE(u64) n"
  then have n: "n < 64" by simp
  have z: "wide 36 vs 3 = (0 :: u64)"
  proof -
    have "byte_of 32 v = 0"
      by (rule bit_eqI) (simp add: bit_byte_of clear)
    then show ?thesis by (simp add: wide_def vs)
  qed
  have s: "bit (scast (wide 24 vs 4 :: u32) :: u64) n \<longleftrightarrow> 24 \<le> n \<and> n < 32 \<and> bit v n"
    using n clear [of 31] clear [of n] by (auto simp: bit_signed_iff wide_def bit_simps bit_byte_of vs min_def)
  show "bit (be64_of vs) n \<longleftrightarrow> bit v n"
    using n clear [of n] by (auto simp: be64_of_def bit_or_iff z [unfolded vs] s [unfolded vs] vs bit_wide_byte [where v = v])
qed

section \<open>The buffer as a byte channel\<close>

text \<open>Appending a sequence of fields, and reading fields of given sizes back.\<close>

fun append_all :: "('b \<Rightarrow> 'v \<Rightarrow> 'b option) \<Rightarrow> 'b \<Rightarrow> 'v list \<Rightarrow> 'b option" where
  "append_all app b [] = Some b"
| "append_all app b (vs # vss) = (case app b vs of None \<Rightarrow> None | Some b' \<Rightarrow> append_all app b' vss)"

fun get_all :: "('b \<Rightarrow> nat \<Rightarrow> (u8 list option \<times> 'b) option) \<Rightarrow> 'b \<Rightarrow> nat list \<Rightarrow> (u8 list list \<times> 'b) option" where
  "get_all get b [] = Some ([], b)"
| "get_all get b (n # ns) =
     (case get b n of
        Some (Some vs, b') \<Rightarrow>
          (case get_all get b' ns of Some (vss, b'') \<Rightarrow> Some (vs # vss, b'') | None \<Rightarrow> None)
      | _ \<Rightarrow> None)"

lemma append_all_append:
  "append_all app b (xs @ ys) = (case append_all app b xs of None \<Rightarrow> None | Some b' \<Rightarrow> append_all app b' ys)"
  by (induction xs arbitrary: b) (auto split: option.splits)

text \<open>
  What the packet code relies on: appended bytes are kept in order, and after a flip they are read
  back in order.
\<close>

locale byte_channel =
  fixes append :: "'m \<Rightarrow> 'b \<Rightarrow> u8 list \<Rightarrow> 'b option"
    and flip :: "'b \<Rightarrow> 'b option"
    and get :: "'b \<Rightarrow> nat \<Rightarrow> (u8 list option \<times> 'b) option"
    and mem :: "'m \<Rightarrow> bool"
    and good :: "'b \<Rightarrow> bool"
    and space :: "'b \<Rightarrow> nat \<Rightarrow> bool"
    and data :: "'b \<Rightarrow> u8 list"
    and rest :: "'b \<Rightarrow> u8 list"
  assumes append_ok: "mem m \<Longrightarrow> good b \<Longrightarrow> space b (length vs + k) \<Longrightarrow> vs \<noteq> [] \<Longrightarrow>
      \<exists>b'. append m b vs = Some b' \<and> good b' \<and> data b' = data b @ vs \<and> space b' k"
    and flip_ok: "good b \<Longrightarrow> space b 0 \<Longrightarrow> \<exists>r. flip b = Some r \<and> good r \<and> rest r = data b"
    and get_ok: "good b \<Longrightarrow> rest b = vs @ ys \<Longrightarrow>
      \<exists>b'. get b (length vs) = Some (Some vs, b') \<and> good b' \<and> rest b' = ys"
begin

lemma append_all_ok:
  "mem m \<Longrightarrow> good b \<Longrightarrow> space b (sum_list (map length vss) + k) \<Longrightarrow> [] \<notin> set vss \<Longrightarrow>
   \<exists>b'. append_all (append m) b vss = Some b' \<and> good b' \<and> data b' = data b @ concat vss \<and> space b' k"
proof (induction vss arbitrary: b)
  case Nil
  then show ?case by simp
next
  case (Cons vs vss)
  then have "space b (length vs + (sum_list (map length vss) + k))" and "vs \<noteq> []"
    by (auto simp: add.assoc)
  from append_ok [OF Cons.prems(1,2) this] obtain c where c:
    "append m b vs = Some c" "good c" "data c = data b @ vs" "space c (sum_list (map length vss) + k)"
    by blast
  from Cons.IH [OF Cons.prems(1) c(2,4)] Cons.prems(4) c(1,3) show ?case by auto
qed

lemma get_all_ok:
  "good b \<Longrightarrow> rest b = concat vss @ ys \<Longrightarrow>
   \<exists>b'. get_all get b (map length vss) = Some (vss, b') \<and> good b' \<and> rest b' = ys"
proof (induction vss arbitrary: b)
  case Nil
  then show ?case by simp
next
  case (Cons vs vss)
  from Cons.prems(2) have "rest b = vs @ (concat vss @ ys)" by simp
  from get_ok [OF Cons.prems(1) this] obtain c where c:
    "get b (length vs) = Some (Some vs, c)" "good c" "rest c = concat vss @ ys" by blast
  from Cons.IH [OF c(2,3)] c(1) show ?case by auto
qed

lemma channel_roundtrip:
  assumes "mem m" and "good b" and "data b = []" and "space b (sum_list (map length vss))"
    and "[] \<notin> set vss"
  shows "\<exists>b' r r'. append_all (append m) b vss = Some b' \<and> flip b' = Some r
     \<and> get_all get r (map length vss) = Some (vss, r') \<and> rest r' = []"
proof -
  obtain b' where b': "append_all (append m) b vss = Some b'" "good b'" "data b' = concat vss" "space b' 0"
    using append_all_ok [OF assms(1,2), of vss 0] assms(3-5) by auto
  obtain r where r: "flip b' = Some r" "good r" "rest r = concat vss"
    using flip_ok [OF b'(2,4)] b'(3) by auto
  obtain r' where "get_all get r (map length vss) = Some (vss, r')" "rest r' = []"
    using get_all_ok [OF r(2), of vss "[]"] r(3) by auto
  then show ?thesis using b'(1) r(1) by blast
qed

end

interpretation ob: byte_channel ob_append_block ob_flip ob_get_bytes malloc_total ob_good ob_space
  ob_data ob_rest
proof (unfold_locales, goal_cases)
  case (1 m b vs k)
  then have "ob_space b (length vs)" by (auto simp: ob_space_def)
  from ob_append_block_space [OF 1(2,1) this 1(4)] 1(3) show ?case by metis
next
  case (2 b)
  then have "position b \<noteq> SIZE_MAX" by (simp add: ob_space_def SIZE_MAX_def)
  from ob_flip_good [OF 2(1) this] show ?case by metis
next
  case (3 b vs ys)
  then show ?case by (metis ob_get_bytes_rest)
qed

subsection \<open>Packed integers\<close>

lemma unat_drop_bit_7: "unat (drop_bit 7 v) = unat (v :: 'a::len word) div 128"
  unfolding unat_drop_bit_eq by (simp add: drop_bit_eq_div)

lemma drop_bit_7_eq_0_iff: "drop_bit 7 (w :: u64) = 0 \<longleftrightarrow> w \<le> 0x7f"
proof -
  have "drop_bit 7 w = 0 \<longleftrightarrow> unat w div 128 = 0"
    by (metis unat_drop_bit_7 unat_eq_zero)
  also have "\<dots> \<longleftrightarrow> unat w \<le> 127" by arith
  finally show ?thesis by (simp add: word_le_nat_alt)
qed

lemma and_0x80_eq_0_iff: "x AND 0x80 = 0 \<longleftrightarrow> \<not> bit (x :: u8) 7"
  by (simp add: bit_iff_and_push_bit_not_eq_0 push_bit_eq_mult)

lemma mask7_word: "(0x7f :: 'a::len word) = mask 7"
  by (simp add: mask_eq_exp_minus_1)

lemma bit_0x80: "bit (0x80 :: int) n \<longleftrightarrow> n = 7"
proof -
  have e: "(0x80 :: int) = 2 ^ 7" by simp
  show ?thesis unfolding e bit_exp_iff by auto
qed

lemma bit_packed_byte:
  "bit (packed_byte w) n \<longleftrightarrow> (n < 7 \<and> bit w n) \<or> (n = 7 \<and> drop_bit 7 w \<noteq> 0)"
  by (auto simp: packed_byte_def drop_bit_7_eq_0_iff mask7_word bit_simps bit_0x80)

lemma packed_byte_more: "packed_byte w AND 0x80 = 0 \<longleftrightarrow> drop_bit 7 w = 0"
  by (simp add: and_0x80_eq_0_iff bit_packed_byte)

lemma bit_word_lessD: "v < 2 ^ k \<Longrightarrow> bit v n \<Longrightarrow> n < k" for v :: "'a::len word"
  by (metis bit_and_iff bit_mask_iff less_mask_eq)

text \<open>The shifted seven bits of step \<open>i\<close>, as a 32 bit value.\<close>

lemma bit_shl_packed:
  assumes "shl_int (packed_byte (drop_bit (7 * i) v)) (7 * i) = Some x"
  shows "bit x n \<longleftrightarrow> n < 32 \<and> 7 * i \<le> n \<and> n < 7 * Suc i \<and> bit v n"
  using assms
  by (auto simp: shl_int_def mask7_word bit_simps bit_packed_byte split: if_splits)

lemma bit_scast_low: "n < 32 \<Longrightarrow> bit (scast (x :: u32) :: u64) n \<longleftrightarrow> bit x n"
proof -
  assume n: "n < 32"
  then have m: "min (LENGTH(32) - Suc 0) n = n" by auto
  show ?thesis unfolding bit_signed_iff m using n by simp
qed

lemma bit_scast_high: "32 \<le> n \<Longrightarrow> bit (scast (x :: u32) :: u64) n \<longleftrightarrow> n < 64 \<and> bit x 31"
proof -
  assume n: "32 \<le> n"
  then have m: "min (LENGTH(32) - Suc 0) n = 31" by auto
  show ?thesis unfolding bit_signed_iff m by simp
qed

lemma unpack_step:
  fixes v :: u64
  assumes "v < 2 ^ 31" and "7 * i < 32"
  obtains x where "shl_int (packed_byte (drop_bit (7 * i) v)) (7 * i) = Some x"
    and "take_bit (7 * i) v OR scast x = take_bit (7 * Suc i) v"
proof -
  obtain x where x: "shl_int (packed_byte (drop_bit (7 * i) v)) (7 * i) = Some x"
    using assms(2) by (simp add: shl_int_def)
  have hi: "\<not> bit v n" if "31 \<le> n" for n
    using bit_word_lessD [OF assms(1), of n] that by linarith
  have sx: "bit (scast x :: u64) n \<longleftrightarrow> 7 * i \<le> n \<and> n < 7 * Suc i \<and> bit v n" for n
  proof (cases "n < 32")
    case True
    then show ?thesis unfolding bit_scast_low [OF True] bit_shl_packed [OF x] by blast
  next
    case False
    then have n: "32 \<le> n" by simp
    show ?thesis unfolding bit_scast_high [OF n] bit_shl_packed [OF x] using hi [of 31] hi [of n] n by simp
  qed
  have "take_bit (7 * i) v OR scast x = take_bit (7 * Suc i) v"
  proof (rule bit_eqI)
    fix n
    show "bit (take_bit (7 * i) v OR scast x) n \<longleftrightarrow> bit (take_bit (7 * Suc i) v) n"
      unfolding bit_or_iff bit_take_bit_iff sx by fastforce
  qed
  then show ?thesis using that x by blast
qed

lemma packed_shift_small:
  fixes v :: u64
  assumes "v < 2 ^ 31" and "w = drop_bit (7 * i) v" and "i = 0 \<or> w \<noteq> 0"
  shows "7 * i < 32"
proof (rule ccontr)
  assume a: "\<not> 7 * i < 32"
  have "w = 0"
  proof (rule bit_eqI)
    fix n
    show "bit w n \<longleftrightarrow> bit 0 n"
      using bit_word_lessD [OF assms(1), of "7 * i + n"] a by (auto simp: assms(2) bit_drop_bit_eq)
  qed
  then show False using assms(3) a by auto
qed

lemma packed_shift_small32:
  fixes v :: u32
  assumes "w = drop_bit (7 * i) (ucast v :: u64)" and "i = 0 \<or> w \<noteq> 0"
  shows "7 * i < 32"
proof (rule ccontr)
  assume a: "\<not> 7 * i < 32"
  have "w = 0"
  proof (rule bit_eqI)
    fix n
    show "bit w n \<longleftrightarrow> bit 0 n"
      using bit_imp_le_length [of v "7 * i + n"] a
      by (auto simp: assms(1) bit_drop_bit_eq bit_unsigned_iff)
  qed
  then show False using assms(2) a by auto
qed

lemma unpack_step32:
  fixes v :: u32
  assumes "7 * i < 32"
  obtains x where "shl_int (packed_byte (drop_bit (7 * i) (ucast v))) (7 * i) = Some x"
    and "take_bit (7 * i) v OR x = take_bit (7 * Suc i) v"
proof -
  obtain x where x: "shl_int (packed_byte (drop_bit (7 * i) (ucast v :: u64))) (7 * i) = Some x"
    using assms by (simp add: shl_int_def)
  have "take_bit (7 * i) v OR x = take_bit (7 * Suc i) v"
  proof (rule bit_eqI)
    fix n
    show "bit (take_bit (7 * i) v OR x) n \<longleftrightarrow> bit (take_bit (7 * Suc i) v) n"
      unfolding bit_or_iff bit_take_bit_iff bit_shl_packed [OF x]
      using bit_imp_le_length [of v n] by (auto simp: bit_unsigned_iff)
  qed
  then show ?thesis using that x by blast
qed

lemma take_bit_all32:
  fixes v :: u32
  assumes "drop_bit k (ucast v :: u64) = 0"
  shows "take_bit k v = v"
proof (rule bit_eqI)
  fix n
  have "\<not> bit v n" if "k \<le> n"
  proof
    assume b: "bit v n"
    then have "bit (drop_bit k (ucast v :: u64)) (n - k)"
      using that bit_imp_le_length [OF b] by (simp add: bit_drop_bit_eq bit_unsigned_iff)
    then show False using assms by simp
  qed
  then show "bit (take_bit k v) n \<longleftrightarrow> bit v n"
    unfolding bit_take_bit_iff by (meson linorder_not_less)
qed

lemma unpack_pack_loop:
  assumes "v < 2 ^ 31" and "w = drop_bit (7 * i) v" and "i = 0 \<or> w \<noteq> 0"
  shows "unpack_uint_loop (pack_uint w @ ys) i (take_bit (7 * i) v) = Some (Some (i + length (pack_uint w)), v)"
  using assms(2,3)
proof (induction w arbitrary: i rule: pack_uint.induct)
  case (1 w)
  have i: "7 * i < 32" using packed_shift_small [OF assms(1) 1(2,3)] .
  obtain x where x: "shl_int (packed_byte w) (7 * i) = Some x"
      "take_bit (7 * i) v OR scast x = take_bit (7 * Suc i) v"
    using unpack_step [OF assms(1) i] 1(2) by metis
  have d: "drop_bit 7 w = drop_bit (7 * Suc i) v" using 1(2) by simp
  show ?case
  proof (cases "drop_bit 7 w = 0")
    case True
    have "take_bit (7 * Suc i) v = v" using True d by (metis bits_ident add_0 push_bit_of_0)
    then show ?thesis using True x
      by (simp add: pack_uint.simps [of w] packed_byte_more mult.commute Let_def)
  next
    case False
    from 1(1) [OF False d] False have
      "unpack_uint_loop (pack_uint (drop_bit 7 w) @ ys) (Suc i) (take_bit (7 * Suc i) v)
         = Some (Some (Suc i + length (pack_uint (drop_bit 7 w))), v)" by simp
    then show ?thesis using False x
      by (simp add: pack_uint.simps [of w] packed_byte_more mult.commute Let_def)
  qed
qed

lemma unpack_pack_uint:
  "v < 2 ^ 31 \<Longrightarrow> unpack_uint (pack_uint v @ ys) = Some (Some (length (pack_uint v)), v)"
  using unpack_pack_loop [of v v 0 ys] by (simp add: unpack_uint_def)

lemma length_pack_uint: "length (pack_uint v) = measure_packed_uint v"
proof (induction v rule: pack_uint.induct)
  case (1 v)
  then show ?case by (simp add: pack_uint.simps [of v] measure_packed_uint.simps [of v])
qed

lemma ob_append_packed_ui64_blocks:
  "ob_append_packed_ui64 malloc b v = append_all (ob_append_block malloc) b (map (\<lambda>x. [x]) (pack_uint v))"
proof (induction malloc b v rule: ob_append_packed_ui64.induct)
  case (1 malloc b v)
  show ?case
  proof (cases "ob_append_block malloc b [packed_byte v]")
    case None
    then show ?thesis
      by (simp add: ob_append_packed_ui64.simps [of malloc b v] pack_uint.simps [of v] ob_append_byte_def)
  next
    case (Some b')
    then show ?thesis using 1 [of b']
      by (simp add: ob_append_packed_ui64.simps [of malloc b v] pack_uint.simps [of v] ob_append_byte_def)
  qed
qed

lemma unat_ucast_u64: "unat (ucast (v :: u32) :: u64) = unat v"
proof -
  have "unat v < 2 ^ LENGTH(32)" by (rule unsigned_less)
  then show ?thesis unfolding unsigned_ucast_eq by (intro take_bit_nat_eq_self) simp
qed

lemma ucast_gt_0x7f: "(ucast (v :: u32) :: u64) > 0x7f \<longleftrightarrow> v > 0x7f"
  unfolding word_less_nat_alt unat_ucast_u64 by simp

lemma packed_byte_ui32:
  "ucast ((v AND 0x7f) OR (if v > 0x7f then 0x80 else 0)) = packed_byte (ucast (v :: u32))"
proof (rule bit_eqI)
  fix n assume "possible_bit TYPE(u8) n"
  then have "n < 8" by simp
  then show "bit (ucast ((v AND 0x7f) OR (if v > 0x7f then 0x80 else 0)) :: u8) n
      \<longleftrightarrow> bit (packed_byte (ucast v)) n"
    unfolding packed_byte_def ucast_gt_0x7f
    by (simp add: bit_unsigned_iff bit_or_iff bit_and_iff)
qed

lemma ucast_drop_bit_7: "(ucast (drop_bit 7 (v :: u32)) :: u64) = drop_bit 7 (ucast v)"
proof (rule bit_eqI)
  fix n
  show "bit (ucast (drop_bit 7 v) :: u64) n \<longleftrightarrow> bit (drop_bit 7 (ucast v :: u64)) n"
    using bit_imp_le_length [of v "7 + n"] by (auto simp: bit_unsigned_iff bit_drop_bit_eq)
qed

lemma ucast_u64_eq_0: "(ucast (v :: u32) :: u64) = 0 \<longleftrightarrow> v = 0"
  by (metis unat_ucast_u64 unat_eq_zero)

lemma ob_append_packed_ui32_blocks:
  "ob_append_packed_ui32 malloc b v =
     append_all (ob_append_block malloc) b (map (\<lambda>x. [x]) (pack_uint (ucast v)))"
proof (induction malloc b v rule: ob_append_packed_ui32.induct)
  case (1 malloc b v)
  have d: "drop_bit 7 v \<noteq> 0 \<longleftrightarrow> drop_bit 7 (ucast v :: u64) \<noteq> 0"
    using ucast_drop_bit_7 [of v] ucast_u64_eq_0 [of "drop_bit 7 v"] by simp
  show ?case
  proof (cases "ob_append_block malloc b [packed_byte (ucast v)]")
    case None
    then show ?thesis
      by (simp add: ob_append_packed_ui32.simps [of malloc b v] pack_uint.simps [of "ucast v"]
          ob_append_byte_def packed_byte_ui32)
  next
    case (Some b')
    then show ?thesis using 1 [of b'] d
      by (simp add: ob_append_packed_ui32.simps [of malloc b v] pack_uint.simps [of "ucast v"]
          ob_append_byte_def packed_byte_ui32 ucast_drop_bit_7)
  qed
qed

lemma ob_get_packed_byte:
  assumes "ob_good b" and "ob_rest b = v # rest"
  obtains b' where "ob_get b = Some (uint v, b')" and "ob_good b'" and "ob_rest b' = rest"
    and "\<not> uint v < 0" and "word_of_int (uint v) = v"
  using ob_get_rest [OF assms] by (metis linorder_not_less uint_ge_0 word_of_int_uint)

lemma ob_get_packed_ui64_loop_ok:
  assumes "v < 2 ^ 31" and "w = drop_bit (7 * i) v" and "i = 0 \<or> w \<noteq> 0"
    and "ob_good b" and "ob_rest b = pack_uint w @ ys"
  shows "\<exists>b'. ob_get_packed_ui64_loop b (take_bit (7 * i) v) (7 * i) = Some (v, b')
     \<and> ob_good b' \<and> ob_rest b' = ys"
  using assms(2-5)
proof (induction w arbitrary: i b rule: pack_uint.induct)
  case (1 w)
  have i: "7 * i < 32" using packed_shift_small [OF assms(1) 1(2,3)] .
  obtain x where x: "shl_int (packed_byte w) (7 * i) = Some x"
      "take_bit (7 * i) v OR scast x = take_bit (7 * Suc i) v"
    using unpack_step [OF assms(1) i] 1(2) by metis
  have d: "drop_bit 7 w = drop_bit (7 * Suc i) v" using 1(2) by simp
  have "ob_rest b = packed_byte w # ((if drop_bit 7 w \<noteq> 0 then pack_uint (drop_bit 7 w) else []) @ ys)"
    using 1(5) by (simp add: pack_uint.simps [of w])
  from ob_get_packed_byte [OF 1(4) this] obtain c where c: "ob_get b = Some (uint (packed_byte w), c)"
      "ob_good c" "ob_rest c = (if drop_bit 7 w \<noteq> 0 then pack_uint (drop_bit 7 w) else []) @ ys"
      "\<not> uint (packed_byte w) < 0" "word_of_int (uint (packed_byte w)) = packed_byte w" .
  have step: "ob_get_packed_ui64_loop b (take_bit (7 * i) v) (7 * i) =
      (if drop_bit 7 w \<noteq> 0 then ob_get_packed_ui64_loop c (take_bit (7 * Suc i) v) (7 * Suc i)
       else Some (take_bit (7 * Suc i) v, c))"
    using c i x by (simp add: ob_get_packed_ui64_loop.simps [of b] packed_byte_more Let_def add.commute)
  show ?case
  proof (cases "drop_bit 7 w = 0")
    case True
    have "take_bit (7 * Suc i) v = v" using True d by (metis bits_ident add_0 push_bit_of_0)
    then show ?thesis using True step c by simp
  next
    case False
    from 1(1) [OF False d _ c(2)] False c(3) step show ?thesis by simp
  qed
qed

lemma ob_get_packed_ui32_loop_ok:
  fixes v :: u32
  assumes "w = drop_bit (7 * i) (ucast v :: u64)" and "i = 0 \<or> w \<noteq> 0"
    and "ob_good b" and "ob_rest b = pack_uint w @ ys"
  shows "\<exists>b'. ob_get_packed_ui32_loop b (take_bit (7 * i) v) (7 * i) = Some (v, b')
     \<and> ob_good b' \<and> ob_rest b' = ys"
  using assms
proof (induction w arbitrary: i b rule: pack_uint.induct)
  case (1 w)
  have i: "7 * i < 32" using packed_shift_small32 [OF 1(2,3)] .
  obtain x where x: "shl_int (packed_byte w) (7 * i) = Some x"
      "take_bit (7 * i) v OR x = take_bit (7 * Suc i) v"
    using unpack_step32 [OF i] 1(2) by metis
  have d: "drop_bit 7 w = drop_bit (7 * Suc i) (ucast v)" using 1(2) by simp
  have "ob_rest b = packed_byte w # ((if drop_bit 7 w \<noteq> 0 then pack_uint (drop_bit 7 w) else []) @ ys)"
    using 1(5) by (simp add: pack_uint.simps [of w])
  from ob_get_packed_byte [OF 1(4) this] obtain c where c: "ob_get b = Some (uint (packed_byte w), c)"
      "ob_good c" "ob_rest c = (if drop_bit 7 w \<noteq> 0 then pack_uint (drop_bit 7 w) else []) @ ys"
      "\<not> uint (packed_byte w) < 0" "word_of_int (uint (packed_byte w)) = packed_byte w" .
  have step: "ob_get_packed_ui32_loop b (take_bit (7 * i) v) (7 * i) =
      (if drop_bit 7 w \<noteq> 0 then ob_get_packed_ui32_loop c (take_bit (7 * Suc i) v) (7 * Suc i)
       else Some (take_bit (7 * Suc i) v, c))"
    using c i x by (simp add: ob_get_packed_ui32_loop.simps [of b] packed_byte_more Let_def add.commute)
  show ?case
  proof (cases "drop_bit 7 w = 0")
    case True
    have "take_bit (7 * Suc i) v = v" using True d take_bit_all32 by simp
    then show ?thesis using True step c by simp
  next
    case False
    from 1(1) [OF False d _ c(2)] False c(3) step show ?thesis by simp
  qed
qed


section \<open>Rolling back to a checkpoint\<close>

text \<open>
  \<open>holds_prefix c b\<close>: the checkpoint of \<open>b\<close> is at the end of the bytes \<open>c\<close>, which are still the first
  bytes of the array, and the position has not moved below it.
\<close>

definition holds_prefix :: "u8 list \<Rightarrow> overlay_buffer \<Rightarrow> bool" where
  "holds_prefix c b \<longleftrightarrow> ob_wf b \<and> checkpointLength b = length c \<and> length c \<le> allocSize b
     \<and> length c \<le> sizeLimit b \<and> length c \<le> position b
     \<and> take (length c) (case bytes b of None \<Rightarrow> [] | Some xs \<Rightarrow> xs) = c"

lemma round_up_le: "n \<le> SIZE_MAX \<Longrightarrow> round_up k n \<le> SIZE_MAX"
  by (simp add: round_up_def)

lemma ob_new_size_le: "n \<le> SIZE_MAX \<Longrightarrow> ob_new_size n \<le> SIZE_MAX"
proof -
  assume n: "n \<le> SIZE_MAX"
  define n1 where "n1 = (if n < 64 then 64 else n)"
  define n2 where "n2 = round_up 64 n1"
  define n3 where "n3 = (if n2 > 1024 then round_up 1024 n2 else n2)"
  have "n1 \<le> SIZE_MAX" using n by (simp add: n1_def SIZE_MAX_def)
  then have "n2 \<le> SIZE_MAX" unfolding n2_def by (rule round_up_le)
  then have "n3 \<le> SIZE_MAX" by (simp add: n3_def round_up_le)
  moreover have "ob_new_size n = (if n3 > 65536 then round_up 65536 n3 else n3)"
    by (simp add: ob_new_size_def Let_def n1_def n2_def n3_def)
  ultimately show ?thesis by (simp add: round_up_le)
qed

lemma holds_prefix_makespace:
  assumes "malloc_ok malloc" and "holds_prefix c b" and "ob_makespace malloc b n = Some (ok, b')"
  shows "holds_prefix c b' \<and> position b' = position b
    \<and> (\<not> ok \<longrightarrow> length c \<le> size_add (position b) n)"
proof -
  have P: "position b \<le> sizeLimit b" "position b \<le> allocSize b" "position b \<noteq> 0 \<longrightarrow> bytes b \<noteq> None"
    using assms(3) by (auto simp: ob_makespace_def c_assert_def split: if_splits option.splits)
  have 1: "ob_makespace malloc b n =
     (if size_add (position b) n > sizeLimit b then Some (False, b)
     else if size_add (position b) n \<le> allocSize b then Some (True, b)
     else if bytes b \<noteq> None \<and> \<not> allocated b then Some (False, b)
     else (let newSize = ob_new_size (size_add (position b) n) in
       case emalloc malloc newSize of
         None \<Rightarrow> Some (False, b)
       | Some new \<Rightarrow>
           if position b > length new then None
           else Some (True, b\<lparr>bytes := Some (take (position b) (case bytes b of None \<Rightarrow> [] | Some xs \<Rightarrow> xs)
                                       @ drop (position b) new),
                        allocated := True, allocSize := newSize\<rparr>)))"
    using P by (simp add: ob_makespace_def c_assert_def)
  show ?thesis
  proof (cases "b' = b")
    case True
    then show ?thesis using assms(2,3) 1 by (auto simp: holds_prefix_def Let_def split: if_splits option.splits)
  next
    case False
    define N where "N = ob_new_size (size_add (position b) n)"
    from False obtain new where new: "malloc N = Some new" "position b \<le> length new" "ok"
      "b' = b\<lparr>bytes := Some (take (position b) (case bytes b of None \<Rightarrow> [] | Some xs \<Rightarrow> xs)
         @ drop (position b) new), allocated := True, allocSize := N\<rparr>"
      using assms(3) 1 by (auto simp: Let_def emalloc_def N_def split: if_splits option.splits)
    have len: "length new = N" using new(1) assms(1) by (rule malloc_okD [rotated])
    have bound: "N \<le> SIZE_MAX" unfolding N_def by (rule ob_new_size_le) simp
    show ?thesis using assms(2) new P len bound
      by (auto simp: holds_prefix_def ob_wf_def min_def split: option.splits)
  qed
qed

lemma holds_prefix_append:
  assumes "malloc_ok malloc" and "holds_prefix c b" and "ob_append_block malloc b vs = Some b'"
  shows "holds_prefix c b'"
proof -
  from assms(3) obtain ok d e where d: "ob_makespace malloc b (length vs) = Some (ok, d)"
      "(if ok then ob_poke d vs else Some d) = Some e"
      "b' = e\<lparr>position := size_add (position e) (length vs)\<rparr>"
    by (auto simp: ob_append_block_def bind_eq_Some_conv)
  have hp: "holds_prefix c d" "position d = position b" "\<not> ok \<Longrightarrow> length c \<le> size_add (position b) (length vs)"
    using holds_prefix_makespace [OF assms(1,2) d(1)] by simp_all
  show ?thesis
  proof (cases ok)
    case False
    then show ?thesis using d hp by (auto simp: holds_prefix_def ob_wf_def split: option.splits)
  next
    case True
    then obtain xs where xs: "bytes d = Some xs" "position d + length vs \<le> length xs"
        "e = d\<lparr>bytes := Some (memwrite xs (position d) vs)\<rparr>"
      using d(2) by (auto simp: ob_poke_def split: option.splits if_splits)
    have "size_add (position d) (length vs) = position d + length vs"
      using xs hp(1) by (simp add: holds_prefix_def ob_wf_def)
    then show ?thesis using xs d(3) hp(1) by (simp add: holds_prefix_def ob_wf_def)
  qed
qed

lemma holds_prefix_append_all:
  assumes "malloc_ok malloc"
  shows "holds_prefix c b \<Longrightarrow> append_all (ob_append_block malloc) b vss = Some b' \<Longrightarrow> holds_prefix c b'"
  by (induction vss arbitrary: b) (auto dest: holds_prefix_append [OF assms] split: option.splits)

lemma ob_append_bytes_block: "vs \<noteq> [] \<Longrightarrow> ob_append_bytes malloc b vs = ob_append_block malloc b vs"
  by (simp add: ob_append_bytes_def)

lemma append_all_bytes_block:
  "[] \<notin> set vss \<Longrightarrow> append_all (ob_append_bytes malloc) b vss = append_all (ob_append_block malloc) b vss"
  by (induction vss arbitrary: b) (auto simp: ob_append_bytes_block split: option.splits)

lemma ob_append_bytes_nonempty: "ob_append_bytes malloc b vs = Some b' \<Longrightarrow> vs \<noteq> []"
  by (auto simp: ob_append_bytes_def)

lemma append_all_bytes_nonempty:
  "append_all (ob_append_bytes malloc) b vss = Some b' \<Longrightarrow> [] \<notin> set vss"
  by (induction vss arbitrary: b) (auto dest: ob_append_bytes_nonempty split: option.splits)

section \<open>Properties\<close>

text \<open>
  C1: fields appended one after the other to an empty buffer with space for all of them are read
  back, in order and complete, after the buffer is flipped.
\<close>

theorem ob_fields_roundtrip:
  assumes "malloc_total malloc" and "ob_good b" and "ob_data b = []"
    and "ob_space b (sum_list (map length vss))" and "[] \<notin> set vss"
  shows "\<exists>b' r r'. append_all (ob_append_bytes malloc) b vss = Some b' \<and> ob_flip b' = Some r
     \<and> get_all ob_get_bytes r (map length vss) = Some (vss, r') \<and> ob_rest r' = []"
  unfolding append_all_bytes_block [OF assms(5)] by (rule ob.channel_roundtrip [OF assms])

theorem ob_fields_roundtrip_witness:
  "\<exists>b' r r'. append_all (ob_append_bytes (\<lambda>n. Some (replicate n 0))) (ob_unlimitsize zero_buffer)
       [[1, 2], [3 :: u8]] = Some b' \<and> ob_flip b' = Some r
     \<and> get_all ob_get_bytes r (map length [[1, 2], [3 :: u8]]) = Some ([[1, 2], [3]], r') \<and> ob_rest r' = []"
  by (rule ob_fields_roundtrip)
    (simp_all add: malloc_total_def ob_good_def ob_data_def ob_space_def zero_buffer_def
      ob_unlimitsize_def SIZE_MAX_def ob_wf_def)

text \<open>
  C2: whatever a sequence of appends after a checkpoint did (stored, or overran the buffer part way),
  a rewind gives back exactly the bytes that were there at the checkpoint, in a usable buffer.
\<close>

theorem ob_rewind_restores:
  assumes "malloc_ok malloc" and "ob_good b"
    and "append_all (ob_append_bytes malloc) (ob_checkpoint b) vss = Some b'"
  shows "ob_data (ob_rewind b') = ob_data b \<and> ob_good (ob_rewind b')"
proof -
  have blocks: "append_all (ob_append_block malloc) (ob_checkpoint b) vss = Some b'"
    using assms(3) append_all_bytes_block append_all_bytes_nonempty by metis
  have pos: "position b = length (ob_data b)"
    using assms(2) by (auto simp: ob_data_def ob_good_def ob_wf_def split: option.splits)
  have "holds_prefix (ob_data b) (ob_checkpoint b)"
    using assms(2) pos
    by (auto simp: holds_prefix_def ob_checkpoint_def ob_good_def ob_wf_def ob_data_def split: option.splits)
  from holds_prefix_append_all [OF assms(1) this blocks] have hp: "holds_prefix (ob_data b) b'" .
  then show ?thesis
    by (auto simp: holds_prefix_def ob_rewind_def ob_data_def ob_good_def ob_wf_def split: option.splits)
qed

theorem ob_rewind_restores_witness:
  "\<exists>b'. append_all (ob_append_bytes (\<lambda>n. Some (replicate n 0)))
      (ob_checkpoint ((ob_unlimitsize zero_buffer)\<lparr>sizeLimit := 2\<rparr>)) [[7], [1, 2, 3 :: u8]] = Some b'
    \<and> ob_overrun b' \<and> ob_data (ob_rewind b') = []"
proof -
  let ?m = "\<lambda>n. Some (replicate n (0 :: u8))"
  let ?b = "(ob_unlimitsize zero_buffer)\<lparr>sizeLimit := 2\<rparr>"
  have m: "malloc_ok ?m" by (simp add: malloc_ok_def)
  have g: "ob_good ?b" by (simp add: ob_good_def ob_wf_def zero_buffer_def ob_unlimitsize_def SIZE_MAX_def)
  have d: "ob_data ?b = []" by (simp add: ob_data_def zero_buffer_def ob_unlimitsize_def)
  obtain b' where b': "append_all (ob_append_bytes ?m) (ob_checkpoint ?b) [[7], [1, 2, 3]] = Some b'"
      "ob_overrun b'"
    by (simp add: ob_append_bytes_def ob_append_block_def ob_makespace_def ob_checkpoint_def ob_poke_def
        zero_buffer_def ob_unlimitsize_def emalloc_def ob_new_size_def round_up_def Let_def SIZE_MAX_def
        size_add_def ob_overrun_def)
  then show ?thesis using ob_rewind_restores [OF m g b'(1)] d by auto
qed

text \<open>
  C3: an append that does not fit (beyond the limit, beyond a static array, or without memory) stores
  nothing, is reported by \<open>ob_overrun\<close>, and leaves a buffer on which a further append fails an
  assertion.
\<close>

theorem ob_append_overrun:
  assumes "ob_good b" and "malloc_ok malloc" and "vs \<noteq> []" and "position b + length vs \<le> 4294901760"
    and "position b + length vs > sizeLimit b
      \<or> (position b + length vs > allocSize b \<and>
          ((bytes b \<noteq> None \<and> \<not> allocated b) \<or> malloc (ob_new_size (position b + length vs)) = None))"
  shows "\<exists>b'. ob_append_bytes malloc b vs = Some b' \<and> bytes b' = bytes b \<and> ob_overrun b'
     \<and> (\<forall>ws. ob_append_bytes malloc b' ws = None)"
proof -
  let ?b = "b\<lparr>position := position b + length vs\<rparr>"
  have "ob_append_bytes malloc b vs = Some ?b"
    using ob_append_block_overrun [OF assms(1,2,4,5)] assms(3) by (simp add: ob_append_bytes_def)
  moreover have "ob_overrun ?b"
    using ob_append_block_overrun_flag [OF assms(1,4)] assms(5) by blast
  moreover have "ob_append_block malloc ?b ws = None" for ws
    by (rule ob_append_after_overrun) (use assms(5) in auto)
  then have "ob_append_bytes malloc ?b ws = None" for ws
    by (simp add: ob_append_bytes_def)
  ultimately show ?thesis by (intro exI [of _ ?b]) simp
qed

theorem ob_append_overrun_witness:
  "\<exists>b'. ob_append_bytes (\<lambda>n. None) (ob_unlimitsize (zero_buffer\<lparr>bytes := Some [0], allocSize := 1\<rparr>))
        [1, 2] = Some b'
     \<and> bytes b' = Some [0 :: u8] \<and> ob_overrun b' \<and> (\<forall>ws. ob_append_bytes (\<lambda>n. None) b' ws = None)"
  using ob_append_overrun [of "ob_unlimitsize (zero_buffer\<lparr>bytes := Some [0], allocSize := 1\<rparr>)"
      "\<lambda>n. None" "[1, 2]"]
  by (simp add: ob_good_def ob_wf_def zero_buffer_def ob_unlimitsize_def SIZE_MAX_def malloc_ok_def)

lemma pack_uint_length: "unat w < 128 ^ k \<Longrightarrow> 0 < k \<Longrightarrow> length (pack_uint w) \<le> k"
proof (induction w arbitrary: k rule: pack_uint.induct)
  case (1 w)
  obtain k' where k: "k = Suc k'" using 1(3) by (cases k) auto
  show ?case
  proof (cases "drop_bit 7 w = 0")
    case True
    then show ?thesis using k by (simp add: pack_uint.simps [of w])
  next
    case False
    have lt: "unat (drop_bit 7 w) < 128 ^ k'"
      using 1(2) unfolding k unat_drop_bit_7 by (simp add: less_mult_imp_div_less mult.commute)
    have "unat (drop_bit 7 w) \<noteq> 0" using False by (metis unat_eq_zero)
    with lt have "0 < k'" by (cases k') auto
    from 1(1) [OF False lt this] show ?thesis using False k by (simp add: pack_uint.simps [of w])
  qed
qed

lemma pack_uint_length_ui32: "length (pack_uint (ucast (v :: u32))) \<le> 5"
proof (rule pack_uint_length)
  have "unat v < 2 ^ LENGTH(32)" by (rule unsigned_less)
  then show "unat (ucast v :: u64) < 128 ^ 5" unfolding unat_ucast_u64 by simp
qed simp

text \<open>
  C4: a 32 bit number written in the packed form to an empty buffer with five bytes of space is read
  back unchanged after a flip, whatever the number.
\<close>

theorem ob_packed_ui32_roundtrip:
  assumes "malloc_total malloc" and "ob_good b" and "ob_data b = []" and "ob_space b 5"
  shows "\<exists>b' r r'. ob_append_packed_ui32 malloc b v = Some b' \<and> ob_flip b' = Some r
     \<and> ob_get_packed_ui32 r = Some (v, r') \<and> ob_rest r' = []"
proof -
  let ?vss = "map (\<lambda>x. [x]) (pack_uint (ucast v))"
  have len: "sum_list (map length ?vss) = length (pack_uint (ucast v))"
    by (simp add: comp_def sum_list_triv)
  have "ob_space b (sum_list (map length ?vss) + 0)"
    using assms(4) pack_uint_length_ui32 [of v] unfolding len by (auto simp: ob_space_def)
  from ob.append_all_ok [OF assms(1,2) this] obtain b' where b':
    "ob_append_packed_ui32 malloc b v = Some b'" "ob_good b'" "ob_data b' = pack_uint (ucast v)" "ob_space b' 0"
    using assms(3) by (auto simp: ob_append_packed_ui32_blocks)
  obtain r where r: "ob_flip b' = Some r" "ob_good r" "ob_rest r = pack_uint (ucast v)"
    using ob.flip_ok [OF b'(2,4)] b'(3) by auto
  from ob_get_packed_ui32_loop_ok [of "ucast v" 0 v r "[]"] r show ?thesis
    using b'(1) by (auto simp: ob_get_packed_ui32_def)
qed

theorem ob_packed_ui32_roundtrip_witness:
  "\<exists>b' r r'. ob_append_packed_ui32 (\<lambda>n. Some (replicate n 0)) (ob_unlimitsize zero_buffer) 300 = Some b'
     \<and> ob_flip b' = Some r \<and> ob_get_packed_ui32 r = Some (300, r') \<and> ob_rest r' = []"
  by (rule ob_packed_ui32_roundtrip)
    (simp_all add: malloc_total_def ob_good_def ob_data_def ob_space_def zero_buffer_def
      ob_unlimitsize_def SIZE_MAX_def ob_wf_def)

text \<open>
  C5: the decoder of the variable-length integers used in MeshMS records gives back every number below
  \<open>2 ^ 31\<close> that the encoder wrote, together with the number of bytes it occupied, whatever follows it.
\<close>

theorem unpack_uint_pack_uint:
  assumes "v < 2 ^ 31"
  shows "unpack_uint (pack_uint v @ ys) = Some (Some (measure_packed_uint v), v)"
  using unpack_pack_uint [OF assms] by (simp add: length_pack_uint)

theorem unpack_uint_pack_uint_witness:
  "(300 :: u64) < 2 ^ 31 \<and> unpack_uint (pack_uint 300 @ [9]) = Some (Some (measure_packed_uint 300), 300)"
  using unpack_uint_pack_uint [of 300 "[9]"] by simp


section \<open>Where the code does not do what it means to\<close>

text \<open>The 64 bit reader shifts the fourth byte by 36 places, where the writer took it from 32.\<close>

lemma ob_get_ui64_misreads:
  "be64_of [byte_of 56 v, byte_of 48 v, byte_of 40 v, byte_of 32 v,
     byte_of 24 v, byte_of 16 v, byte_of 8 v, byte_of 0 v] = 0x1000000000"
  if "v = (0x100000000 :: u64)"
  using that by (simp add: be64_of_def byte_of_def wide_def)

text \<open>A number with bit 31 set is sign extended by the decoder.\<close>

lemma unpack_uint_sign_extends:
  "unpack_uint (pack_uint 0x80000000) = Some (Some 5, 0xFFFFFFFF80000000)"
  by (simp add: pack_uint.simps unpack_uint_def packed_byte_def shl_int_def)

text \<open>The search for a terminating zero reads one byte past the end of the array.\<close>

lemma ob_get_str_ptr_overread:
  "ob_get_str_ptr (ob_unlimitsize (zero_buffer\<lparr>bytes := Some [65], allocSize := 1\<rparr>)) = None"
  by (simp add: ob_get_str_ptr_def ob_str_loop.simps test_offset_def ob_unlimitsize_def
      zero_buffer_def ob_byte_def SIZE_MAX_def)

text \<open>
  Duplicating a buffer whose position is not zero fails the assertion of \<open>ob_makespace\<close>: the position
  is copied before any memory is allocated.
\<close>

lemma ob_dup_asserts:
  assumes "ob_good b" and "0 < position b" and "malloc sizeof_overlay_buffer \<noteq> None"
  shows "ob_dup malloc b = None"
proof -
  obtain xs where xs: "bytes b = Some xs" "length xs = allocSize b" "position b \<le> allocSize b"
      "position b \<le> sizeLimit b"
    using assms(1,2) by (auto simp: ob_good_def ob_wf_def split: option.splits)
  have "ob_append_bytes malloc (zero_buffer\<lparr>sizeLimit := sizeLimit b, position := position b,
      checkpointLength := checkpointLength b\<rparr>) vs = None" for vs
    using assms(2) ob_append_after_overrun
    by (cases vs) (auto simp: ob_append_bytes_def zero_buffer_def)
  then show ?thesis using assms xs
    by (auto simp: ob_dup_def emalloc_zero_def emalloc_def Let_def)
qed

end
