(* ===== verification/Subscriber_Tree.thy ===== *)
theory Subscriber_Tree
  imports Prelude
begin

text \<open>
  The subscriber table of \<^verbatim>\<open>overlay_address.c\<close>: a radix tree over the 4 bit digits of the subscriber
  id, in which every subscriber sits at the shortest prefix that told it from the others when it was
  inserted.  A tree node of the source is an array of 16 slots, each empty, a pointer to a subscriber
  or a pointer to another node; here it is a function from 4 bit words to slots.  Subscribers are
  objects shared with the rest of the daemon, so the slots hold addresses into a list of subscriber
  records in allocation order.
\<close>

section \<open>Data\<close>

definition SID_SIZE :: nat where
  "SID_SIZE = 32"

definition SAS_SIZE :: nat where
  "SAS_SIZE = 32"

text \<open>Pointers to the structures of other modules are addresses, with \<^const>\<open>None\<close> for NULL.\<close>

record subscriber =
  sid :: "u8 list"
  abbreviate_len :: nat
  send_full :: bool
  max_packet_version :: int
  link_state :: "nat option"
  sync_state :: "nat option"
  reachable :: nat
  next_hop :: "nat option"
  destination :: "nat option"
  last_stun_request :: int
  last_probe_response :: int
  last_explained :: int
  sas_public :: "u8 list"
  sas_last_request :: int
  sas_valid :: bool
  identity :: "nat option"

datatype slot = No_Subscriber | Subscriber nat | Tree_Node "4 word \<Rightarrow> slot"

type_synonym tree_node = "4 word \<Rightarrow> slot"

definition empty_node :: tree_node where
  "empty_node = (\<lambda>_. No_Subscriber)"

text \<open>The object \<^verbatim>\<open>emalloc_zero\<close> gives, with the two fields that are then set.\<close>

definition new_subscriber :: "u8 list \<Rightarrow> nat \<Rightarrow> subscriber" where
  "new_subscriber sidp pos = \<lparr>sid = take SID_SIZE sidp, abbreviate_len = pos, send_full = False,
     max_packet_version = 0, link_state = None, sync_state = None, reachable = 0, next_hop = None,
     destination = None, last_stun_request = 0, last_probe_response = 0, last_explained = 0,
     sas_public = replicate SAS_SIZE 0, sas_last_request = 0, sas_valid = False, identity = None\<rparr>"

text \<open>The high digit of a byte comes first.\<close>

definition get_nibble :: "u8 list \<Rightarrow> nat \<Rightarrow> 4 word" where
  "get_nibble sidp pos =
     (let byte = sidp ! (pos div 2)
      in ucast (if even pos then drop_bit 4 byte else byte))"

section \<open>Finding and inserting\<close>

text \<open>
  One round of the loop of \<open>_find_subscriber\<close> at a tree node, with the node and the table after it.
  \<open>mem pos\<close> says whether the allocation made at that position succeeds.
\<close>

function find_node :: "(nat \<Rightarrow> bool) \<Rightarrow> u8 list \<Rightarrow> nat \<Rightarrow> bool \<Rightarrow> tree_node \<Rightarrow> nat \<Rightarrow> subscriber list
    \<Rightarrow> nat option \<times> tree_node \<times> subscriber list" where
  "find_node mem sidp len create node pos subs =
     (let nibble = get_nibble sidp pos; pos' = pos + 1 in
      case node nibble of
        Tree_Node child \<Rightarrow>
          if pos' < len * 2
          then (let (ret, child', subs') = find_node mem sidp len create child pos' subs
                in (ret, node(nibble := Tree_Node child'), subs'))
          else (None, node, subs)
      | No_Subscriber \<Rightarrow>
          if create \<and> mem pos'
          then (Some (length subs), node(nibble := Subscriber (length subs)), subs @ [new_subscriber sidp pos'])
          else (None, node, subs)
      | Subscriber a \<Rightarrow>
          if take len (sid (subs ! a)) = take len sidp then (Some a, node, subs)
          else if \<not> create then (None, node, subs)
          else if \<not> mem pos' then (None, node, subs)
          else (let child = empty_node(get_nibble (sid (subs ! a)) pos' := Subscriber a);
                    subs' = subs[a := (subs ! a)\<lparr>abbreviate_len := pos' + 1\<rparr>] in
                if pos' < len * 2
                then (let (ret, child', subs'') = find_node mem sidp len create child pos' subs'
                      in (ret, node(nibble := Tree_Node child'), subs''))
                else (Some a, node(nibble := Tree_Node child), subs')))"
  by pat_completeness auto
termination
  by (relation "measure (\<lambda>(mem, sidp, len, create, node, pos, subs). len * 2 - pos)") auto

declare find_node.simps [simp del]

definition find_subscriber :: "(nat \<Rightarrow> bool) \<Rightarrow> tree_node \<Rightarrow> subscriber list \<Rightarrow> u8 list \<Rightarrow> nat \<Rightarrow> bool
    \<Rightarrow> nat option \<times> tree_node \<times> subscriber list" where
  "find_subscriber mem root subs sidp len create =
     find_node mem sidp len (create \<and> len = SID_SIZE) root 0 subs"

section \<open>The invariant of the tree\<close>

definition nibbles :: "u8 list \<Rightarrow> nat \<Rightarrow> 4 word list" where
  "nibbles s n = map (get_nibble s) [0..<n]"

text \<open>
  \<open>wf_slot subs p t\<close>: the slot \<open>t\<close> below the digits \<open>p\<close> holds subscribers whose ids begin with those
  digits, each abbreviated to exactly the digits on its way.
\<close>

primrec wf_slot :: "subscriber list \<Rightarrow> 4 word list \<Rightarrow> slot \<Rightarrow> bool" where
  "wf_slot subs p No_Subscriber \<longleftrightarrow> True"
| "wf_slot subs p (Subscriber a) \<longleftrightarrow> a < length subs \<and> length p \<le> 2 * SID_SIZE
     \<and> nibbles (sid (subs ! a)) (length p) = p \<and> abbreviate_len (subs ! a) = length p
     \<and> length (sid (subs ! a)) = SID_SIZE"
| "wf_slot subs p (Tree_Node f) \<longleftrightarrow> length p < 2 * SID_SIZE \<and> (\<forall>i. wf_slot subs (p @ [i]) (f i))"

primrec addrs :: "slot \<Rightarrow> nat set" where
  "addrs No_Subscriber = {}"
| "addrs (Subscriber a) = {a}"
| "addrs (Tree_Node f) = (\<Union>i. addrs (f i))"

text \<open>Every subscriber of the table is in the tree, and the tree is well formed.\<close>

definition table_ok :: "tree_node \<Rightarrow> subscriber list \<Rightarrow> bool" where
  "table_ok root subs \<longleftrightarrow> wf_slot subs [] (Tree_Node root) \<and> addrs (Tree_Node root) = {..<length subs}"

lemma length_nibbles [simp]: "length (nibbles s n) = n"
  by (simp add: nibbles_def)

lemma nibbles_Suc: "nibbles s (Suc n) = nibbles s n @ [get_nibble s n]"
  by (simp add: nibbles_def)

lemma nth_nibbles [simp]: "i < n \<Longrightarrow> nibbles s n ! i = get_nibble s i"
  by (simp add: nibbles_def)

lemma take_nibbles: "m \<le> n \<Longrightarrow> take m (nibbles s n) = nibbles s m"
  by (simp add: nibbles_def take_map min_def)

lemma get_nibble_take: "pos < 2 * n \<Longrightarrow> get_nibble (take n s) pos = get_nibble s pos"
  by (simp add: get_nibble_def)

lemma nibbles_take: "k \<le> 2 * n \<Longrightarrow> nibbles (take n s) k = nibbles s k"
  by (simp add: nibbles_def get_nibble_take)

text \<open>Two ids that agree on all digits of their first \<open>n\<close> bytes agree on those bytes.\<close>

lemma bytes_of_nibbles:
  assumes "get_nibble s (2 * i) = get_nibble t (2 * i)"
    and "get_nibble s (2 * i + 1) = get_nibble t (2 * i + 1)"
  shows "s ! i = t ! i"
proof (rule bit_eqI)
  fix n assume "possible_bit TYPE(u8) n"
  then have n: "n < 8" by simp
  have hi: "(ucast (drop_bit 4 (s ! i)) :: 4 word) = ucast (drop_bit 4 (t ! i))"
    and lo: "(ucast (s ! i) :: 4 word) = ucast (t ! i)"
    using assms by (simp_all add: get_nibble_def)
  show "bit (s ! i) n = bit (t ! i) n"
  proof (cases "n < 4")
    case True
    have "bit (ucast (s ! i) :: 4 word) n = bit (ucast (t ! i) :: 4 word) n" using lo by simp
    then show ?thesis using True by (simp add: bit_unsigned_iff)
  next
    case False
    have "bit (ucast (drop_bit 4 (s ! i)) :: 4 word) (n - 4) = bit (ucast (drop_bit 4 (t ! i)) :: 4 word) (n - 4)"
      using hi by simp
    moreover have "n - 4 < 4" using n False by simp
    ultimately show ?thesis using False by (simp add: bit_unsigned_iff bit_drop_bit_eq)
  qed
qed

lemma sid_of_nibbles:
  assumes "nibbles s (2 * n) = nibbles t (2 * n)" and "length s = n" and "length t = n"
  shows "s = t"
proof (rule nth_equalityI)
  fix i assume i: "i < length s"
  have "get_nibble s k = get_nibble t k" if "k < 2 * n" for k
    using assms(1) that by (metis nth_nibbles)
  then show "s ! i = t ! i" using i assms(2) by (intro bytes_of_nibbles) auto
qed (use assms in simp)

section \<open>Facts about well-formed slots\<close>

lemma addrs_prefix:
  "wf_slot subs p t \<Longrightarrow> a \<in> addrs t \<Longrightarrow>
   a < length subs \<and> length p \<le> abbreviate_len (subs ! a) \<and> abbreviate_len (subs ! a) \<le> 2 * SID_SIZE
   \<and> nibbles (sid (subs ! a)) (length p) = p \<and> length (sid (subs ! a)) = SID_SIZE"
proof (induction t arbitrary: p)
  case (Tree_Node f)
  then obtain i where i: "a \<in> addrs (f i)" by auto
  have "wf_slot subs (p @ [i]) (f i)" using Tree_Node.prems(1) by simp
  from Tree_Node.IH [OF _ this i] have "a < length subs" "length p + 1 \<le> abbreviate_len (subs ! a)"
      "abbreviate_len (subs ! a) \<le> 2 * SID_SIZE" "nibbles (sid (subs ! a)) (Suc (length p)) = p @ [i]"
      "length (sid (subs ! a)) = SID_SIZE"
    by auto
  then show ?case by (simp add: nibbles_Suc)
qed simp_all

lemma addrs_nibble:
  assumes "wf_slot subs p (Tree_Node f)" and "a \<in> addrs (f i)"
  shows "get_nibble (sid (subs ! a)) (length p) = i"
proof -
  have "wf_slot subs (p @ [i]) (f i)" using assms(1) by simp
  from addrs_prefix [OF this assms(2)] show ?thesis by (simp add: nibbles_Suc)
qed

lemma wf_slot_cong:
  "wf_slot subs p t \<Longrightarrow> (\<And>a. a \<in> addrs t \<Longrightarrow> a < length subs' \<and> subs' ! a = subs ! a) \<Longrightarrow> wf_slot subs' p t"
proof (induction t arbitrary: p)
  case (Tree_Node f)
  have "wf_slot subs' (p @ [i]) (f i)" for i
    by (rule Tree_Node.IH) (use Tree_Node.prems in auto)
  then show ?case using Tree_Node.prems(1) by simp
qed auto

lemma wf_node_update:
  assumes "wf_slot subs p (Tree_Node f)" and "wf_slot subs' (p @ [i]) t"
    and "\<And>a. a < length subs \<Longrightarrow> a \<notin> addrs (f i) \<Longrightarrow> subs' ! a = subs ! a"
    and "length subs \<le> length subs'"
  shows "wf_slot subs' p (Tree_Node (f(i := t)))"
proof -
  have "wf_slot subs' (p @ [j]) (f j)" if "j \<noteq> i" for j
  proof (rule wf_slot_cong)
    show "wf_slot subs (p @ [j]) (f j)" using assms(1) by simp
    fix a assume a: "a \<in> addrs (f j)"
    have "a \<notin> addrs (f i)"
      using addrs_nibble [OF assms(1) a] addrs_nibble [OF assms(1), of a i] that by auto
    moreover have "a < length subs"
      using addrs_prefix [of subs "p @ [j]" "f j" a] a assms(1) by simp
    ultimately show "a < length subs' \<and> subs' ! a = subs ! a" using assms(3,4) by auto
  qed
  then show ?thesis using assms(1,2) by simp
qed

lemma addrs_node_update: "addrs (Tree_Node (f(i := t))) = (\<Union>j\<in>- {i}. addrs (f j)) \<union> addrs t"
  by (auto split: if_splits)

lemma addrs_node_split: "addrs (Tree_Node f) = (\<Union>j\<in>- {i}. addrs (f j)) \<union> addrs (f i)"
  by auto

text \<open>What one search does to the table: it only adds a subscriber, and moves abbreviations.\<close>

definition forget_abbrev :: "subscriber \<Rightarrow> subscriber" where
  "forget_abbrev s = s\<lparr>abbreviate_len := 0\<rparr>"

definition extends :: "nat set \<Rightarrow> subscriber list \<Rightarrow> subscriber list \<Rightarrow> bool" where
  "extends A subs subs' \<longleftrightarrow> length subs \<le> length subs' \<and> length subs' \<le> length subs + 1
     \<and> (\<forall>a < length subs. forget_abbrev (subs' ! a) = forget_abbrev (subs ! a))
     \<and> (\<forall>a < length subs. a \<notin> A \<longrightarrow> subs' ! a = subs ! a)"

lemma forget_abbrev_upd [simp]: "forget_abbrev (s\<lparr>abbreviate_len := l\<rparr>) = forget_abbrev s"
  by (simp add: forget_abbrev_def)

lemma forget_abbrev_sid: "forget_abbrev s = forget_abbrev t \<Longrightarrow> sid s = sid t"
  by (metis forget_abbrev_def subscriber.select_convs(1) subscriber.surjective subscriber.update_convs(2))

lemma extends_refl [simp]: "extends A subs subs"
  by (simp add: extends_def)

lemma extends_mono: "extends A subs subs' \<Longrightarrow> A \<subseteq> B \<Longrightarrow> extends B subs subs'"
  by (auto simp: extends_def)

lemma extends_sid: "extends A subs subs' \<Longrightarrow> a < length subs \<Longrightarrow> sid (subs' ! a) = sid (subs ! a)"
  unfolding extends_def by (rule forget_abbrev_sid) blast

lemma extends_append [simp]: "extends A subs (subs @ [x])"
  by (simp add: extends_def nth_append)

lemma extends_abbrev:
  assumes "extends A (subs[a := (subs ! a)\<lparr>abbreviate_len := l\<rparr>]) subs'" and "a \<in> A"
    and "a < length subs"
  shows "extends A subs subs'"
  using assms unfolding extends_def by (auto simp: nth_list_update split: if_splits)

section \<open>What a search does\<close>

definition search_ok :: "(nat \<Rightarrow> bool) \<Rightarrow> bool \<Rightarrow> u8 list \<Rightarrow> nat \<Rightarrow> tree_node \<Rightarrow> subscriber list \<Rightarrow> 4 word list
    \<Rightarrow> nat option \<times> tree_node \<times> subscriber list \<Rightarrow> bool" where
  "search_ok mem create sidp len node subs p r \<longleftrightarrow> (case r of (ret, node', subs') \<Rightarrow>
     wf_slot subs' p (Tree_Node node')
     \<and> extends (addrs (Tree_Node node)) subs subs'
     \<and> addrs (Tree_Node node') = addrs (Tree_Node node) \<union> {length subs..<length subs'}
     \<and> (\<forall>a. ret = Some a \<longrightarrow> a \<in> addrs (Tree_Node node') \<and> take len (sid (subs' ! a)) = take len sidp)
     \<and> (ret = None \<longrightarrow> length subs' = length subs \<and> (create \<longrightarrow> (\<exists>k. \<not> mem k))))"

lemma search_ok_below:
  assumes wf: "wf_slot subs p (Tree_Node node)"
    and below: "search_ok mem create sidp len child subs1 (p @ [i]) (ret, child', subs')"
    and A: "addrs (Tree_Node child) = addrs (node i)" and e: "\<And>B. addrs (node i) \<subseteq> B \<Longrightarrow> extends B subs1 subs' \<Longrightarrow> extends B subs subs'"
    and l: "length subs1 = length subs"
  shows "search_ok mem create sidp len node subs p (ret, node(i := Tree_Node child'), subs')"
proof -
  from below have b: "wf_slot subs' (p @ [i]) (Tree_Node child')" "extends (addrs (node i)) subs1 subs'"
      "addrs (Tree_Node child') = addrs (node i) \<union> {length subs..<length subs'}"
      "\<And>a. ret = Some a \<Longrightarrow> a \<in> addrs (Tree_Node child') \<and> take len (sid (subs' ! a)) = take len sidp"
      "ret = None \<Longrightarrow> length subs' = length subs \<and> (create \<longrightarrow> (\<exists>k. \<not> mem k))"
    unfolding search_ok_def prod.case A l by auto
  have ext: "extends (addrs (node i)) subs subs'" using e b(2) by blast
  have wf': "wf_slot subs' p (Tree_Node (node(i := Tree_Node child')))"
    by (rule wf_node_update [OF wf b(1)]) (use ext in \<open>auto simp: extends_def\<close>)
  have eq: "addrs (Tree_Node (node(i := Tree_Node child'))) = addrs (Tree_Node node) \<union> {length subs..<length subs'}"
    unfolding addrs_node_update b(3) addrs_node_split [of node i] by blast
  have "addrs (node i) \<subseteq> addrs (Tree_Node node)" by auto
  then have "extends (addrs (Tree_Node node)) subs subs'" using ext extends_mono by blast
  moreover have "\<And>a. ret = Some a \<Longrightarrow> a \<in> addrs (Tree_Node (node(i := Tree_Node child')))"
    using b(4) unfolding addrs_node_update by blast
  ultimately show ?thesis
    unfolding search_ok_def prod.case using wf' eq b(4,5) by blast
qed

lemma search_ok_unchanged:
  "wf_slot subs p (Tree_Node node) \<Longrightarrow> (create \<Longrightarrow> \<exists>k. \<not> mem k) \<Longrightarrow> search_ok mem create sidp len node subs p (None, node, subs)"
  by (simp add: search_ok_def)

lemma find_node_ok:
  assumes "wf_slot subs p (Tree_Node node)" and "nibbles sidp pos = p" and "pos < len * 2"
    and "len \<le> SID_SIZE" and "create \<Longrightarrow> len = SID_SIZE \<and> length sidp = SID_SIZE"
  shows "search_ok mem create sidp len node subs p (find_node mem sidp len create node pos subs)"
  using assms
proof (induction mem sidp len create node pos subs arbitrary: p rule: find_node.induct)
  case (1 mem sidp len create node pos subs)
  define i where "i = get_nibble sidp pos"
  have lp: "length p = pos" using 1(4) by auto
  have pi: "nibbles sidp (pos + 1) = p @ [i]" using 1(4) by (simp add: nibbles_Suc i_def)
  have wfi: "wf_slot subs (p @ [i]) (node i)" using 1(3) by simp
  note eq = find_node.simps [of mem sidp len create node pos subs, unfolded Let_def, folded i_def]
  show ?case
  proof (cases "node i")
    case No_Subscriber
    show ?thesis
    proof (cases "create \<and> mem (pos + 1)")
      case False
      then have "search_ok mem create sidp len node subs p (None, node, subs)"
        by (intro search_ok_unchanged [OF 1(3)]) auto
      then show ?thesis unfolding eq using False No_Subscriber by auto
    next
      case True
      then have sz: "length sidp = SID_SIZE" "len = SID_SIZE" using 1(7) by auto
      have "wf_slot (subs @ [new_subscriber sidp (pos + 1)]) (p @ [i]) (Subscriber (length subs))"
        using pi lp 1(5) sz by (simp add: new_subscriber_def)
      then have "wf_slot (subs @ [new_subscriber sidp (pos + 1)]) p (Tree_Node (node(i := Subscriber (length subs))))"
        by (intro wf_node_update [OF 1(3)]) (auto simp: nth_append)
      moreover have "addrs (Tree_Node (node(i := Subscriber (length subs)))) = insert (length subs) (addrs (Tree_Node node))"
        unfolding addrs_node_update addrs_node_split [of node i] using No_Subscriber by simp
      moreover have "find_node mem sidp len create node pos subs =
          (Some (length subs), node(i := Subscriber (length subs)), subs @ [new_subscriber sidp (pos + 1)])"
        unfolding eq using True No_Subscriber by simp
      ultimately show ?thesis using sz
        by (simp add: search_ok_def new_subscriber_def del: addrs.simps(3) wf_slot.simps(3))
    qed
  next
    case (Tree_Node child)
    show ?thesis
    proof (cases "pos + 1 < len * 2")
      case False
      have "\<not> create" using wfi Tree_Node lp 1(7) False by auto
      then show ?thesis unfolding eq using False Tree_Node search_ok_unchanged [OF 1(3)] by auto
    next
      case True
      obtain ret child' subs' where f: "find_node mem sidp len create child (pos + 1) subs = (ret, child', subs')"
        by (metis prod_cases3)
      have "search_ok mem create sidp len child subs (p @ [i]) (ret, child', subs')"
        using 1(2) [OF refl refl Tree_Node [unfolded i_def] True _ pi True] wfi Tree_Node 1(6,7) f by auto
      from search_ok_below [OF 1(3) this] Tree_Node show ?thesis unfolding eq using True f by simp
    qed
  next
    case (Subscriber a)
    show ?thesis
    proof (cases "take len (sid (subs ! a)) = take len sidp \<or> \<not> create \<or> \<not> mem (pos + 1)")
      case True
      have "a \<in> addrs (Tree_Node node)" using Subscriber by (auto intro!: exI [of _ i])
      then show ?thesis unfolding eq using True Subscriber search_ok_unchanged [OF 1(3)] 1(3)
        by (auto simp: search_ok_def)
    next
      case False
      then have sz: "length sidp = SID_SIZE" "len = SID_SIZE" and c: create and m: "mem (pos + 1)"
        using 1(7) by auto
      have a: "a < length subs" "nibbles (sid (subs ! a)) (pos + 1) = p @ [i]" "length (sid (subs ! a)) = SID_SIZE"
        using wfi Subscriber lp by auto
      have ne: "sid (subs ! a) \<noteq> sidp" using False sz a(3) by auto
      have lt: "pos + 1 < len * 2"
      proof (rule ccontr)
        assume "\<not> pos + 1 < len * 2"
        then have "pos + 1 = 2 * SID_SIZE" using 1(5) sz by simp
        then show False using sid_of_nibbles [of "sid (subs ! a)" SID_SIZE sidp] a(2,3) pi sz ne by simp
      qed
      define subs1 where "subs1 = subs[a := (subs ! a)\<lparr>abbreviate_len := pos + 1 + 1\<rparr>]"
      define child where "child = empty_node(get_nibble (sid (subs ! a)) (pos + 1) := Subscriber a)"
      have wfc: "wf_slot subs1 (p @ [i]) (Tree_Node child)"
        using a lt lp sz unfolding child_def subs1_def
        by (auto simp: empty_node_def nibbles_Suc [of _ "Suc pos"])
      have ac: "addrs (Tree_Node child) = addrs (node i)"
        unfolding child_def addrs_node_update using Subscriber by (simp add: empty_node_def)
      obtain ret child' subs' where f: "find_node mem sidp len create child (pos + 1) subs1 = (ret, child', subs')"
        by (metis prod_cases3)
      have "search_ok mem create sidp len child subs1 (p @ [i]) (ret, child', subs')"
        unfolding f [symmetric] unfolding child_def subs1_def
        by (rule 1(1) [OF refl refl Subscriber [unfolded i_def] _ _ _ refl refl lt
              wfc [unfolded child_def subs1_def] pi lt]) (use False 1(6,7) in auto)
      then have "search_ok mem create sidp len node subs p (ret, node(i := Tree_Node child'), subs')"
        by (rule search_ok_below [OF 1(3) _ ac])
          (use Subscriber a in \<open>auto simp: subs1_def intro: extends_abbrev\<close>)
      then show ?thesis unfolding eq using False Subscriber lt f by (simp add: child_def subs1_def)
    qed
  qed
qed

lemma find_node_lookup:
  "find_node mem sidp len False node pos subs = (ret, node', subs') \<Longrightarrow> node' = node \<and> subs' = subs"
proof (induction mem sidp len False node pos subs arbitrary: ret node' subs' rule: find_node.induct)
  case (1 mem sidp len node pos subs)
  define i where "i = get_nibble sidp pos"
  note eq = find_node.simps [of mem sidp len False node pos subs, unfolded Let_def, folded i_def]
  show ?case
  proof (cases "node i")
    case (Tree_Node child)
    then show ?thesis
      using 1(2) [OF refl refl Tree_Node [unfolded i_def]] 1(3) unfolding eq
      by (cases "find_node mem sidp len False child (pos + 1) subs") (auto split: if_splits)
  qed (use 1(3) in \<open>auto simp: eq split: if_splits\<close>)
qed

text \<open>Where the digits of a subscriber lead.\<close>

lemma addrs_digit:
  assumes "wf_slot subs p (Tree_Node node)" and "b \<in> addrs (Tree_Node node)"
    and "take len (sid (subs ! b)) = take len sidp" and "length p < len * 2"
  shows "b \<in> addrs (node (get_nibble sidp (length p)))"
proof -
  obtain i where i: "b \<in> addrs (node i)" using assms(2) by auto
  have "get_nibble sidp (length p) = get_nibble (sid (subs ! b)) (length p)"
    using get_nibble_take [of "length p" len] assms(3,4) by (metis mult.commute)
  then show ?thesis using i addrs_nibble [OF assms(1) i] by simp
qed

lemma find_node_complete:
  assumes "wf_slot subs p (Tree_Node node)" and "b \<in> addrs (Tree_Node node)" and "length p = pos"
    and "take len (sid (subs ! b)) = take len sidp" and "pos < len * 2" and "abbreviate_len (subs ! b) \<le> len * 2"
  shows "find_node mem sidp len create node pos subs = (Some b, node, subs)"
  using assms
proof (induction mem sidp len create node pos subs arbitrary: p rule: find_node.induct)
  case (1 mem sidp len create node pos subs)
  define i where "i = get_nibble sidp pos"
  have wfi: "wf_slot subs (p @ [i]) (node i)" using 1(3) by simp
  have b: "b \<in> addrs (node i)" using addrs_digit [OF 1(3,4,6)] 1(5,7) by (simp add: i_def)
  note eq = find_node.simps [of mem sidp len create node pos subs, unfolded Let_def, folded i_def]
  show ?case
  proof (cases "node i")
    case (Tree_Node child)
    have wfc: "wf_slot subs (p @ [i]) (Tree_Node child)" using wfi Tree_Node by simp
    obtain j where "b \<in> addrs (child j)" using b Tree_Node by auto
    moreover have "wf_slot subs (p @ [i, j]) (child j)" using wfc by simp
    ultimately have "length p + 2 \<le> abbreviate_len (subs ! b)"
      using addrs_prefix [of subs "p @ [i, j]" "child j" b] by simp
    then have lt: "pos + 1 < len * 2" using 1(5,8) by simp
    have bc: "b \<in> addrs (Tree_Node child)" using b Tree_Node by simp
    have "find_node mem sidp len create child (pos + 1) subs = (Some b, child, subs)"
      by (rule 1(2) [OF refl refl Tree_Node [unfolded i_def] lt wfc bc _ 1(6) lt 1(8)]) (use 1(5) in simp)
    then show ?thesis unfolding eq using Tree_Node lt by simp (metis fun_upd_triv)
  qed (use b 1(6) in \<open>auto simp: eq\<close>)
qed

lemma find_node_unique:
  assumes "wf_slot subs p (Tree_Node node)" and "b \<in> addrs (Tree_Node node)" and "length p = pos"
    and "take len (sid (subs ! b)) = take len sidp" and "pos < len * 2"
    and "find_node mem sidp len create node pos subs = (Some a, node', subs')"
  shows "a = b"
  using assms
proof (induction mem sidp len create node pos subs arbitrary: p node' rule: find_node.induct)
  case (1 mem sidp len create node pos subs)
  define i where "i = get_nibble sidp pos"
  have b: "b \<in> addrs (node i)" using addrs_digit [OF 1(3,4,6)] 1(5,7) by (simp add: i_def)
  note eq = find_node.simps [of mem sidp len create node pos subs, unfolded Let_def, folded i_def]
  show ?case
  proof (cases "node i")
    case (Tree_Node child)
    have wfc: "wf_slot subs (p @ [i]) (Tree_Node child)" using 1(3) Tree_Node by (metis wf_slot.simps(3))
    have bc: "b \<in> addrs (Tree_Node child)" using b Tree_Node by simp
    obtain ret child' s where f: "find_node mem sidp len create child (pos + 1) subs = (ret, child', s)"
      by (metis prod_cases3)
    have lt: "pos + 1 < len * 2" and ret: "ret = Some a" "s = subs'"
      using 1(8) f Tree_Node unfolding eq by (auto split: if_splits)
    show ?thesis
      by (rule 1(2) [OF refl refl Tree_Node [unfolded i_def] lt wfc bc _ 1(6) lt f [unfolded ret]]) (use 1(5) in simp)
  qed (use b 1(6,8) in \<open>auto simp: eq\<close>)
qed

section \<open>Searching the whole table\<close>

lemma table_ok_empty: "table_ok empty_node []"
  by (simp add: table_ok_def empty_node_def SID_SIZE_def)

lemma find_subscriber_ok:
  assumes "table_ok root subs" and "find_subscriber mem root subs sidp len create = (ret, root', subs')"
    and "0 < len" and "len \<le> SID_SIZE" and "length sidp = len"
  shows "table_ok root' subs'" and "extends {..<length subs} subs subs'"
    and "ret = Some a \<Longrightarrow> a < length subs' \<and> take len (sid (subs' ! a)) = sidp"
    and "ret = None \<Longrightarrow> length subs' = length subs \<and> (create \<and> len = SID_SIZE \<longrightarrow> (\<exists>k. \<not> mem k))"
proof -
  have "search_ok mem (create \<and> len = SID_SIZE) sidp len root subs [] (ret, root', subs')"
    unfolding assms(2) [symmetric] find_subscriber_def
    by (rule find_node_ok) (use assms in \<open>auto simp: table_ok_def nibbles_def\<close>)
  note ok = this [unfolded search_ok_def prod.case]
  have root: "addrs (Tree_Node root) = {..<length subs}" using assms(1) by (simp add: table_ok_def)
  from ok have ext: "extends {..<length subs} subs subs'" and
    addrs': "addrs (Tree_Node root') = {..<length subs} \<union> {length subs..<length subs'}" unfolding root by auto
  have "length subs \<le> length subs'" using ext by (simp add: extends_def)
  then have all: "addrs (Tree_Node root') = {..<length subs'}" unfolding addrs' by auto
  show "extends {..<length subs} subs subs'" by (rule ext)
  show "table_ok root' subs'" using ok all by (simp add: table_ok_def del: wf_slot.simps(3) addrs.simps(3))
  show "ret = Some a \<Longrightarrow> a < length subs' \<and> take len (sid (subs' ! a)) = sidp"
    using ok assms(5) unfolding all by auto
  show "ret = None \<Longrightarrow> length subs' = length subs \<and> (create \<and> len = SID_SIZE \<longrightarrow> (\<exists>k. \<not> mem k))"
    using ok by auto
qed

lemma table_ok_sub:
  assumes "table_ok root subs" and "a < length subs"
  shows "length (sid (subs ! a)) = SID_SIZE \<and> 1 \<le> abbreviate_len (subs ! a) \<and> abbreviate_len (subs ! a) \<le> 2 * SID_SIZE"
proof -
  have wf: "wf_slot subs [] (Tree_Node root)" and "a \<in> addrs (Tree_Node root)"
    using assms by (auto simp: table_ok_def)
  then obtain i where i: "a \<in> addrs (root i)" by auto
  have "wf_slot subs [i] (root i)" using wf by (metis append_Nil wf_slot.simps(3))
  from addrs_prefix [OF this i] show ?thesis by simp
qed

lemma find_subscriber_known:
  assumes "table_ok root subs" and "a < length subs" and "take len (sid (subs ! a)) = take len sidp"
    and "0 < len" and "abbreviate_len (subs ! a) \<le> len * 2"
  shows "find_subscriber mem root subs sidp len create = (Some a, root, subs)"
  unfolding find_subscriber_def
  by (rule find_node_complete [of _ "[]"]) (use assms in \<open>auto simp: table_ok_def\<close>)

lemma table_ok_distinct:
  assumes "table_ok root subs"
  shows "distinct (map sid subs)"
proof (unfold distinct_conv_nth, intro allI impI)
  fix a b assume ab: "a < length (map sid subs)" "b < length (map sid subs)" "a \<noteq> b"
  have "find_subscriber (\<lambda>_. True) root subs (sid (subs ! b)) SID_SIZE True = (Some c, root, subs)"
    if "c < length subs" "sid (subs ! c) = sid (subs ! b)" for c
    by (rule find_subscriber_known [OF assms])
      (use that table_ok_sub [OF assms] in \<open>auto simp: SID_SIZE_def\<close>)
  from this [of a] this [of b] ab show "map sid subs ! a \<noteq> map sid subs ! b" by auto
qed

text \<open>
  C6: asking \<^const>\<open>find_subscriber\<close> for a full id with \<^verbatim>\<open>create\<close> set, when memory is available, always
  gives a subscriber with that id.  The table stays well formed and free of duplicates; a known id
  gives the subscriber it already had and changes nothing; an unknown id adds exactly one subscriber;
  and no other subscriber loses or changes anything but its abbreviation.
\<close>

theorem find_subscriber_create:
  assumes "table_ok root subs" and "\<And>k. mem k" and "length sidp = SID_SIZE"
  shows "\<exists>a root' subs'. find_subscriber mem root subs sidp SID_SIZE True = (Some a, root', subs')
      \<and> table_ok root' subs' \<and> distinct (map sid subs') \<and> a < length subs' \<and> sid (subs' ! a) = sidp
      \<and> (sidp \<in> sid ` set subs \<longrightarrow> root' = root \<and> subs' = subs)
      \<and> (sidp \<notin> sid ` set subs \<longrightarrow> a = length subs \<and> length subs' = length subs + 1)
      \<and> (\<forall>b < length subs. forget_abbrev (subs' ! b) = forget_abbrev (subs ! b))"
proof -
  obtain ret root' subs' where f: "find_subscriber mem root subs sidp SID_SIZE True = (ret, root', subs')"
    by (metis prod_cases3)
  note ok = find_subscriber_ok [OF assms(1) f _ order_refl assms(3)]
  have pos: "0 < SID_SIZE" by (simp add: SID_SIZE_def)
  obtain a where ret: "ret = Some a" using ok(4) [OF pos] assms(2) by (cases ret) auto
  have a: "a < length subs'" "sid (subs' ! a) = sidp"
    using ok(3) [OF pos ret] table_ok_sub [OF ok(1) [OF pos], of a] by auto
  have old: "root' = root \<and> subs' = subs" if known: "sidp \<in> sid ` set subs"
  proof -
    obtain b where b: "b < length subs" "sid (subs ! b) = sidp" using known by (metis imageE in_set_conv_nth)
    then have "find_subscriber mem root subs sidp SID_SIZE True = (Some b, root, subs)"
      using table_ok_sub [OF assms(1) b(1)] by (intro find_subscriber_known [OF assms(1)]) (auto simp: SID_SIZE_def)
    then show ?thesis using f by simp
  qed
  have ext: "extends {..<length subs} subs subs'" by (rule ok(2) [OF pos])
  have new: "a = length subs \<and> length subs' = length subs + 1" if "sidp \<notin> sid ` set subs"
  proof -
    have "\<not> a < length subs" using that extends_sid [OF ext, of a] a(2) by (metis image_eqI nth_mem)
    then show ?thesis using a(1) ext by (simp add: extends_def)
  qed
  show ?thesis
    using f ret a old new ok(1) [OF pos] table_ok_distinct [OF ok(1) [OF pos]] ext by (auto simp: extends_def)
qed

text \<open>
  C7: an abbreviation that is at least as long as the one a subscriber is given in the table (counted
  in digits, two to the byte) resolves to that subscriber, and the search changes nothing; so an
  abbreviation of that length is never ambiguous.
\<close>

theorem find_subscriber_abbreviation:
  assumes "table_ok root subs" and "a < length subs"
    and "abbreviate_len (subs ! a) \<le> len * 2" and "len \<le> SID_SIZE"
  shows "find_subscriber mem root subs (take len (sid (subs ! a))) len create = (Some a, root, subs)
    \<and> (\<forall>b < length subs. take len (sid (subs ! b)) = take len (sid (subs ! a)) \<longrightarrow> b = a)"
proof -
  have len: "0 < len" using table_ok_sub [OF assms(1,2)] assms(3) by auto
  have f: "find_subscriber mem root subs (take len (sid (subs ! a))) len create = (Some a, root, subs)"
    by (rule find_subscriber_known [OF assms(1,2) _ len assms(3)]) simp
  have wf: "wf_slot subs [] (Tree_Node root)" and all: "addrs (Tree_Node root) = {..<length subs}"
    using assms(1) by (auto simp: table_ok_def)
  have "a = b" if "b < length subs" "take len (sid (subs ! b)) = take len (sid (subs ! a))" for b
    by (rule find_node_unique [OF wf _ _ _ _ f [unfolded find_subscriber_def]]) (use that len all in simp_all)
  then have "\<forall>b < length subs. take len (sid (subs ! b)) = take len (sid (subs ! a)) \<longrightarrow> b = a" by blast
  then show ?thesis using f by blast
qed

text \<open>A table with two subscribers that share their first digit.\<close>

definition sample_sid :: "u8 \<Rightarrow> u8 list" where
  "sample_sid b = replicate SID_SIZE b"

definition sample_root :: tree_node where
  "sample_root = empty_node(10 := Tree_Node (empty_node(11 := Subscriber 0, 12 := Subscriber 1)))"

definition sample_subs :: "subscriber list" where
  "sample_subs = [new_subscriber (sample_sid 0xAB) 2, new_subscriber (sample_sid 0xAC) 2]"

lemma sample_sid_length [simp]: "length (sample_sid b) = SID_SIZE"
  by (simp add: sample_sid_def)

lemma sample_nibbles:
  "nibbles (sample_sid 0xAB) 2 = [10, 11]" "nibbles (sample_sid 0xAC) 2 = [10, 12]"
proof -
  have "nibbles (sample_sid b) 2 = [ucast (drop_bit 4 b), ucast b]" for b
  proof -
    have "[0..<2] = [0, 1::nat]" by (simp add: upt_rec)
    then show ?thesis by (simp add: nibbles_def get_nibble_def sample_sid_def SID_SIZE_def)
  qed
  then show "nibbles (sample_sid 0xAB) 2 = [10, 11]" "nibbles (sample_sid 0xAC) 2 = [10, 12]"
    by simp_all
qed

lemma addrs_single [simp]: "i \<in> S \<Longrightarrow> (\<Union>j\<in>S. addrs ((empty_node(i := t)) j)) = addrs t"
  "(\<Union>j\<in>S. addrs (empty_node j)) = {}"
  by (auto simp: empty_node_def split: if_splits)

lemma sample_table_ok: "table_ok sample_root sample_subs"
proof -
  have "wf_slot sample_subs [10] (Tree_Node (empty_node(11 := Subscriber 0, 12 := Subscriber 1)))"
    using sample_nibbles [unfolded numeral_2_eq_2]
    by (auto simp: sample_subs_def new_subscriber_def empty_node_def SID_SIZE_def)
  then have "wf_slot sample_subs [] (Tree_Node sample_root)"
    by (auto simp: sample_root_def empty_node_def SID_SIZE_def simp del: fun_upd_apply) (auto simp: SID_SIZE_def)
  moreover have "addrs (Tree_Node sample_root) = {0, 1}"
    unfolding sample_root_def addrs_node_update
    by (auto simp: addrs_node_update simp del: fun_upd_apply addrs.simps(3))
  moreover have "{0, 1} = {..<length sample_subs}" by (auto simp: sample_subs_def)
  ultimately show ?thesis by (simp add: table_ok_def)
qed

theorem find_subscriber_create_witness:
  "\<exists>a root' subs'. find_subscriber (\<lambda>_. True) sample_root sample_subs (sample_sid 0xAD) SID_SIZE True = (Some a, root', subs')
     \<and> table_ok root' subs' \<and> distinct (map sid subs') \<and> a = 2 \<and> sid (subs' ! a) = sample_sid 0xAD"
proof -
  have "sample_sid 0xAD \<notin> sid ` set sample_subs"
    by (simp add: sample_subs_def new_subscriber_def sample_sid_def SID_SIZE_def)
  then show ?thesis
    using find_subscriber_create [OF sample_table_ok, of "\<lambda>_. True" "sample_sid 0xAD"]
    by (auto simp: sample_subs_def numeral_2_eq_2)
qed

theorem find_subscriber_abbreviation_witness:
  "find_subscriber (\<lambda>_. False) sample_root sample_subs [0xAC] 1 True = (Some 1, sample_root, sample_subs)"
  using find_subscriber_abbreviation [OF sample_table_ok, of 1 1 "\<lambda>_. False" True]
  by (simp add: sample_subs_def new_subscriber_def sample_sid_def SID_SIZE_def)

section \<open>Walking and freeing the tree\<close>

text \<open>
  The bounds of a walk: an id and how many of its bytes count.  The callback gets a subscriber and the
  state it works on, and says whether to stop.
\<close>

type_synonym bound = "(u8 list \<times> nat) option"

type_synonym 's visitor = "nat \<Rightarrow> 's \<Rightarrow> (bool \<times> 's) run"

fun walk_slots :: "(nat \<Rightarrow> bound \<Rightarrow> 's \<Rightarrow> (bool \<times> 's) run) \<Rightarrow> nat list \<Rightarrow> bound \<Rightarrow> 's \<Rightarrow> (bool \<times> 's) run" where
  "walk_slots visit [] start s = Some (False, s)"
| "walk_slots visit (i # is) start s = do {
     (stop, s') \<leftarrow> visit i start s;
     if stop then Some (True, s') else walk_slots visit is None s'}"

definition walk_range :: "nat \<Rightarrow> bound \<Rightarrow> bound \<Rightarrow> nat list" where
  "walk_range pos start end =
     [(case start of Some (sidp, len) \<Rightarrow> if pos < len * 2 then unat (get_nibble sidp pos) else 0 | None \<Rightarrow> 0)
      ..< (case end of Some (sidp, len) \<Rightarrow> if pos < len * 2 then unat (get_nibble sidp pos) + 1 else 16 | None \<Rightarrow> 16)]"

primrec walk_tree :: "'s visitor \<Rightarrow> slot \<Rightarrow> nat \<Rightarrow> bound \<Rightarrow> bound \<Rightarrow> 's \<Rightarrow> (bool \<times> 's) run" where
  "walk_tree callback No_Subscriber pos start end s = Some (False, s)"
| "walk_tree callback (Subscriber a) pos start end s = callback a s"
| "walk_tree callback (Tree_Node node) pos start end s =
     walk_slots (\<lambda>i start. (\<lambda>j. walk_tree callback (node j)) (of_nat i) (pos + 1) start end)
       (walk_range pos start end) start s"

definition enum_subscribers :: "tree_node \<Rightarrow> u8 list \<Rightarrow> 's visitor \<Rightarrow> 's \<Rightarrow> (bool \<times> 's) run" where
  "enum_subscribers root start callback s =
     walk_tree callback (Tree_Node root) 0 (Some (start, SID_SIZE)) None s"

definition free_subscriber :: "subscriber list \<Rightarrow> nat \<Rightarrow> unit run" where
  "free_subscriber subs a =
     c_assert (link_state (subs ! a) = None \<and> destination (subs ! a) = None
       \<and> sync_state (subs ! a) = None \<and> identity (subs ! a) = None)"

text \<open>Which addresses are released, in order, when the tree is freed.\<close>

fun free_slots :: "(nat \<Rightarrow> nat list run) \<Rightarrow> nat list \<Rightarrow> nat list run" where
  "free_slots free [] = Some []"
| "free_slots free (i # is) = do { f \<leftarrow> free i; fs \<leftarrow> free_slots free is; Some (f @ fs) }"

primrec free_children :: "subscriber list \<Rightarrow> slot \<Rightarrow> nat list run" where
  "free_children subs No_Subscriber = Some []"
| "free_children subs (Subscriber a) = do { free_subscriber subs a; Some [a] }"
| "free_children subs (Tree_Node node) = free_slots (\<lambda>i. (\<lambda>j. free_children subs (node j)) (of_nat i)) [0..<16]"

definition free_subscribers :: "bool \<Rightarrow> subscriber list \<Rightarrow> tree_node \<Rightarrow> (nat list \<times> tree_node) run" where
  "free_subscribers serverMode subs root = do {
     c_assert (\<not> serverMode);
     freed \<leftarrow> free_children subs (Tree_Node root);
     Some (freed, empty_node) }"

text \<open>The order in which a walk meets subscribers, and a walk over a plain list.\<close>

fun slots_order :: "(nat \<Rightarrow> bound \<Rightarrow> nat list) \<Rightarrow> nat list \<Rightarrow> bound \<Rightarrow> nat list" where
  "slots_order order [] start = []"
| "slots_order order (i # is) start = order i start @ slots_order order is None"

primrec walk_order :: "slot \<Rightarrow> nat \<Rightarrow> bound \<Rightarrow> bound \<Rightarrow> nat list" where
  "walk_order No_Subscriber pos start end = []"
| "walk_order (Subscriber a) pos start end = [a]"
| "walk_order (Tree_Node node) pos start end =
     slots_order (\<lambda>i start. (\<lambda>j. walk_order (node j)) (of_nat i) (pos + 1) start end) (walk_range pos start end) start"

fun visit_list :: "'s visitor \<Rightarrow> nat list \<Rightarrow> 's \<Rightarrow> (bool \<times> 's) run" where
  "visit_list callback [] s = Some (False, s)"
| "visit_list callback (a # as) s = do {
     (stop, s') \<leftarrow> callback a s;
     if stop then Some (True, s') else visit_list callback as s'}"

lemma visit_list_append:
  "visit_list callback (as @ bs) s = do {
     (stop, s') \<leftarrow> visit_list callback as s;
     if stop then Some (True, s') else visit_list callback bs s'}"
  by (induction as arbitrary: s) (auto split: bind_splits)

lemma walk_slots_order:
  assumes "\<And>i start s. visit i start s = visit_list callback (order i start) s"
  shows "walk_slots visit is start s = visit_list callback (slots_order order is start) s"
  by (induction "is" arbitrary: start s) (auto simp: assms visit_list_append split: bind_splits)

lemma walk_tree_order:
  "walk_tree callback t pos start end s = visit_list callback (walk_order t pos start end) s"
proof (induction t arbitrary: pos start s)
  case (Tree_Node node)
  show ?case unfolding walk_tree.simps walk_order.simps
    by (rule walk_slots_order) (simp add: Tree_Node)
qed (auto split: bind_splits)

lemma set_slots_order:
  "set (slots_order order is start) = (case is of [] \<Rightarrow> {} | i # is' \<Rightarrow> set (order i start) \<union> (\<Union>j\<in>set is'. set (order j None)))"
proof -
  have "set (slots_order order is None) = (\<Union>j\<in>set is. set (order j None))"
    for "is" by (induction "is") auto
  then show ?thesis by (cases "is") auto
qed

lemma nibble_less: "unat (n :: 4 word) < 16"
  using unsigned_less [of n] by simp

lemma slot_number: "i < 16 \<Longrightarrow> unat (of_nat i :: 4 word) = i"
  by (simp add: unat_of_nat)

lemma slot_numbers: "(\<Union>i\<in>{0..<16}. f (of_nat i :: 4 word)) = (\<Union>j. f j)"
proof -
  have "j \<in> of_nat ` {0..<16}" for j :: "4 word"
    by (rule image_eqI [of _ _ "unat j"]) (simp_all add: nibble_less)
  then have "of_nat ` {0..<16} = (UNIV :: 4 word set)" by blast
  then show ?thesis by (metis image_image)
qed

lemma distinct_slots_order:
  assumes "\<And>i start. i \<in> set is \<Longrightarrow> distinct (order i start)" and "distinct is"
    and "\<And>i j start start'. \<lbrakk>i \<in> set is; j \<in> set is; i \<noteq> j\<rbrakk> \<Longrightarrow> set (order i start) \<inter> set (order j start') = {}"
  shows "distinct (slots_order order is start)"
  using assms
proof (induction "is" arbitrary: start)
  case (Cons i js)
  have "distinct (slots_order order js None)" by (rule Cons.IH) (use Cons.prems in auto)
  moreover have "set (slots_order order js None) \<subseteq> (\<Union>j\<in>set js. set (order j None))"
    by (auto simp: set_slots_order split: list.splits)
  moreover have "set (order i start) \<inter> (\<Union>j\<in>set js. set (order j None)) = {}"
    using Cons.prems(2,3) by fastforce
  ultimately show ?case using Cons.prems(1) by auto
qed simp

lemma walk_range_bound: "i \<in> set (walk_range pos start end) \<Longrightarrow> i < 16"
  by (auto simp: walk_range_def less_Suc_eq_le intro: le_less_trans [OF _ nibble_less] split: option.splits if_splits)

lemma walk_range_distinct: "distinct (walk_range pos start end)"
  by (simp add: walk_range_def)

lemma walk_order_addrs: "set (walk_order t pos start end) \<subseteq> addrs t"
  by (induction t arbitrary: pos start) (fastforce simp: set_slots_order split: list.splits)+

lemma walk_order_distinct: "wf_slot subs p t \<Longrightarrow> distinct (walk_order t pos start end)"
proof (induction t arbitrary: p pos start)
  case (Tree_Node node)
  have wfi: "wf_slot subs (p @ [i]) (node i)" for i using Tree_Node.prems by simp
  show ?case unfolding walk_order.simps
  proof (rule distinct_slots_order)
    fix i j st st' assume ij: "i \<in> set (walk_range pos start end)" "j \<in> set (walk_range pos start end)" "i \<noteq> j"
    show "set (walk_order (node (of_nat i)) (pos + 1) st end) \<inter> set (walk_order (node (of_nat j)) (pos + 1) st' end) = {}"
    proof -
      have "i < 16" "j < 16" using ij walk_range_bound by blast+
      then have "of_nat i \<noteq> (of_nat j :: 4 word)" using ij(3)
        by (metis slot_number)
      then have "addrs (node (of_nat i)) \<inter> addrs (node (of_nat j)) = {}"
        using addrs_nibble [OF Tree_Node.prems] by (metis disjoint_iff)
      then show ?thesis using walk_order_addrs by blast
    qed
  qed (use Tree_Node.IH [OF _ wfi] walk_range_distinct in auto)
qed simp_all

text \<open>Beyond the digits of the bound the walk covers a subtree; on the way there it follows one branch.\<close>

lemma walk_order_all:
  assumes "\<And>sidp len. start = Some (sidp, len) \<Longrightarrow> len * 2 \<le> pos" and "\<And>sidp len. end = Some (sidp, len) \<Longrightarrow> len * 2 \<le> pos"
  shows "set (walk_order t pos start end) = addrs t"
  using assms
proof (induction t arbitrary: pos start)
  case (Tree_Node node)
  have "walk_range pos start end = [0..<16]"
    using Tree_Node.prems by (auto simp: walk_range_def split: option.splits)
  then have r: "walk_range pos start end = 0 # [1..<16]" using upt_conv_Cons [of 0 16] by simp
  have s: "set (walk_order (node j) (pos + 1) st end) = addrs (node j)" if "st = None \<or> st = start" for j st
    by (rule Tree_Node.IH) (use that Tree_Node.prems le_SucI in auto)
  have "set (walk_order (Tree_Node node) pos start end) = (\<Union>i\<in>{0..<16}. addrs (node (of_nat i)))"
  proof -
    have i: "{0..<16} = insert 0 (set [1..<16::nat])" by auto
    show ?thesis unfolding walk_order.simps r set_slots_order list.case i UN_insert using s by simp
  qed
  then show ?case using slot_numbers [of "\<lambda>j. addrs (node j)"] by simp
qed simp_all

lemma walk_order_prefix:
  assumes "wf_slot subs p t" and "length p = pos"
  shows "set (walk_order t pos (Some (sidp, len)) (Some (sidp, len))) =
    {a \<in> addrs t. \<forall>k. pos \<le> k \<and> k < min (abbreviate_len (subs ! a)) (len * 2) \<longrightarrow> get_nibble (sid (subs ! a)) k = get_nibble sidp k}"
  using assms
proof (induction t arbitrary: p pos)
  case (Tree_Node node)
  let ?b = "Some (sidp, len)"
  show ?case
  proof (cases "pos < len * 2")
    case False
    then show ?thesis using walk_order_all [of ?b pos ?b "Tree_Node node"] by (auto simp del: walk_order.simps)
  next
    case True
    define i where "i = get_nibble sidp pos"
    have "walk_range pos ?b ?b = [unat i]" using True by (simp add: walk_range_def i_def)
    then have w: "walk_order (Tree_Node node) pos ?b ?b = walk_order (node i) (pos + 1) ?b ?b" by simp
    have wfi: "wf_slot subs (p @ [j]) (node j)" for j using Tree_Node.prems(1) by simp
    note ih = Tree_Node.IH [OF _ wfi, of i "pos + 1"]
    have in_i: "a \<in> addrs (node i) \<longleftrightarrow> a \<in> addrs (Tree_Node node) \<and> get_nibble (sid (subs ! a)) pos = i" for a
      using addrs_nibble [OF Tree_Node.prems(1)] Tree_Node.prems(2) by auto
    have long: "pos < abbreviate_len (subs ! a)" if "a \<in> addrs (node i)" for a
      using addrs_prefix [OF wfi that] Tree_Node.prems(2) by simp
    have long': "pos < abbreviate_len (subs ! a)" if "a \<in> addrs (Tree_Node node)" for a
      using addrs_prefix [OF wfi] that Tree_Node.prems(2) by fastforce
    have "pos \<le> k \<longleftrightarrow> k = pos \<or> pos + 1 \<le> k" for k by auto
    then have "set (walk_order (node i) (pos + 1) ?b ?b) = {a \<in> addrs (Tree_Node node).
        \<forall>k. pos \<le> k \<and> k < min (abbreviate_len (subs ! a)) (len * 2) \<longrightarrow> get_nibble (sid (subs ! a)) k = get_nibble sidp k}"
      using ih in_i long long' True Tree_Node.prems(2) unfolding i_def by (auto simp del: addrs.simps(3))
    then show ?thesis using w by simp
  qed
qed auto

lemma free_slots_order:
  assumes "\<And>i. free i = (if \<forall>a \<in> set (order i None). ok a then Some (order i None) else None)"
  shows "free_slots free is = (if \<forall>a \<in> set (slots_order order is None). ok a then Some (slots_order order is None) else None)"
  by (induction "is") (auto simp: assms)

lemma free_children_order:
  "free_children subs t = (if \<forall>a \<in> set (walk_order t pos None None). free_subscriber subs a = Some ()
     then Some (walk_order t pos None None) else None)"
proof (induction t arbitrary: pos)
  case (Tree_Node node)
  have r: "walk_range pos None None = [0..<16]" by (simp add: walk_range_def)
  show ?case unfolding free_children.simps walk_order.simps r
    by (rule free_slots_order) (simp add: Tree_Node [OF rangeI, of _ "pos + 1"])
qed (auto simp: free_subscriber_def c_assert_def)





end
