(* ===== verification/Fdqueue.thy ===== *)
theory Fdqueue
  imports Prelude
begin

text \<open>
  The scheduler of \<^verbatim>\<open>fdqueue.c\<close>: alarms that run at a time, and file descriptors that are watched.
  Alarms are objects owned by the rest of the daemon, so they live in a store indexed by addresses.
  The three intrusive linked lists (\<^verbatim>\<open>wake_list\<close>, \<^verbatim>\<open>run_soon\<close>, \<^verbatim>\<open>run_now\<close>) are lists of addresses.
  Every reading of the clock is an argument, and so are the function an alarm calls and the answers of
  the system calls \<^verbatim>\<open>poll\<close>, \<^verbatim>\<open>set_nonblock\<close> and \<^verbatim>\<open>set_block\<close>.
\<close>

section \<open>Data\<close>

definition TIME_MS_NEVER_WILL :: int where
  "TIME_MS_NEVER_WILL = 9223372036854775807"

definition MAX_WATCHED_FDS :: nat where
  "MAX_WATCHED_FDS = 128"

record pollfd =
  fd :: int
  events :: nat
  revents :: nat

record sched_ent =
  scheduled :: bool
  has_function :: bool
  poll :: pollfd
  run_after :: int
  wake_at :: int
  run_before :: int
  alarm :: int
  deadline :: int
  poll_index :: int

definition sched_ent_unused :: sched_ent where
  "sched_ent_unused = \<lparr>scheduled = False, has_function = False, poll = \<lparr>fd = - 1, events = 0, revents = 0\<rparr>,
     run_after = TIME_MS_NEVER_WILL, wake_at = 0, run_before = 0, alarm = TIME_MS_NEVER_WILL,
     deadline = TIME_MS_NEVER_WILL, poll_index = - 1\<rparr>"

record fdqueue =
  alarms :: "nat \<Rightarrow> sched_ent"
  wake_list :: "nat list"
  run_soon :: "nat list"
  run_now :: "nat list"
  fds :: "pollfd list"
  fdcount :: nat
  fd_callbacks :: "nat option list"

definition set_alarm :: "nat \<Rightarrow> sched_ent \<Rightarrow> fdqueue \<Rightarrow> fdqueue" where
  "set_alarm a e q = q\<lparr>alarms := (alarms q)(a := e)\<rparr>"

section \<open>The three lists\<close>

fun insert_by :: "(nat \<Rightarrow> int) \<Rightarrow> nat \<Rightarrow> nat list \<Rightarrow> nat list" where
  "insert_by key a [] = [a]"
| "insert_by key a (x # xs) = (if key x > key a then a # x # xs else x # insert_by key a xs)"

definition insert_run_now :: "nat \<Rightarrow> fdqueue \<Rightarrow> fdqueue" where
  "insert_run_now a q = q\<lparr>run_now := insert_by (\<lambda>x. run_before (alarms q x)) a (run_now q)\<rparr>"

definition insert_run_soon :: "nat \<Rightarrow> fdqueue \<Rightarrow> fdqueue" where
  "insert_run_soon a q = q\<lparr>run_soon := insert_by (\<lambda>x. run_after (alarms q x)) a (run_soon q)\<rparr>"

fun remove_run_list :: "nat \<Rightarrow> nat list \<Rightarrow> nat list" where
  "remove_run_list a [] = []"
| "remove_run_list a (x # xs) = (if x = a then xs else x # remove_run_list a xs)"

definition insert_wake_list :: "nat \<Rightarrow> fdqueue \<Rightarrow> fdqueue" where
  "insert_wake_list a q =
     (if wake_at (alarms q a) = TIME_MS_NEVER_WILL then q
      else q\<lparr>wake_list := insert_by (\<lambda>x. wake_at (alarms q x)) a (wake_list q)\<rparr>)"

definition remove_wake_list :: "nat \<Rightarrow> fdqueue \<Rightarrow> fdqueue" where
  "remove_wake_list a q = q\<lparr>wake_list := remove_run_list a (wake_list q)\<rparr>"

function move_run_list :: "int \<Rightarrow> fdqueue \<Rightarrow> fdqueue" where
  "move_run_list now q =
     (case run_soon q of
        [] \<Rightarrow> q
      | a # rest \<Rightarrow>
          if run_after (alarms q a) \<le> now
          then move_run_list now (insert_run_now a (remove_wake_list a (q\<lparr>run_soon := rest\<rparr>)))
          else q)"
  by pat_completeness auto
termination
  by (relation "measure (\<lambda>(now, q). length (run_soon q))") (auto simp: insert_run_now_def remove_wake_list_def)

declare move_run_list.simps [simp del]

section \<open>Scheduling\<close>

definition schedule :: "nat \<Rightarrow> fdqueue \<Rightarrow> fdqueue run" where
  "schedule a q = (
     let e = (alarms q a)\<lparr>wake_at := alarm (alarms q a), run_before := deadline (alarms q a)\<rparr>;
         e = (if run_after e = TIME_MS_NEVER_WILL \<or> run_after e = 0 then e\<lparr>run_after := wake_at e\<rparr> else e);
         q = set_alarm a e q
     in do {
       c_assert (wake_at e \<ge> run_after e);
       c_assert (run_before e \<ge> run_after e);
       c_assert (\<not> scheduled e);
       c_assert (has_function e);
       Some (if run_after e \<noteq> TIME_MS_NEVER_WILL
             then (let q = insert_run_soon a (insert_wake_list a q)
                   in set_alarm a (e\<lparr>scheduled := True\<rparr>) q)
             else q) })"

definition unschedule :: "nat \<Rightarrow> fdqueue \<Rightarrow> fdqueue" where
  "unschedule a q =
     (if \<not> scheduled (alarms q a) then q
      else (let q = q\<lparr>run_now := remove_run_list a (run_now q)\<rparr>;
                q = q\<lparr>run_soon := remove_run_list a (run_soon q)\<rparr>;
                q = remove_wake_list a q
            in set_alarm a ((alarms q a)\<lparr>scheduled := False, run_after := TIME_MS_NEVER_WILL\<rparr>) q))"

definition RESCHEDULE :: "nat \<Rightarrow> int \<Rightarrow> int \<Rightarrow> int \<Rightarrow> fdqueue \<Rightarrow> fdqueue run" where
  "RESCHEDULE a after_t wait_t before_t q =
     (let q = unschedule a q;
          q = set_alarm a ((alarms q a)\<lparr>run_after := after_t, alarm := wait_t, deadline := before_t\<rparr>) q
      in schedule a q)"

section \<open>Watching file descriptors\<close>

definition watch :: "nat \<Rightarrow> fdqueue \<Rightarrow> (int \<times> fdqueue) run" where
  "watch a q = (let e = alarms q a in do {
     c_assert (has_function e);
     c_assert (events (poll e) \<noteq> 0);
     c_assert (poll_index e < int (length (fd_callbacks q)));
     if poll_index e \<ge> 0 \<and> fd_callbacks q ! nat (poll_index e) = Some a
     then Some (0, q\<lparr>fds := (fds q)[nat (poll_index e) := poll e]\<rparr>)
     else if fdcount q \<ge> MAX_WATCHED_FDS then Some (- 1, q)
     else (let p = (poll e)\<lparr>revents := 0\<rparr>;
               i = fdcount q;
               q = q\<lparr>fd_callbacks := (fd_callbacks q)[i := Some a]\<rparr>;
               q = set_alarm a (e\<lparr>poll := p, poll_index := int i\<rparr>) q
           in Some (0, q\<lparr>fdcount := i + 1, fds := (fds q)[i := p]\<rparr>)) })"

definition is_watching :: "nat \<Rightarrow> fdqueue \<Rightarrow> bool run" where
  "is_watching a q = (let e = alarms q a in
     if poll_index e < 0 then Some False
     else do {
       c_assert (nat (poll_index e) < length (fds q));
       Some (fd (fds q ! nat (poll_index e)) = fd (poll e)) })"

text \<open>The last watched descriptor takes the place of the one that is removed.\<close>

definition squash_fds :: "nat \<Rightarrow> nat \<Rightarrow> fdqueue \<Rightarrow> fdqueue run" where
  "squash_fds i n q =
     (if i = n then Some q
      else do {
        b \<leftarrow> fd_callbacks q ! n;
        let q = q\<lparr>fds := (fds q)[i := fds q ! n], fd_callbacks := (fd_callbacks q)[i := Some b]\<rparr>;
        Some (set_alarm b ((alarms q b)\<lparr>poll_index := int i\<rparr>) q) })"

definition unwatch :: "nat \<Rightarrow> fdqueue \<Rightarrow> (int \<times> fdqueue) run" where
  "unwatch a q = do {
     w \<leftarrow> is_watching a q;
     if \<not> w then Some (- 1, q)
     else do {
       c_assert (fdcount q \<noteq> 0);
       let n = fdcount q - 1;
       q \<leftarrow> squash_fds (nat (poll_index (alarms q a))) n (q\<lparr>fdcount := n\<rparr>);
       let q = q\<lparr>fds := (fds q)[n := (fds q ! n)\<lparr>fd := - 1\<rparr>], fd_callbacks := (fd_callbacks q)[n := None]\<rparr>;
       Some (0, set_alarm a ((alarms q a)\<lparr>poll_index := - 1\<rparr>) q) } }"

section \<open>The event loop\<close>

text \<open>
  The world outside the scheduler, as \<open>fd_poll\<close> sees it: \<open>call\<close> is the function of an alarm, which may
  change the queue in any way the interface allows; \<open>do_poll\<close> is \<^verbatim>\<open>poll(2)\<close>, which gives the number of
  ready descriptors and fills in the events; \<open>enxio\<close> and \<open>bad\<close> are the outcomes of \<^verbatim>\<open>set_nonblock\<close> and
  \<^verbatim>\<open>set_block\<close>.
\<close>

record environment =
  call :: "nat \<Rightarrow> fdqueue \<Rightarrow> fdqueue run"
  do_poll :: "pollfd list \<Rightarrow> int \<Rightarrow> int \<times> pollfd list"
  enxio :: "int \<Rightarrow> bool"
  bad :: "int \<Rightarrow> bool"

definition POLLERR :: nat where
  "POLLERR = 8"

definition call_alarm :: "environment \<Rightarrow> nat \<Rightarrow> nat \<Rightarrow> fdqueue \<Rightarrow> fdqueue run" where
  "call_alarm env a ev q = call env a (set_alarm a ((alarms q a)\<lparr>poll := (poll (alarms q a))\<lparr>revents := ev\<rparr>\<rparr>) q)"

text \<open>Taking the head of \<open>run_now\<close> and calling it.\<close>

definition run_head :: "environment \<Rightarrow> nat \<Rightarrow> nat list \<Rightarrow> fdqueue \<Rightarrow> fdqueue run" where
  "run_head env a rest q =
     (let q = q\<lparr>run_now := rest\<rparr>;
          q = set_alarm a ((alarms q a)\<lparr>scheduled := False, run_after := TIME_MS_NEVER_WILL\<rparr>) q
      in call_alarm env a 0 q)"

text \<open>How long to wait: \<^const>\<open>None\<close> when there is nothing to wait for.\<close>

definition poll_timeout :: "int \<Rightarrow> fdqueue \<Rightarrow> int option" where
  "poll_timeout now q =
     (if run_now q \<noteq> [] then Some 0
      else case wake_list q of
             w # _ \<Rightarrow> Some (max 0 (wake_at (alarms q w) - now))
           | [] \<Rightarrow> if fdcount q = 0 then None else Some (- 1))"

definition poll_io :: "environment \<Rightarrow> int \<Rightarrow> fdqueue \<Rightarrow> int \<times> fdqueue" where
  "poll_io env ms q =
     (if fdcount q = 0 then (0, q)
      else (let (r, ready) = do_poll env (take (fdcount q) (fds q)) ms
            in (r, q\<lparr>fds := ready @ drop (fdcount q) (fds q)\<rparr>)))"

text \<open>The watched descriptors with events, from the last to the first.\<close>

fun process_fds :: "environment \<Rightarrow> nat \<Rightarrow> fdqueue \<Rightarrow> fdqueue run" where
  "process_fds env 0 q = Some q"
| "process_fds env (Suc i) q = (
     let p = fds q ! i in
     case fd_callbacks q ! i of
       Some a \<Rightarrow>
         if fd (poll (alarms q a)) = fd p \<and> revents p \<noteq> 0
         then do {
           let p = (if enxio env (fd p) then p\<lparr>revents := revents p OR POLLERR\<rparr> else p);
           q' \<leftarrow> call_alarm env a (revents p) (q\<lparr>fds := (fds q)[i := p]\<rparr>);
           c_assert (\<not> (i < fdcount q' \<and> fd (fds q' ! i) = fd p \<and> bad env (fd p)));
           process_fds env i q' }
         else process_fds env i q
     | None \<Rightarrow> process_fds env i q)"

text \<open>
  One round.  \<open>t1\<close> to \<open>t5\<close> are the readings of the clock in the order the source makes them; the result
  is \<^const>\<open>False\<close> when there is nothing left to do.
\<close>

definition fd_poll_wait :: "environment \<Rightarrow> int \<Rightarrow> int \<Rightarrow> int \<Rightarrow> int \<Rightarrow> fdqueue \<Rightarrow> (bool \<times> fdqueue) run" where
  "fd_poll_wait env ms t3 t4 t5 q =
     (let (r, q) = poll_io env ms q;
          q = move_run_list t3 q
      in case run_now q of
           a # rest \<Rightarrow>
             if ms \<noteq> 0 \<and> run_before (alarms q a) \<le> t4 then Some (True, q)
             else if r > 0 then map_option (\<lambda>q. (True, move_run_list t5 q)) (process_fds env (fdcount q) q)
             else map_option (Pair True) (run_head env a rest q)
         | [] \<Rightarrow>
             if r > 0 then map_option (\<lambda>q. (True, move_run_list t5 q)) (process_fds env (fdcount q) q)
             else Some (True, q))"

definition fd_poll :: "environment \<Rightarrow> int \<Rightarrow> int \<Rightarrow> int \<Rightarrow> int \<Rightarrow> int \<Rightarrow> fdqueue \<Rightarrow> (bool \<times> fdqueue) run" where
  "fd_poll env t1 t2 t3 t4 t5 q =
     (case run_now q of
        a # rest \<Rightarrow>
          if run_before (alarms q a) \<le> t1
          then map_option (Pair True) (run_head env a rest q)
          else fd_poll_wait env 0 t3 t4 t5 q
      | [] \<Rightarrow>
          (case poll_timeout t2 q of
             None \<Rightarrow> Some (False, q)
           | Some ms \<Rightarrow> fd_poll_wait env ms t3 t4 t5 q))"

section \<open>The invariant of the lists\<close>

definition queue_ok :: "fdqueue \<Rightarrow> bool" where
  "queue_ok q \<longleftrightarrow>
     sorted (map (\<lambda>a. run_after (alarms q a)) (run_soon q)) \<and>
     sorted (map (\<lambda>a. run_before (alarms q a)) (run_now q)) \<and>
     sorted (map (\<lambda>a. wake_at (alarms q a)) (wake_list q)) \<and>
     distinct (run_soon q @ run_now q) \<and> distinct (wake_list q) \<and>
     set (wake_list q) = {a \<in> set (run_soon q). wake_at (alarms q a) \<noteq> TIME_MS_NEVER_WILL} \<and>
     (\<forall>a. scheduled (alarms q a) \<longleftrightarrow> a \<in> set (run_soon q) \<union> set (run_now q)) \<and>
     (\<forall>a \<in> set (run_soon q) \<union> set (run_now q).
        run_after (alarms q a) \<le> wake_at (alarms q a) \<and> run_after (alarms q a) \<le> run_before (alarms q a))"

lemma set_insert_by [simp]: "set (insert_by key a xs) = insert a (set xs)"
  by (induction xs) auto

lemma distinct_insert_by [simp]: "a \<notin> set xs \<Longrightarrow> distinct (insert_by key a xs) = distinct xs"
  by (induction xs) auto

lemma sorted_insert_by [simp]: "sorted (map key xs) \<Longrightarrow> sorted (map key (insert_by key a xs))"
  by (induction xs) auto

lemma insert_by_cong: "\<forall>x \<in> insert a (set xs). key x = key' x \<Longrightarrow> insert_by key a xs = insert_by key' a xs"
  by (induction xs) auto

lemma remove_run_list_remove1: "remove_run_list a xs = remove1 a xs"
  by (induction xs) auto

lemma sorted_key_cong: "\<forall>x \<in> set xs. key x = key' x \<Longrightarrow> sorted (map key xs) = sorted (map key' xs)"
  by (metis map_eq_conv)

lemma sorted_remove_run_list [simp]: "sorted (map key xs) \<Longrightarrow> sorted (map key (remove_run_list a xs))"
  unfolding remove_run_list_remove1 by (rule sorted_map_remove1)

lemma set_remove_run_list [simp]: "distinct xs \<Longrightarrow> set (remove_run_list a xs) = set xs - {a}"
  unfolding remove_run_list_remove1 by simp

lemma distinct_remove_run_list [simp]: "distinct xs \<Longrightarrow> distinct (remove_run_list a xs)"
  unfolding remove_run_list_remove1 by simp

lemma set_alarm_simps [simp]:
  "alarms (set_alarm a e q) = (alarms q)(a := e)" "run_soon (set_alarm a e q) = run_soon q"
  "run_now (set_alarm a e q) = run_now q" "wake_list (set_alarm a e q) = wake_list q"
  "fds (set_alarm a e q) = fds q" "fdcount (set_alarm a e q) = fdcount q" "fd_callbacks (set_alarm a e q) = fd_callbacks q"
  by (simp_all add: set_alarm_def)

lemma map_upd_key [simp]: "a \<notin> set xs \<Longrightarrow> map (\<lambda>x. key (if x = a then e else f x)) xs = map (\<lambda>x. key (f x)) xs"
  by (induction xs) auto

text \<open>An alarm that is not scheduled may be changed freely, as long as it stays unscheduled.\<close>

lemma queue_ok_set_alarm:
  assumes "queue_ok q" and "\<not> scheduled (alarms q a)" and "\<not> scheduled e"
  shows "queue_ok (set_alarm a e q)"
proof -
  have out: "a \<notin> set (run_soon q)" "a \<notin> set (run_now q)" "a \<notin> set (wake_list q)"
    using assms(1,2) by (auto simp: queue_ok_def)
  then show ?thesis using assms unfolding queue_ok_def by auto
qed

lemma queue_ok_unscheduled:
  "queue_ok q \<Longrightarrow> \<not> scheduled (alarms q a) \<Longrightarrow> a \<notin> set (run_soon q) \<and> a \<notin> set (run_now q) \<and> a \<notin> set (wake_list q)"
  by (auto simp: queue_ok_def)

lemma mark_keys [simp]:
  "run_after ((f(a := (f a)\<lparr>scheduled := b\<rparr>)) x) = run_after (f x)"
  "run_before ((f(a := (f a)\<lparr>scheduled := b\<rparr>)) x) = run_before (f x)"
  "wake_at ((f(a := (f a)\<lparr>scheduled := b\<rparr>)) x) = wake_at (f x)"
  "scheduled ((f(a := (f a)\<lparr>scheduled := b\<rparr>)) x) = (if x = a then b else scheduled (f x))"
  by simp_all

lemma poll_keys [simp]:
  "run_after ((f(a := (f a)\<lparr>poll := p\<rparr>)) x) = run_after (f x)"
  "run_before ((f(a := (f a)\<lparr>poll := p\<rparr>)) x) = run_before (f x)"
  "wake_at ((f(a := (f a)\<lparr>poll := p\<rparr>)) x) = wake_at (f x)"
  "scheduled ((f(a := (f a)\<lparr>poll := p\<rparr>)) x) = scheduled (f x)"
  by simp_all

lemma queue_ok_insert_soon:
  assumes "queue_ok q" and "\<not> scheduled (alarms q a)"
    and "run_after (alarms q a) \<le> wake_at (alarms q a)" and "run_after (alarms q a) \<le> run_before (alarms q a)"
  shows "queue_ok (set_alarm a ((alarms q a)\<lparr>scheduled := True\<rparr>) (insert_run_soon a (insert_wake_list a q)))"
proof -
  have out: "a \<notin> set (run_soon q)" "a \<notin> set (run_now q)" "a \<notin> set (wake_list q)"
    using queue_ok_unscheduled [OF assms(1,2)] by auto
  show ?thesis
    using assms out unfolding queue_ok_def insert_run_soon_def insert_wake_list_def
    by (simp del: fun_upd_apply) (auto simp del: fun_upd_apply)
qed

lemma schedule_ok:
  assumes "queue_ok q" and "schedule a q = Some q'"
  shows "queue_ok q'"
proof -
  define e0 where "e0 = (alarms q a)\<lparr>wake_at := alarm (alarms q a), run_before := deadline (alarms q a)\<rparr>"
  define e where "e = (if run_after e0 = TIME_MS_NEVER_WILL \<or> run_after e0 = 0 then e0\<lparr>run_after := wake_at e0\<rparr> else e0)"
  have s: "scheduled e = scheduled (alarms q a)" by (simp add: e_def e0_def)
  note a2 = assms(2) [unfolded schedule_def Let_def, folded e0_def, folded e_def]
  have t: "run_after e \<le> wake_at e" "run_after e \<le> run_before e" "\<not> scheduled e"
    using a2 by (auto split: bind_splits if_splits)
  have q1: "queue_ok (set_alarm a e q)" using queue_ok_set_alarm assms(1) t(3) s by auto
  have "q' = set_alarm a e q \<or>
      q' = set_alarm a (e\<lparr>scheduled := True\<rparr>) (insert_run_soon a (insert_wake_list a (set_alarm a e q)))"
    using a2 by (auto split: bind_splits if_splits)
  then show ?thesis using q1 queue_ok_insert_soon [OF q1, of a] t by auto
qed

lemma unschedule_ok:
  assumes "queue_ok q"
  shows "queue_ok (unschedule a q)" and "\<not> scheduled (alarms (unschedule a q) a)"
proof -
  define q1 where "q1 = remove_wake_list a (q\<lparr>run_now := remove_run_list a (run_now q), run_soon := remove_run_list a (run_soon q)\<rparr>)"
  have sets: "set (run_soon q1) = set (run_soon q) - {a}" "set (run_now q1) = set (run_now q) - {a}"
     "set (wake_list q1) = set (wake_list q) - {a}" "alarms q1 = alarms q"
    using assms by (auto simp: q1_def remove_wake_list_def queue_ok_def)
  have u: "unschedule a q = (if scheduled (alarms q a)
      then set_alarm a ((alarms q1 a)\<lparr>scheduled := False, run_after := TIME_MS_NEVER_WILL\<rparr>) q1 else q)"
    unfolding unschedule_def Let_def q1_def by simp
  show "\<not> scheduled (alarms (unschedule a q) a)" by (simp add: u)
  have "queue_ok (set_alarm a ((alarms q1 a)\<lparr>scheduled := False, run_after := TIME_MS_NEVER_WILL\<rparr>) q1)"
    using assms sets unfolding queue_ok_def
    by simp (auto simp: q1_def remove_wake_list_def)
  then show "queue_ok (unschedule a q)" using assms by (simp add: u)
qed

lemma RESCHEDULE_ok:
  assumes "queue_ok q" and "RESCHEDULE a t1 t2 t3 q = Some q'"
  shows "queue_ok q'"
  using assms(2) unfolding RESCHEDULE_def Let_def
  by (rule schedule_ok [rotated]) (intro queue_ok_set_alarm unschedule_ok assms(1), use unschedule_ok(2) [OF assms(1)] in simp)

text \<open>What rescheduling does when the times fit: the alarm waits in \<open>run_soon\<close>.\<close>

lemma RESCHEDULE_result:
  assumes "queue_ok q" and "has_function (alarms q a)" and "t1 \<le> t2" and "t1 \<le> t3"
    and "t1 \<noteq> 0" and "t1 < TIME_MS_NEVER_WILL"
  shows "\<exists>q'. RESCHEDULE a t1 t2 t3 q = Some q' \<and> queue_ok q' \<and> scheduled (alarms q' a)
    \<and> a \<in> set (run_soon q') \<and> run_after (alarms q' a) = t1 \<and> wake_at (alarms q' a) = t2 \<and> run_before (alarms q' a) = t3
    \<and> (\<forall>b. b \<noteq> a \<longrightarrow> alarms q' b = alarms q b)
    \<and> set (run_soon q') = insert a (set (run_soon q)) \<and> set (run_now q') = set (run_now q) - {a}"
proof -
  have un: "\<not> scheduled (alarms (unschedule a q) a)" "has_function (alarms (unschedule a q) a)"
    using unschedule_ok(2) [OF assms(1)] assms(2) by (auto simp: unschedule_def Let_def remove_wake_list_def)
  then obtain q' where q': "RESCHEDULE a t1 t2 t3 q = Some q'"
    using assms by (auto simp: RESCHEDULE_def schedule_def Let_def)
  have "set (run_soon q) \<inter> set (run_now q) = {}" "distinct (run_soon q)" "distinct (run_now q)"
    "scheduled (alarms q a) \<longleftrightarrow> a \<in> set (run_soon q) \<union> set (run_now q)"
    using assms(1) by (auto simp: queue_ok_def)
  moreover have "queue_ok q'" by (rule RESCHEDULE_ok [OF assms(1) q'])
  ultimately show ?thesis using q' un assms(3-6)
    by (auto simp: RESCHEDULE_def schedule_def Let_def insert_run_soon_def insert_wake_list_def
        unschedule_def remove_wake_list_def split: if_splits)
qed

text \<open>Only the head of \<open>run_soon\<close> moves, so the lists keep their order.\<close>

lemma queue_ok_move:
  assumes "queue_ok q" and "run_soon q = a # rest"
  shows "queue_ok (insert_run_now a (remove_wake_list a (q\<lparr>run_soon := rest\<rparr>)))"
  using assms unfolding queue_ok_def insert_run_now_def remove_wake_list_def
  by simp (auto simp: insert_by_cong)

lemma move_run_list_ok:
  assumes "queue_ok q"
  shows "queue_ok (move_run_list now q) \<and> alarms (move_run_list now q) = alarms q
    \<and> run_soon (move_run_list now q) = dropWhile (\<lambda>a. run_after (alarms q a) \<le> now) (run_soon q)
    \<and> set (run_now (move_run_list now q)) = set (run_now q) \<union> set (takeWhile (\<lambda>a. run_after (alarms q a) \<le> now) (run_soon q))
    \<and> fds (move_run_list now q) = fds q \<and> fdcount (move_run_list now q) = fdcount q
    \<and> fd_callbacks (move_run_list now q) = fd_callbacks q"
  using assms
proof (induction now q rule: move_run_list.induct)
  case (1 now q)
  show ?case
  proof (cases "run_soon q")
    case Nil
    then show ?thesis using 1(2) by (simp add: move_run_list.simps [of now q])
  next
    case (Cons a rest)
    show ?thesis
    proof (cases "run_after (alarms q a) \<le> now")
      case True
      let ?q = "insert_run_now a (remove_wake_list a (q\<lparr>run_soon := rest\<rparr>))"
      have "move_run_list now q = move_run_list now ?q" using True Cons by (simp add: move_run_list.simps [of now q])
      moreover have "alarms ?q = alarms q" "run_soon ?q = rest" "set (run_now ?q) = insert a (set (run_now q))"
        "fds ?q = fds q" "fdcount ?q = fdcount q" "fd_callbacks ?q = fd_callbacks q"
        by (simp_all add: insert_run_now_def remove_wake_list_def)
      ultimately show ?thesis using 1(1) [OF Cons True queue_ok_move [OF 1(2) Cons]] Cons True by simp
    next
      case False
      then show ?thesis using 1(2) Cons by (simp add: move_run_list.simps [of now q])
    qed
  qed
qed

text \<open>Since \<open>run_soon\<close> is sorted, exactly the alarms that may run by \<open>now\<close> move.\<close>

lemma takeWhile_sorted:
  fixes key :: "nat \<Rightarrow> int"
  shows "sorted (map key xs) \<Longrightarrow> set (takeWhile (\<lambda>a. key a \<le> now) xs) = {a \<in> set xs. key a \<le> now}
    \<and> set (dropWhile (\<lambda>a. key a \<le> now) xs) = {a \<in> set xs. now < key a}"
proof (induction xs)
  case (Cons x xs)
  show ?case
  proof (cases "key x \<le> now")
    case True
    then show ?thesis using Cons by auto
  next
    case False
    have "\<forall>a\<in>set xs. key x \<le> key a" using Cons.prems by simp
    then have "\<forall>a\<in>set (x # xs). now < key a" using False by auto
    then show ?thesis using False by (fastforce simp: Collect_conj_eq)
  qed
qed simp

lemma move_run_list_sets:
  assumes "queue_ok q"
  shows "set (run_now (move_run_list now q)) = set (run_now q) \<union> {a \<in> set (run_soon q). run_after (alarms q a) \<le> now}"
    and "set (run_soon (move_run_list now q)) = {a \<in> set (run_soon q). now < run_after (alarms q a)}"
  using move_run_list_ok [OF assms] takeWhile_sorted [of "\<lambda>a. run_after (alarms q a)" "run_soon q"] assms
  by (simp_all add: queue_ok_def)

section \<open>The contract of an alarm function\<close>

text \<open>
  What the loop needs of the functions it calls: that they change the queue through its interface
  (which keeps the lists in order) and that an alarm they schedule waits in \<open>run_soon\<close> for the next
  round, instead of joining the alarms that are already runnable.
\<close>

locale alarm_client =
  fixes env :: environment
  assumes call_ok: "queue_ok q \<Longrightarrow> call env a q = Some q' \<Longrightarrow> queue_ok q'"
    and call_waits: "queue_ok q \<Longrightarrow> call env a q = Some q' \<Longrightarrow> set (run_now q') \<subseteq> set (run_now q)"
begin

lemma run_head_ok:
  assumes "queue_ok q" and "run_now q = a # rest" and "run_head env a rest q = Some q'"
  shows "queue_ok q' \<and> set (run_now q') \<subseteq> set rest"
proof -
  let ?q = "set_alarm a ((alarms q a)\<lparr>scheduled := False, run_after := TIME_MS_NEVER_WILL\<rparr>) (q\<lparr>run_now := rest\<rparr>)"
  have "queue_ok ?q" using assms(1,2) unfolding queue_ok_def by simp blast
  then have "queue_ok (set_alarm a ((alarms ?q a)\<lparr>poll := (poll (alarms ?q a))\<lparr>revents := 0\<rparr>\<rparr>) ?q)"
    by (rule queue_ok_set_alarm) simp_all
  from call_ok [OF this] call_waits [OF this] show ?thesis
    using assms(3) by (simp add: run_head_def call_alarm_def Let_def)
qed

lemma call_alarm_ok:
  assumes "queue_ok q" and "call_alarm env a ev q = Some q'"
  shows "queue_ok q'"
proof -
  have "queue_ok (set_alarm a ((alarms q a)\<lparr>poll := (poll (alarms q a))\<lparr>revents := ev\<rparr>\<rparr>) q)"
    using assms(1) unfolding queue_ok_def by (simp del: fun_upd_apply)
  then show ?thesis using assms(2) call_ok by (simp add: call_alarm_def)
qed

lemma process_fds_ok: "queue_ok q \<Longrightarrow> process_fds env n q = Some q' \<Longrightarrow> queue_ok q'"
proof (induction n arbitrary: q)
  case (Suc i)
  have "queue_ok (q\<lparr>fds := f\<rparr>)" for f using Suc.prems(1) by (simp add: queue_ok_def)
  then show ?case using Suc.prems
    by (auto simp: Let_def split: option.splits if_splits bind_splits dest: Suc.IH [rotated] call_alarm_ok [rotated])
qed simp

lemma poll_io_ok: "queue_ok q \<Longrightarrow> queue_ok (snd (poll_io env ms q))"
  by (simp add: poll_io_def queue_ok_def split: prod.splits)

lemma fd_poll_ok:
  assumes "queue_ok q" and "fd_poll env t1 t2 t3 t4 t5 q = Some (again, q')"
  shows "queue_ok q'"
proof -
  have wait: "queue_ok q'" if "fd_poll_wait env ms t3 t4 t5 q = Some (m, q')" for ms m
  proof -
    obtain r q0 where q0: "poll_io env ms q = (r, q0)" by fastforce
    have "queue_ok q0" using poll_io_ok [OF assms(1), of ms] q0 by simp
    then have q1: "queue_ok (move_run_list t3 q0)" using move_run_list_ok by blast
    show ?thesis using that q0 q1 run_head_ok [OF q1] process_fds_ok [OF q1] move_run_list_ok
      by (auto simp: fd_poll_wait_def Let_def split: list.splits if_splits)
  qed
  show ?thesis using assms(2) wait run_head_ok [OF assms(1)] assms(1)
    by (auto simp: fd_poll_def split: list.splits if_splits option.splits)
qed

text \<open>A round that skips input takes an alarm off \<open>run_now\<close> and puts none on it.\<close>

lemma fd_poll_overdue:
  assumes "queue_ok q" and "run_now q = a # rest" and "run_before (alarms q a) \<le> t1"
    and "fd_poll env t1 t2 t3 t4 t5 q = Some (again, q')"
  shows "set (run_now q') \<subseteq> set rest"
  using assms run_head_ok [OF assms(1,2)] by (auto simp: fd_poll_def)

lemma fd_poll_overdue_card:
  assumes "queue_ok q" and "run_now q = a # rest" and "run_before (alarms q a) \<le> t1"
    and "fd_poll env t1 t2 t3 t4 t5 q = Some (again, q')"
  shows "length (run_now q') < length (run_now q)"
proof -
  have "queue_ok q'" by (rule fd_poll_ok [OF assms(1,4)])
  then have "length (run_now q') = card (set (run_now q'))" by (simp add: queue_ok_def distinct_card)
  also have "\<dots> \<le> card (set rest)" by (rule card_mono) (use fd_poll_overdue [OF assms] in auto)
  also have "\<dots> \<le> length rest" by (rule card_length)
  finally show ?thesis using assms(2) by simp
qed

end

section \<open>The queue as a state machine\<close>

definition empty_queue :: "(nat \<Rightarrow> sched_ent) \<Rightarrow> fdqueue" where
  "empty_queue al = \<lparr>alarms = al, wake_list = [], run_soon = [], run_now = [],
     fds = replicate MAX_WATCHED_FDS \<lparr>fd = 0, events = 0, revents = 0\<rparr>, fdcount = 0,
     fd_callbacks = replicate MAX_WATCHED_FDS None\<rparr>"

text \<open>
  The steps of the daemon that touch the queue: the calls of its interface, the loop moving and taking
  alarms, and owners changing an alarm of theirs while it is not scheduled.
\<close>

inductive queue_step :: "fdqueue \<Rightarrow> fdqueue \<Rightarrow> bool" where
  step_schedule: "schedule a q = Some q' \<Longrightarrow> queue_step q q'"
| step_unschedule: "queue_step q (unschedule a q)"
| step_reschedule: "RESCHEDULE a t1 t2 t3 q = Some q' \<Longrightarrow> queue_step q q'"
| step_move: "queue_step q (move_run_list now q)"
| step_take: "run_now q = a # rest \<Longrightarrow>
    queue_step q (set_alarm a ((alarms q a)\<lparr>scheduled := False, run_after := TIME_MS_NEVER_WILL\<rparr>) (q\<lparr>run_now := rest\<rparr>))"
| step_watch: "watch a q = Some (r, q') \<Longrightarrow> queue_step q q'"
| step_unwatch: "unwatch a q = Some (r, q') \<Longrightarrow> queue_step q q'"
| step_owner: "\<not> scheduled (alarms q a) \<Longrightarrow> \<not> scheduled e \<Longrightarrow> queue_step q (set_alarm a e q)"

inductive reachable_queue :: "fdqueue \<Rightarrow> bool" where
  start: "(\<And>a. \<not> scheduled (al a)) \<Longrightarrow> reachable_queue (empty_queue al)"
| step: "reachable_queue q \<Longrightarrow> queue_step q q' \<Longrightarrow> reachable_queue q'"

text \<open>Fields that the lists do not look at may change.\<close>

lemma queue_ok_frame:
  assumes "queue_ok q" and "run_soon q' = run_soon q" and "run_now q' = run_now q" and "wake_list q' = wake_list q"
    and "\<And>x. run_after (alarms q' x) = run_after (alarms q x)" and "\<And>x. run_before (alarms q' x) = run_before (alarms q x)"
    and "\<And>x. wake_at (alarms q' x) = wake_at (alarms q x)" and "\<And>x. scheduled (alarms q' x) = scheduled (alarms q x)"
  shows "queue_ok q'"
  using assms(1) unfolding queue_ok_def assms(2-8) .

lemma watch_queue_ok: "queue_ok q \<Longrightarrow> watch a q = Some (r, q') \<Longrightarrow> queue_ok q'"
  by (rule queue_ok_frame [of q]) (auto simp: watch_def Let_def split: bind_splits if_splits)

lemma squash_fds_frame:
  "squash_fds i n q = Some q' \<Longrightarrow> queue_ok q \<Longrightarrow> queue_ok q'"
  by (rule queue_ok_frame [of q]) (auto simp: squash_fds_def Let_def split: bind_splits if_splits)

lemma unwatch_queue_ok:
  assumes "queue_ok q" and "unwatch a q = Some (r, q')"
  shows "queue_ok q'"
proof (cases "r = 0")
  case False
  then show ?thesis using assms by (auto simp: unwatch_def Let_def split: bind_splits if_splits)
next
  case True
  then obtain q1 where q1: "squash_fds (nat (poll_index (alarms q a))) (fdcount q - 1) (q\<lparr>fdcount := fdcount q - 1\<rparr>) = Some q1"
      and q': "q' = (let n = fdcount q - 1; q = q1\<lparr>fds := (fds q1)[n := (fds q1 ! n)\<lparr>fd := - 1\<rparr>], fd_callbacks := (fd_callbacks q1)[n := None]\<rparr>
                     in set_alarm a ((alarms q a)\<lparr>poll_index := - 1\<rparr>) q)"
    using assms(2) by (auto simp: unwatch_def Let_def split: bind_splits if_splits)
  have "queue_ok (q\<lparr>fdcount := fdcount q - 1\<rparr>)" using assms(1) by (simp add: queue_ok_def)
  from squash_fds_frame [OF q1 this] show ?thesis
    by (rule queue_ok_frame) (auto simp: q' Let_def)
qed

lemma queue_step_ok: "queue_step q q' \<Longrightarrow> queue_ok q \<Longrightarrow> queue_ok q'"
proof (induction rule: queue_step.induct)
  case (step_take q a rest)
  then show ?case unfolding queue_ok_def by simp blast
next
  case (step_move q now)
  then show ?case using move_run_list_ok by blast
qed (auto intro: schedule_ok unschedule_ok(1) RESCHEDULE_ok watch_queue_ok unwatch_queue_ok queue_ok_set_alarm)

text \<open>
  C10: in every state the daemon can bring the scheduler to, the three lists are sorted by their keys
  without duplicates; an alarm is marked as scheduled exactly when it is on one of the two run lists,
  never on both; the wake list holds exactly the waiting alarms that may wake the processor; and no
  scheduled alarm wakes or expires before it may run.
\<close>

theorem scheduler_invariant:
  assumes "reachable_queue q"
  shows "queue_ok q"
  using assms
proof (induction rule: reachable_queue.induct)
  case (start al)
  then show ?case by (simp add: empty_queue_def queue_ok_def)
next
  case (step q q')
  then show ?case using queue_step_ok by blast
qed

text \<open>A concrete queue with two waiting alarms.\<close>

definition sample_alarm :: sched_ent where
  "sample_alarm = sched_ent_unused\<lparr>has_function := True\<rparr>"

definition sample_queue :: fdqueue where
  "sample_queue = (empty_queue (\<lambda>_. sample_alarm))\<lparr>
     alarms := (\<lambda>_. sample_alarm)(
       0 := sample_alarm\<lparr>scheduled := True, run_after := 10, wake_at := 20, run_before := 30, alarm := 20, deadline := 30\<rparr>,
       1 := sample_alarm\<lparr>scheduled := True, run_after := 15, wake_at := 16, run_before := 17, alarm := 16, deadline := 17\<rparr>),
     run_soon := [0, 1], wake_list := [1, 0]\<rparr>"

lemma sample_queue_built:
  "RESCHEDULE 0 10 20 30 (empty_queue (\<lambda>_. sample_alarm)) \<bind> RESCHEDULE 1 15 16 17 = Some sample_queue"
  by (simp add: RESCHEDULE_def unschedule_def schedule_def Let_def sample_queue_def empty_queue_def sample_alarm_def
      sched_ent_unused_def set_alarm_def insert_run_soon_def insert_wake_list_def TIME_MS_NEVER_WILL_def fun_upd_twist fun_upd_idem_iff)

lemma sample_queue_reachable: "reachable_queue sample_queue"
proof -
  have "reachable_queue (empty_queue (\<lambda>_. sample_alarm))"
    by (rule start) (simp add: sample_alarm_def sched_ent_unused_def)
  moreover obtain q where "RESCHEDULE 0 10 20 30 (empty_queue (\<lambda>_. sample_alarm)) = Some q"
      "RESCHEDULE 1 15 16 17 q = Some sample_queue"
    using sample_queue_built by (auto split: bind_splits)
  ultimately show ?thesis by (meson step step_reschedule)
qed

theorem scheduler_invariant_witness: "queue_ok sample_queue"
  by (rule scheduler_invariant [OF sample_queue_reachable])


definition sample_env :: environment where
  "sample_env = \<lparr>call = (\<lambda>_ q. Some q), do_poll = (\<lambda>ps _. (0, ps)), enxio = (\<lambda>_. False), bad = (\<lambda>_. False)\<rparr>"

lemma sample_queue_ok: "queue_ok sample_queue"
proof -
  have "queue_ok (empty_queue (\<lambda>_. sample_alarm))"
    by (simp add: empty_queue_def queue_ok_def sample_alarm_def sched_ent_unused_def)
  then show ?thesis using sample_queue_built by (auto split: bind_splits dest: RESCHEDULE_ok [rotated])
qed

definition sample_running :: fdqueue where
  "sample_running = sample_queue\<lparr>run_now := [0], run_soon := [1], wake_list := [1]\<rparr>"

lemma sample_running_moved: "move_run_list 12 sample_queue = sample_running"
  by (simp add: move_run_list.simps [of 12] sample_queue_def sample_running_def empty_queue_def insert_run_now_def remove_wake_list_def)


section \<open>Watched descriptors\<close>

definition fds_ok :: "fdqueue \<Rightarrow> bool" where
  "fds_ok q \<longleftrightarrow> length (fds q) = MAX_WATCHED_FDS \<and> length (fd_callbacks q) = MAX_WATCHED_FDS \<and> fdcount q \<le> MAX_WATCHED_FDS
     \<and> (\<forall>i < fdcount q. \<exists>a. fd_callbacks q ! i = Some a \<and> poll_index (alarms q a) = int i \<and> fd (fds q ! i) = fd (poll (alarms q a)))
     \<and> (\<forall>a. 0 \<le> poll_index (alarms q a) \<longrightarrow> poll_index (alarms q a) < int (fdcount q) \<and> fd_callbacks q ! nat (poll_index (alarms q a)) = Some a)"

definition watched :: "fdqueue \<Rightarrow> nat set" where
  "watched q = {a. 0 \<le> poll_index (alarms q a)}"

lemma is_watching_ok: "fds_ok q \<Longrightarrow> is_watching a q = Some (a \<in> watched q)"
proof (cases "0 \<le> poll_index (alarms q a)")
  case True
  assume ok: "fds_ok q"
  have i: "nat (poll_index (alarms q a)) < fdcount q" "fd_callbacks q ! nat (poll_index (alarms q a)) = Some a"
    using ok True unfolding fds_ok_def by (auto simp: nat_less_iff)
  then have "fd (fds q ! nat (poll_index (alarms q a))) = fd (poll (alarms q a))"
    using ok unfolding fds_ok_def by fastforce
  then show ?thesis using True ok i by (auto simp: is_watching_def watched_def Let_def fds_ok_def)
qed (simp add: is_watching_def watched_def Let_def)

lemma watch_ok:
  assumes "fds_ok q" and "has_function (alarms q a)" and "events (poll (alarms q a)) \<noteq> 0" and "a \<notin> watched q" and "fdcount q < MAX_WATCHED_FDS"
  shows "\<exists>q'. watch a q = Some (0, q') \<and> fds_ok q' \<and> watched q' = insert a (watched q) \<and> fdcount q' = fdcount q + 1"
proof -
  have idx: "poll_index (alarms q a) < 0" using assms(4) by (simp add: watched_def)
  let ?p = "(poll (alarms q a))\<lparr>revents := 0\<rparr>"
  let ?q = "set_alarm a ((alarms q a)\<lparr>poll := ?p, poll_index := int (fdcount q)\<rparr>)
      (q\<lparr>fd_callbacks := (fd_callbacks q)[fdcount q := Some a], fdcount := fdcount q + 1, fds := (fds q)[fdcount q := ?p]\<rparr>)"
  have "watch a q = Some (0, ?q)"
    using assms idx by (auto simp: watch_def Let_def fds_ok_def set_alarm_def)
  moreover have "fds_ok ?q"
    using assms(1,5) idx unfolding fds_ok_def by (fastforce simp: nth_list_update less_Suc_eq nat_less_iff)
  moreover have "watched ?q = insert a (watched q)" by (auto simp: watched_def)
  ultimately show ?thesis by auto
qed

lemma watch_full:
  assumes "fds_ok q" and "has_function (alarms q a)" and "events (poll (alarms q a)) \<noteq> 0" and "a \<notin> watched q" and "\<not> fdcount q < MAX_WATCHED_FDS"
  shows "watch a q = Some (- 1, q)"
  using assms by (auto simp: watch_def Let_def watched_def fds_ok_def)

lemma unwatch_ok:
  assumes "fds_ok q" and "a \<in> watched q"
  shows "\<exists>q'. unwatch a q = Some (0, q') \<and> fds_ok q' \<and> watched q' = watched q - {a} \<and> fdcount q' + 1 = fdcount q"
proof -
  define i where "i = nat (poll_index (alarms q a))"
  have i: "poll_index (alarms q a) = int i" "i < fdcount q" "fd_callbacks q ! i = Some a"
    using assms unfolding fds_ok_def watched_def i_def by (auto simp: nat_less_iff)
  define n where "n = fdcount q - 1"
  have n: "fdcount q = Suc n" using i(2) by (simp add: n_def)
  obtain b where b: "fd_callbacks q ! n = Some b" "poll_index (alarms q b) = int n" "fd (fds q ! n) = fd (poll (alarms q b))"
    using assms(1) n unfolding fds_ok_def by (metis lessI)
  have len: "length (fds q) = MAX_WATCHED_FDS" "length (fd_callbacks q) = MAX_WATCHED_FDS" "n < MAX_WATCHED_FDS"
    using assms(1) n by (auto simp: fds_ok_def)
  define q1 where "q1 = (if i = n then q\<lparr>fdcount := n\<rparr> else set_alarm b ((alarms q b)\<lparr>poll_index := int i\<rparr>)
      (q\<lparr>fdcount := n, fds := (fds q)[i := fds q ! n], fd_callbacks := (fd_callbacks q)[i := Some b]\<rparr>))"
  define q2 where "q2 = q1\<lparr>fds := (fds q1)[n := (fds q1 ! n)\<lparr>fd := - 1\<rparr>], fd_callbacks := (fd_callbacks q1)[n := None]\<rparr>"
  define q3 where "q3 = set_alarm a ((alarms q2 a)\<lparr>poll_index := - 1\<rparr>) q2"
  have "squash_fds i n (q\<lparr>fdcount := n\<rparr>) = Some q1" using b by (simp add: squash_fds_def q1_def)
  then have "unwatch a q = Some (0, q3)"
    using is_watching_ok [OF assms(1), of a] assms(2) n i(1)
    by (simp add: unwatch_def Let_def q3_def q2_def)
  moreover have ib: "i = n \<longleftrightarrow> b = a" using i b by auto
  have F1: "\<exists>c. fd_callbacks q ! j = Some c \<and> poll_index (alarms q c) = int j \<and> fd (fds q ! j) = fd (poll (alarms q c))"
    if "j \<le> n" for j using assms(1) n that by (auto simp: fds_ok_def)
  have F2: "nat (poll_index (alarms q c)) \<le> n \<and> fd_callbacks q ! nat (poll_index (alarms q c)) = Some c"
    if "0 \<le> poll_index (alarms q c)" for c using assms(1) n that by (fastforce simp: fds_ok_def nat_le_iff)
  have al: "alarms q3 x = (if x = a then (alarms q a)\<lparr>poll_index := - 1\<rparr>
      else if x = b then (alarms q b)\<lparr>poll_index := int i\<rparr> else alarms q x)" for x
    using ib by (auto simp: q3_def q2_def q1_def)
  have cb: "fd_callbacks q3 = (if i = n then fd_callbacks q else (fd_callbacks q)[i := Some b])[n := None]"
    and "fds q3 = (let f = (if i = n then fds q else (fds q)[i := fds q ! n]) in f[n := (f ! n)\<lparr>fd := - 1\<rparr>])"
    and fc: "fdcount q3 = n"
    by (auto simp: q3_def q2_def q1_def Let_def)
  then have fdj: "fd (fds q3 ! j) = (if j = i then fd (fds q ! n) else fd (fds q ! j))" if "j < n" for j
    using that len i(2) n by (auto simp: Let_def)
  have cbj: "fd_callbacks q3 ! j = (if j = i then Some b else fd_callbacks q ! j)" if "j < n" for j
    using that len i(2) n cb by auto
  have "watched q3 = watched q - {a}"
    using b i by (auto simp: watched_def al)
  moreover have "fds_ok q3"
    unfolding fds_ok_def fc
  proof (intro conjI allI impI)
    fix j assume j: "j < n"
    show "\<exists>c. fd_callbacks q3 ! j = Some c \<and> poll_index (alarms q3 c) = int j \<and> fd (fds q3 ! j) = fd (poll (alarms q3 c))"
    proof (cases "j = i")
      case True
      then have "b \<noteq> a" using j ib by auto
      then show ?thesis using True j cbj fdj b by (simp add: al)
    next
      case False
      obtain c where c: "fd_callbacks q ! j = Some c" "poll_index (alarms q c) = int j" "fd (fds q ! j) = fd (poll (alarms q c))"
        using F1 [of j] j by auto
      then have "c \<noteq> a" "c \<noteq> b" using False i b j by auto
      then show ?thesis using False j cbj fdj c by (simp add: al)
    qed
  next
    fix c assume c: "0 \<le> poll_index (alarms q3 c)"
    then have ca: "c \<noteq> a" by (auto simp: al)
    have "poll_index (alarms q3 c) < int n \<and> fd_callbacks q3 ! nat (poll_index (alarms q3 c)) = Some c"
    proof (cases "c = b")
      case True
      then have "i < n" using ca ib i(2) n by auto
      then show ?thesis using True ca cbj by (simp add: al)
    next
      case False
      then have p: "poll_index (alarms q3 c) = poll_index (alarms q c)" using ca by (simp add: al)
      have "nat (poll_index (alarms q c)) < n" "nat (poll_index (alarms q c)) \<noteq> i"
        using F2 [of c] c p False ca b i by (auto simp: le_less)
      then show ?thesis using F2 [of c] c p cbj by auto
    qed
    then show "poll_index (alarms q3 c) < int n" "fd_callbacks q3 ! nat (poll_index (alarms q3 c)) = Some c" by auto
  qed (use len cb in \<open>auto simp: q3_def q2_def q1_def\<close>)
  ultimately show ?thesis using n fc by (metis Suc_eq_plus1)
qed


definition sample_watch :: fdqueue where
  "sample_watch = empty_queue (\<lambda>_. sample_alarm\<lparr>poll := \<lparr>fd = 3, events = 1, revents = 0\<rparr>\<rparr>)"


end
