(* ===== verification/Performance_Timing.thy ===== *)
theory Performance_Timing
  imports Fdqueue "HOL-Library.Multiset" "HOL-Library.Product_Lexorder"
begin

text \<open>
  The profiler of \<^verbatim>\<open>performance_timing.c\<close>: the stack of running functions with their exclusive times,
  the totals for each function, the list sort it uses for its reports, and the periodic alarm that
  shows and clears the totals.  That alarm is a client of the scheduler, so the contract of alarm
  functions is discharged here.
\<close>

section \<open>Totals\<close>

record profile_total =
  initialised :: bool
  prof_name :: string
  max_time :: int
  total_time :: int
  child_time :: int
  calls :: int

definition fd_clearstat :: "profile_total \<Rightarrow> profile_total" where
  "fd_clearstat s = s\<lparr>max_time := 0, total_time := 0, child_time := 0, calls := 0\<rparr>"

definition fd_tallystats :: "profile_total \<Rightarrow> profile_total \<Rightarrow> profile_total" where
  "fd_tallystats tot a =
     (let tot = tot\<lparr>total_time := total_time tot + total_time a, calls := calls tot + calls a\<rparr>
      in if max_time a > max_time tot then tot\<lparr>max_time := max_time a\<rparr> else tot)"

section \<open>Sorting the list of totals\<close>

text \<open>The totals are static objects; \<open>st\<close> is the store that holds them and lists are lists of addresses.\<close>

definition takes_longer :: "(nat \<Rightarrow> profile_total) \<Rightarrow> nat \<Rightarrow> nat \<Rightarrow> bool" where
  "takes_longer st a b \<longleftrightarrow> total_time (st a) > total_time (st b)
     \<or> (total_time (st a) = total_time (st b) \<and> calls (st a) > calls (st b))"

text \<open>
  Adding an item at the tail of a sub-list, with the flag that says whether the sub-list is still in
  order.
\<close>

definition add_tail :: "(nat \<Rightarrow> profile_total) \<Rightarrow> nat \<Rightarrow> nat list \<times> bool \<Rightarrow> nat list \<times> bool" where
  "add_tail st x = (\<lambda>(xs, already_sorted).
     (xs @ [x], if xs \<noteq> [] \<and> takes_longer st x (last xs) then False else already_sorted))"

fun split_times :: "(nat \<Rightarrow> profile_total) \<Rightarrow> nat \<Rightarrow> nat list \<Rightarrow> nat list \<times> bool \<Rightarrow> nat list \<times> bool
    \<Rightarrow> (nat list \<times> bool) \<times> (nat list \<times> bool)" where
  "split_times st first [] left right = (left, right)"
| "split_times st first (x # xs) left right =
     (if takes_longer st x first then split_times st first xs (add_tail st x left) right
      else split_times st first xs left (add_tail st x right))"

lemma split_times_lists:
  "fst (fst (split_times st first xs left right)) = fst left @ filter (\<lambda>x. takes_longer st x first) xs"
  "fst (snd (split_times st first xs left right)) = fst right @ filter (\<lambda>x. \<not> takes_longer st x first) xs"
  by (induction xs arbitrary: left right) (auto simp: add_tail_def split: prod.splits)

function sort_times :: "(nat \<Rightarrow> profile_total) \<Rightarrow> nat list \<Rightarrow> nat list" where
  "sort_times st [] = []"
| "sort_times st (first # rest) =
     (let left = fst (split_times st first rest ([], True) ([], True));
          right = snd (split_times st first rest ([], True) ([], True))
      in (if snd left then fst left else sort_times st (fst left))
         @ first # (if snd right then fst right else sort_times st (fst right)))"
  by pat_completeness auto
termination
  by (relation "measure (\<lambda>(st, xs). length xs)") (auto simp: split_times_lists less_Suc_eq_le)

section \<open>The stack of calls\<close>

record call_stats =
  call_id :: nat
  enter_time :: int
  call_child_time :: int
  totals :: "nat option"

record timing =
  stats :: "nat \<Rightarrow> profile_total"
  stats_head :: "nat list"
  current_call :: "call_stats list"

definition fd_clearstats :: "timing \<Rightarrow> timing" where
  "fd_clearstats t = t\<lparr>stats := (\<lambda>a. if a \<in> set (stats_head t) then fd_clearstat (stats t a) else stats t a)\<rparr>"

text \<open>The report prints; what it changes is the order of the list.  The second result is the tally.\<close>

definition fd_showstats :: "timing \<Rightarrow> timing \<times> profile_total" where
  "fd_showstats t =
     (let t = t\<lparr>stats_head := sort_times (stats t) (stats_head t)\<rparr>
      in (t, fold (\<lambda>a tot. fd_tallystats tot (stats t a)) (stats_head t)
               \<lparr>initialised = False, prof_name = ''Total'', max_time = 0, total_time = 0, child_time = 0, calls = 0\<rparr>))"

definition fd_func_enter :: "nat \<Rightarrow> nat option \<Rightarrow> int \<Rightarrow> timing \<Rightarrow> timing" where
  "fd_func_enter this_call tot now t =
     t\<lparr>current_call := \<lparr>call_id = this_call, enter_time = now, call_child_time = 0, totals = tot\<rparr> # current_call t\<rparr>"

text \<open>Putting the totals of a function on the list the first time it returns, then adding to them.\<close>

definition first_exit :: "nat \<Rightarrow> timing \<Rightarrow> timing" where
  "first_exit a t =
     (if initialised (stats t a) then t
      else t\<lparr>stats := (stats t)(a := fd_clearstat ((stats t a)\<lparr>initialised := True\<rparr>)), stats_head := a # stats_head t\<rparr>)"

definition add_exit :: "nat \<Rightarrow> int \<Rightarrow> int \<Rightarrow> timing \<Rightarrow> timing" where
  "add_exit a elapsed children t =
     (let s = stats t a;
          s = s\<lparr>total_time := total_time s + elapsed, child_time := child_time s + children, calls := calls s + 1\<rparr>;
          s = (if elapsed > max_time s then s\<lparr>max_time := elapsed\<rparr> else s)
      in t\<lparr>stats := (stats t)(a := s)\<rparr>)"

definition fd_func_exit :: "nat \<Rightarrow> int \<Rightarrow> timing \<Rightarrow> timing run" where
  "fd_func_exit this_call now t =
     (case current_call t of
        [] \<Rightarrow> None
      | c # prev \<Rightarrow>
          if call_id c \<noteq> this_call then None
          else (let elapsed = now - enter_time c;
                    t = t\<lparr>current_call := prev\<rparr>;
                    t = (case totals c of None \<Rightarrow> t | Some a \<Rightarrow> first_exit a t);
                    t = (case prev of [] \<Rightarrow> t
                         | p # ps \<Rightarrow> t\<lparr>current_call := p\<lparr>call_child_time := call_child_time p + elapsed\<rparr> # ps\<rparr>);
                    elapsed = elapsed - call_child_time c
                in Some (case totals c of None \<Rightarrow> t | Some a \<Rightarrow> add_exit a elapsed (call_child_time c) t)))"

definition fd_depth :: "timing \<Rightarrow> nat" where
  "fd_depth t = length (current_call t)"

text \<open>The periodic report: an alarm at the address \<open>self\<close>.\<close>

definition fd_periodicstats :: "nat \<Rightarrow> int \<Rightarrow> timing \<Rightarrow> fdqueue \<Rightarrow> (timing \<times> fdqueue) run" where
  "fd_periodicstats self now t q = do {
     let t = fd_clearstats (fst (fd_showstats t));
     q \<leftarrow> RESCHEDULE self (now + 3000) TIME_MS_NEVER_WILL (now + 3500) q;
     Some (t, q) }"

section \<open>The sort\<close>

text \<open>The reference: the library's stable sort, longest time first.\<close>

definition time_key :: "(nat \<Rightarrow> profile_total) \<Rightarrow> nat \<Rightarrow> int \<times> int" where
  "time_key st a = (- total_time (st a), - calls (st a))"

lemma takes_longer_key: "takes_longer st a b \<longleftrightarrow> time_key st a < time_key st b"
  by (auto simp: takes_longer_def time_key_def)

definition flag_ok :: "(nat \<Rightarrow> profile_total) \<Rightarrow> nat list \<times> bool \<Rightarrow> bool" where
  "flag_ok st l \<longleftrightarrow> (snd l \<longrightarrow> sorted (map (time_key st) (fst l)))"

lemma sorted_snoc: "sorted (map f (xs @ [x])) \<longleftrightarrow> sorted (map f xs) \<and> (xs \<noteq> [] \<longrightarrow> f (last xs) \<le> (f x :: 'a::linorder))"
  by (induction xs rule: rev_induct) (auto simp: sorted_append)

lemma add_tail_flag: "flag_ok st l \<Longrightarrow> flag_ok st (add_tail st x l)"
  unfolding flag_ok_def add_tail_def by (auto simp: sorted_snoc takes_longer_key simp del: map_append split: prod.splits if_splits)

lemma split_times_flag:
  "flag_ok st left \<Longrightarrow> flag_ok st right \<Longrightarrow>
   flag_ok st (fst (split_times st first xs left right)) \<and> flag_ok st (snd (split_times st first xs left right))"
  by (induction xs arbitrary: left right) (simp_all add: add_tail_flag)

lemma sort_key_partition:
  fixes f :: "'a \<Rightarrow> 'b::linorder"
  shows "sort_key f (x # xs) = sort_key f (filter (\<lambda>y. f y < f x) xs) @ x # sort_key f (filter (\<lambda>y. \<not> f y < f x) xs)"
proof (rule properties_for_sort_key)
  show "mset (sort_key f (filter (\<lambda>y. f y < f x) xs) @ x # sort_key f (filter (\<lambda>y. \<not> f y < f x) xs)) = mset (x # xs)"
    by (simp flip: multiset_partition)
  show "sorted (map f (sort_key f (filter (\<lambda>y. f y < f x) xs) @ x # sort_key f (filter (\<lambda>y. \<not> f y < f x) xs)))"
    by (auto simp: sorted_append)
  fix k
  show "filter (\<lambda>y. f k = f y) (sort_key f (filter (\<lambda>y. f y < f x) xs) @ x # sort_key f (filter (\<lambda>y. \<not> f y < f x) xs)) =
        filter (\<lambda>y. f k = f y) (x # xs)"
  proof -
    have eq: "(\<lambda>y. f k = f y) = (\<lambda>y. f y = f k)" by auto
    have lt: "filter (\<lambda>y. f y < f x \<and> f y = f k) xs = (if f k < f x then filter (\<lambda>y. f y = f k) xs else [])"
      and ge: "filter (\<lambda>y. \<not> f y < f x \<and> f y = f k) xs = (if f k < f x then [] else filter (\<lambda>y. f y = f k) xs)"
      by (induction xs) auto
    show ?thesis unfolding eq filter_append filter.simps sort_key_stable filter_filter lt ge by auto
  qed
qed

text \<open>
  C13: the profiler's sort, which leaves sub-lists alone that it found in order while splitting, gives
  the same list as a stable sort by decreasing time and number of calls.
\<close>

theorem sort_times_correct: "sort_times st xs = sort_key (time_key st) xs"
proof (induction st xs rule: sort_times.induct)
  case (2 st first rest)
  let ?left = "fst (split_times st first rest ([], True) ([], True))"
  let ?right = "snd (split_times st first rest ([], True) ([], True))"
  have flags: "flag_ok st ?left" "flag_ok st ?right"
    using split_times_flag [of st "([], True)" "([], True)" first rest] by (simp_all add: flag_ok_def)
  have l: "(if snd ?left then fst ?left else sort_times st (fst ?left)) = sort_key (time_key st) (fst ?left)"
    using 2(1) [OF refl refl] flags(1) by (auto simp: flag_ok_def sort_key_id_if_sorted)
  have r: "(if snd ?right then fst ?right else sort_times st (fst ?right)) = sort_key (time_key st) (fst ?right)"
    using 2(2) [OF refl refl] flags(2) by (auto simp: flag_ok_def sort_key_id_if_sorted)
  show ?case
    unfolding sort_times.simps Let_def l r sort_key_partition [of _ first rest]
    by (simp add: split_times_lists takes_longer_key)
qed simp

section \<open>Exclusive times\<close>

text \<open>A finished call: whose totals it counts for, when it was entered and left, and the calls it made.\<close>

datatype call_tree = Call (call_fn: nat) (call_in: int) (call_subs: "call_tree list") (call_out: int)

fun run_call :: "nat \<Rightarrow> call_tree \<Rightarrow> timing \<Rightarrow> timing run"
  and run_calls :: "nat \<Rightarrow> call_tree list \<Rightarrow> timing \<Rightarrow> timing run" where
  "run_call this (Call f t_in subs t_out) t = do {
     t \<leftarrow> run_calls (Suc this) subs (fd_func_enter this (Some f) t_in t);
     fd_func_exit this t_out t }"
| "run_calls this [] t = Some t"
| "run_calls this (c # cs) t = do { t \<leftarrow> run_call this c t; run_calls this cs t }"

text \<open>The time accounted for so far to a set of functions, and the time added to the running call.\<close>

definition own_time :: "profile_total \<Rightarrow> int" where
  "own_time s = (if initialised s then total_time s else 0)"

definition accounted :: "nat set \<Rightarrow> timing \<Rightarrow> int" where
  "accounted S t = (\<Sum>f\<in>S. own_time (stats t f))"

definition add_child :: "int \<Rightarrow> call_stats list \<Rightarrow> call_stats list" where
  "add_child d cs = (case cs of [] \<Rightarrow> [] | c # cs \<Rightarrow> c\<lparr>call_child_time := call_child_time c + d\<rparr> # cs)"

fun call_fns :: "call_tree \<Rightarrow> nat set" where
  "call_fns (Call f t_in subs t_out) = insert f (\<Union>c\<in>set subs. call_fns c)"

definition call_len :: "call_tree \<Rightarrow> int" where
  "call_len c = call_out c - call_in c"

lemma add_child_add: "add_child e (add_child d cs) = add_child (d + e) cs"
  by (simp add: add_child_def algebra_simps split: list.splits)

lemma add_child_0 [simp]: "add_child 0 cs = cs"
  by (simp add: add_child_def split: list.splits)

lemma accounted_upd:
  assumes "finite S" and "f \<in> S"
  shows "accounted S (t\<lparr>stats := (stats t)(f := s)\<rparr>) = accounted S t + (own_time s - own_time (stats t f))"
proof -
  have "(\<Sum>g\<in>S - {f}. own_time (((stats t)(f := s)) g)) = (\<Sum>g\<in>S - {f}. own_time (stats t g))"
    by (rule sum.cong) auto
  then show ?thesis by (simp add: accounted_def sum.remove [OF assms] del: fun_upd_apply) simp
qed

lemma accounted_frame [simp]: "accounted S (t\<lparr>current_call := c\<rparr>) = accounted S t" "accounted S (t\<lparr>stats_head := h\<rparr>) = accounted S t"
  by (simp_all add: accounted_def)

lemma first_exit_accounted:
  assumes "finite S" and "f \<in> S"
  shows "accounted S (first_exit f t) = accounted S t" and "initialised (stats (first_exit f t) f)"
    and "current_call (first_exit f t) = current_call t"
proof -
  show "accounted S (first_exit f t) = accounted S t"
    using accounted_upd [OF assms, of t "fd_clearstat ((stats t f)\<lparr>initialised := True\<rparr>)"]
    by (simp add: first_exit_def fd_clearstat_def own_time_def)
qed (simp_all add: first_exit_def fd_clearstat_def)

lemma same_current_call: "current_call t = c \<Longrightarrow> t\<lparr>current_call := c\<rparr> = t"
  by (cases t) simp

lemma fd_func_exit_accounted:
  assumes "finite S" and "f \<in> S" and "current_call t = \<lparr>call_id = this, enter_time = t_in, call_child_time = d, totals = Some f\<rparr> # prev"
  shows "\<exists>t'. fd_func_exit this t_out t = Some t' \<and> current_call t' = add_child (t_out - t_in) prev
     \<and> accounted S t' = accounted S t + (t_out - t_in - d)"
proof -
  define t1 where "t1 = (first_exit f (t\<lparr>current_call := prev\<rparr>))\<lparr>current_call := add_child (t_out - t_in) prev\<rparr>"
  note fe = first_exit_accounted [OF assms(1,2), of "t\<lparr>current_call := prev\<rparr>"]
  have "fd_func_exit this t_out t = Some (add_exit f (t_out - t_in - d) d t1)"
    using fe(3) by (cases prev) (simp_all add: fd_func_exit_def assms(3) Let_def t1_def add_child_def same_current_call)
  moreover have "initialised (stats t1 f)" "accounted S t1 = accounted S t"
    using fe by (simp_all add: t1_def)
  then have "accounted S (add_exit f (t_out - t_in - d) d t1) = accounted S t + (t_out - t_in - d)"
    unfolding add_exit_def Let_def using accounted_upd [OF assms(1,2)] by (simp add: own_time_def)
  moreover have "current_call (add_exit f (t_out - t_in - d) d t1) = add_child (t_out - t_in) prev"
    by (simp add: add_exit_def Let_def t1_def)
  ultimately show ?thesis by blast
qed

lemma run_call_accounted:
  assumes "finite S"
  shows "call_fns c \<subseteq> S \<Longrightarrow> \<exists>t'. run_call this c t = Some t' \<and> current_call t' = add_child (call_len c) (current_call t)
           \<and> accounted S t' = accounted S t + call_len c"
    and "(\<Union>c\<in>set cs. call_fns c) \<subseteq> S \<Longrightarrow> \<exists>t'. run_calls this cs t = Some t'
           \<and> current_call t' = add_child (\<Sum>c\<leftarrow>cs. call_len c) (current_call t)
           \<and> accounted S t' = accounted S t + (\<Sum>c\<leftarrow>cs. call_len c)"
proof (induction this c t and this cs t rule: run_call_run_calls.induct)
  case (1 this f t_in subs t_out t)
  obtain t1 where t1: "run_calls (Suc this) subs (fd_func_enter this (Some f) t_in t) = Some t1"
      "current_call t1 = add_child (\<Sum>c\<leftarrow>subs. call_len c) (current_call (fd_func_enter this (Some f) t_in t))"
      "accounted S t1 = accounted S t + (\<Sum>c\<leftarrow>subs. call_len c)"
    using 1 by (auto simp: fd_func_enter_def)
  have "current_call t1 = \<lparr>call_id = this, enter_time = t_in, call_child_time = (\<Sum>c\<leftarrow>subs. call_len c), totals = Some f\<rparr> # current_call t"
    using t1(2) by (simp add: fd_func_enter_def add_child_def)
  from fd_func_exit_accounted [OF assms _ this] 1(2) t1 show ?case by (auto simp: call_len_def)
next
  case (3 this c cs t)
  obtain t1 where t1: "run_call this c t = Some t1" "current_call t1 = add_child (call_len c) (current_call t)"
      "accounted S t1 = accounted S t + call_len c"
    using 3 by auto
  with 3(2) [of t1] 3(3) show ?case by (auto simp: add_child_add)
qed auto

text \<open>
  C14: however deeply calls nest, the profiler shares the time of an outermost call out without loss
  or double counting: the exclusive times it adds to the totals of all functions involved sum up to
  exactly the time between entering and leaving that call, and the stack is empty again.
\<close>

theorem exclusive_times_sum:
  assumes "finite S" and "call_fns c \<subseteq> S" and "current_call t = []"
  shows "\<exists>t'. run_call this c t = Some t' \<and> current_call t' = [] \<and> accounted S t' = accounted S t + (call_out c - call_in c)"
  using run_call_accounted(1) [OF assms(1,2), of this t] assms(3) by (auto simp: add_child_def call_len_def)

definition sample_call :: call_tree where
  "sample_call = Call 0 100 [Call 1 110 [Call 0 115 [] 120] 130, Call 1 140 [] 141] 150"

definition sample_timing :: timing where
  "sample_timing = \<lparr>stats = (\<lambda>_. \<lparr>initialised = False, prof_name = [], max_time = 7, total_time = 7, child_time = 7, calls = 7\<rparr>),
     stats_head = [], current_call = []\<rparr>"

theorem exclusive_times_sum_witness:
  "\<exists>t'. run_call 0 sample_call sample_timing = Some t' \<and> current_call t' = [] \<and> accounted {0, 1} t' = 50"
  using exclusive_times_sum [of "{0, 1}" sample_call sample_timing 0]
  by (simp add: sample_call_def sample_timing_def accounted_def own_time_def)

section \<open>The periodic alarm as a client of the scheduler\<close>

text \<open>The scheduler with the report as the function of its alarms.\<close>

definition stats_env :: "environment \<Rightarrow> int \<Rightarrow> timing \<Rightarrow> environment" where
  "stats_env env now t = env\<lparr>call := (\<lambda>self q. map_option snd (fd_periodicstats self now t q))\<rparr>"

lemma RESCHEDULE_run_now:
  assumes "queue_ok q" and "RESCHEDULE a t1 t2 t3 q = Some q'"
  shows "set (run_now q') \<subseteq> set (run_now q)"
proof -
  have "set (run_now (unschedule a q)) \<subseteq> set (run_now q)"
    using assms(1) by (auto simp: unschedule_def Let_def remove_wake_list_def queue_ok_def)
  moreover have "run_now q' = run_now (unschedule a q)"
    using assms(2) by (auto simp: RESCHEDULE_def schedule_def Let_def insert_run_soon_def insert_wake_list_def split: bind_splits if_splits)
  ultimately show ?thesis by simp
qed

interpretation stats: alarm_client "stats_env env now t" for env now t
  by unfold_locales (auto simp: stats_env_def fd_periodicstats_def Let_def split: bind_splits intro: RESCHEDULE_ok dest: RESCHEDULE_run_now [rotated])



lemma sample_running_ok: "queue_ok sample_running"
  using move_run_list_ok [OF sample_queue_ok, of 12] by (simp add: sample_running_moved)

lemma sample_running_poll:
  "fd_poll (stats_env sample_env 40 sample_timing) 40 40 40 40 40 sample_running \<noteq> None"
  by (simp add: fd_poll_def run_head_def call_alarm_def stats_env_def fd_periodicstats_def RESCHEDULE_def unschedule_def
      schedule_def Let_def sample_running_def sample_queue_def empty_queue_def sample_alarm_def sched_ent_unused_def
      sample_env_def TIME_MS_NEVER_WILL_def)


end
