(* ===== verification/Limit.thy ===== *)
theory Limit
  imports Prelude
begin

text \<open>
  The rate limiter of \<^verbatim>\<open>limit.c\<close>: at most \<open>burst_size\<close> events in each interval of \<open>burst_length\<close>
  milliseconds.  Readings of the clock are arguments.
\<close>

section \<open>Data and operations\<close>

record limit_state =
  rate_micro_seconds :: nat
  burst_length :: int
  burst_size :: int
  sent :: int
  next_interval :: int

definition MIN_BURST_LENGTH :: nat where
  "MIN_BURST_LENGTH = 5000"

definition update_limit_state :: "int \<Rightarrow> limit_state \<Rightarrow> limit_state" where
  "update_limit_state now s =
     (if next_interval s > now \<or> burst_size s = 0 then s
      else (let s = (if next_interval s + burst_length s > now
                     then s\<lparr>next_interval := next_interval s + burst_length s\<rparr>
                     else s\<lparr>next_interval := now + burst_length s\<rparr>)
            in s\<lparr>sent := 0\<rparr>))"

definition limit_next_allowed :: "int \<Rightarrow> limit_state \<Rightarrow> int \<times> limit_state" where
  "limit_next_allowed now s =
     (if burst_size s = 0 then (now, s)
      else (let s = update_limit_state now s
            in (if sent s < burst_size s then now else next_interval s, s)))"

definition limit_is_allowed :: "int \<Rightarrow> limit_state \<Rightarrow> int \<times> limit_state" where
  "limit_is_allowed now s =
     (if burst_size s = 0 then (0, s)
      else (let s = update_limit_state now s
            in if sent s \<ge> burst_size s then (- 1, s)
               else (0, s\<lparr>sent := sent s + 1\<rparr>)))"

text \<open>
  The product is computed in unsigned 32 bit arithmetic, the quotient in floating point and then
  truncated.
\<close>

definition limit_init :: "nat \<Rightarrow> limit_state \<Rightarrow> limit_state" where
  "limit_init rate s =
     (let s = s\<lparr>rate_micro_seconds := rate\<rparr>
      in if rate = 0 then s\<lparr>burst_size := 0, burst_length := 0\<rparr>
         else (let size = MIN_BURST_LENGTH div rate + 1
               in s\<lparr>burst_size := int size, burst_length := int ((size * rate) mod 4294967296 div 1000)\<rparr>))"

section \<open>How many events pass\<close>

fun limit_run :: "limit_state \<Rightarrow> int list \<Rightarrow> int list \<times> limit_state" where
  "limit_run s [] = ([], s)"
| "limit_run s (t # ts) =
     (let (r, s) = limit_is_allowed t s; (rs, s) = limit_run s ts in (r # rs, s))"

definition allowed :: "limit_state \<Rightarrow> int list \<Rightarrow> nat" where
  "allowed s ts = length (filter (\<lambda>r. r = 0) (fst (limit_run s ts)))"

definition intervals :: "int \<Rightarrow> limit_state \<Rightarrow> int" where
  "intervals b s = (if b < next_interval s then 0 else (b - next_interval s) div burst_length s + 1)"

definition room :: "limit_state \<Rightarrow> int" where
  "room s = max 0 (burst_size s - sent s)"

lemma allowed_Cons: "allowed s (t # ts) = (if fst (limit_is_allowed t s) = 0 then 1 else 0) + allowed (snd (limit_is_allowed t s)) ts"
  by (auto simp: allowed_def split: prod.splits)

lemma update_fields [simp]:
  "burst_size (update_limit_state now s) = burst_size s" "burst_length (update_limit_state now s) = burst_length s"
  by (auto simp: update_limit_state_def Let_def)

lemma intervals_nonneg: "0 < burst_length s \<Longrightarrow> 0 \<le> intervals b s"
  by (simp add: intervals_def pos_imp_zdiv_nonneg_iff)

lemma intervals_later:
  assumes "0 < burst_length s" and "next_interval s \<le> b" and "burst_length s' = burst_length s"
    and "next_interval s + burst_length s \<le> next_interval s'"
  shows "intervals b s' + 1 \<le> intervals b s"
proof (cases "b < next_interval s'")
  case True
  then show ?thesis using assms by (simp add: intervals_def pos_imp_zdiv_nonneg_iff)
next
  case False
  have "(b - next_interval s') div burst_length s \<le> (b - next_interval s - burst_length s) div burst_length s"
    using assms by (intro zdiv_mono1) auto
  also have "\<dots> = (b - next_interval s) div burst_length s - 1"
    using assms(1) div_add_self2 [of "burst_length s" "b - next_interval s - burst_length s"] by simp
  finally show ?thesis using False assms by (simp add: intervals_def)
qed

text \<open>Starting a new interval uses one of them up.\<close>

lemma update_budget:
  assumes "0 < burst_length s" and "0 < burst_size s" and "now \<le> b"
  shows "room (update_limit_state now s) + burst_size s * intervals b (update_limit_state now s)
    \<le> room s + burst_size s * intervals b s"
proof (cases "next_interval s > now")
  case True
  then show ?thesis by (simp add: update_limit_state_def)
next
  case False
  let ?s = "update_limit_state now s"
  have "intervals b ?s + 1 \<le> intervals b s"
    by (rule intervals_later) (use assms False in \<open>auto simp: update_limit_state_def Let_def\<close>)
  then have "burst_size s * (intervals b ?s + 1) \<le> burst_size s * intervals b s"
    using assms(2) by (intro mult_left_mono) auto
  moreover have "room ?s = burst_size s" using False assms(2) by (auto simp: room_def update_limit_state_def Let_def)
  moreover have "0 \<le> room s" by (simp add: room_def)
  ultimately show ?thesis by (simp add: algebra_simps)
qed

lemma allowed_budget:
  assumes "0 < burst_length s" and "0 < burst_size s" and "\<forall>t\<in>set ts. t \<le> b"
  shows "int (allowed s ts) \<le> room s + burst_size s * intervals b s"
  using assms
proof (induction ts arbitrary: s)
  case Nil
  have "0 \<le> burst_size s * intervals b s" using Nil intervals_nonneg by simp
  then show ?case by (simp add: allowed_def room_def)
next
  case (Cons t ts)
  let ?u = "update_limit_state t s"
  have u: "room ?u + burst_size s * intervals b ?u \<le> room s + burst_size s * intervals b s"
    by (rule update_budget) (use Cons.prems in auto)
  show ?case
  proof (cases "sent ?u \<ge> burst_size s")
    case True
    then have "limit_is_allowed t s = (- 1, ?u)" using Cons.prems(2) by (simp add: limit_is_allowed_def)
    then show ?thesis using Cons.IH [of ?u] Cons.prems u by (simp add: allowed_Cons)
  next
    case False
    let ?v = "?u\<lparr>sent := sent ?u + 1\<rparr>"
    have a: "limit_is_allowed t s = (0, ?v)" using False Cons.prems(2) by (simp add: limit_is_allowed_def Let_def)
    have "int (allowed ?v ts) \<le> room ?v + burst_size s * intervals b ?v" using Cons.IH [of ?v] Cons.prems by simp
    moreover have "room ?v + 1 = room ?u" "intervals b ?v = intervals b ?u" using False by (auto simp: room_def intervals_def)
    ultimately show ?thesis using u a by (simp add: allowed_Cons)
  qed
qed

lemma update_idem:
  "0 < burst_length s \<Longrightarrow> update_limit_state t (update_limit_state t s) = update_limit_state t s"
  by (auto simp: update_limit_state_def Let_def)

lemma allowed_update:
  assumes "0 < burst_length s" and "burst_size s \<noteq> 0"
  shows "allowed (update_limit_state t s) (t # ts) = allowed s (t # ts)"
  unfolding allowed_Cons limit_is_allowed_def using update_idem [OF assms(1)] assms(2) by simp

lemma limit_init_fields:
  assumes "0 < rate" and "rate < 4294967296"
  shows "burst_size (limit_init rate s) = int (5000 div rate + 1)" and "5 \<le> burst_length (limit_init rate s)"
proof -
  have "(5000 div rate + 1) * rate < 4294967296"
  proof (cases "rate \<le> 5000")
    case True
    have "(5000 div rate + 1) * rate = 5000 div rate * rate + rate" by (rule Suc_eq_plus1 [THEN subst]) simp
    also have "\<dots> \<le> 5000 + 5000" using True by (intro add_mono div_times_less_eq_dividend)
    finally show ?thesis by simp
  next
    case False
    then show ?thesis using assms(2) by simp
  qed
  moreover have "5000 < (5000 div rate + 1) * rate"
    using dividend_less_div_times [OF assms(1), of 5000] by (simp add: algebra_simps)
  ultimately show "5 \<le> burst_length (limit_init rate s)"
    using assms(1) by (simp add: limit_init_def Let_def MIN_BURST_LENGTH_def)
  show "burst_size (limit_init rate s) = int (5000 div rate + 1)"
    using assms(1) by (simp add: limit_init_def Let_def MIN_BURST_LENGTH_def)
qed

text \<open>
  C16: the limiter bounds the rate.  For any limit set up by \<^const>\<open>limit_init\<close> and any calls whose
  times lie between \<open>a\<close> and \<open>b\<close>, the number of calls that are allowed is at most the burst size times
  the number of burst lengths in that time plus two.
\<close>

theorem limit_rate_bound:
  assumes "0 < rate" and "rate < 4294967296" and "s = limit_init rate s0" and "0 \<le> sent s0"
    and "\<forall>t\<in>set ts. a \<le> t \<and> t \<le> b"
  shows "ts = [] \<or> int (allowed s ts) \<le> burst_size s * ((b - a) div burst_length s + 2)"
proof (cases ts)
  case (Cons t ts')
  have len: "0 < burst_length s" and size: "0 < burst_size s"
    using limit_init_fields [OF assms(1,2), of s0] by (auto simp: assms(3))
  let ?u = "update_limit_state t s"
  have "0 \<le> sent s" using assms(1,3,4) by (simp add: limit_init_def Let_def)
  then have "0 \<le> sent ?u" by (simp add: update_limit_state_def Let_def)
  then have room: "room ?u \<le> burst_size s" using size by (simp add: room_def)
  have later: "t < next_interval ?u" using len size by (auto simp: update_limit_state_def Let_def)
  have t: "a \<le> t" "t \<le> b" using assms(5) Cons by auto
  have "(b - next_interval ?u) div burst_length s \<le> (b - a) div burst_length s"
    using later t len by (intro zdiv_mono1) auto
  moreover have "0 \<le> (b - a) div burst_length s" using t len by (simp add: pos_imp_zdiv_nonneg_iff)
  ultimately have "intervals b ?u \<le> (b - a) div burst_length s + 1" by (simp add: intervals_def)
  then have "burst_size s * intervals b ?u \<le> burst_size s * ((b - a) div burst_length s + 1)"
    using size by (intro mult_left_mono) auto
  moreover have "int (allowed ?u (t # ts')) \<le> room ?u + burst_size ?u * intervals b ?u"
    by (rule allowed_budget) (use len size assms(5) Cons in auto)
  ultimately show ?thesis
    using room allowed_update [OF len, of t ts'] size Cons by (simp add: algebra_simps)
qed simp

theorem limit_rate_bound_witness:
  "int (allowed (limit_init 1000 \<lparr>rate_micro_seconds = 0, burst_length = 0, burst_size = 0, sent = 0, next_interval = 0\<rparr>)
     [100, 100, 100, 100, 100, 100, 100, 101, 105, 106]) \<le> 18"
  using limit_rate_bound [of 1000 _ "\<lparr>rate_micro_seconds = 0, burst_length = 0, burst_size = 0, sent = 0, next_interval = 0\<rparr>"
      "[100, 100, 100, 100, 100, 100, 100, 101, 105, 106]" 100 106]
  by (simp add: limit_init_def Let_def MIN_BURST_LENGTH_def)

text \<open>
  C17: the time \<^const>\<open>limit_next_allowed\<close> gives is good: nothing is allowed from now until just
  before it, and a call at that time is allowed.
\<close>

theorem limit_next_allowed_exact:
  assumes "0 < rate" and "rate < 4294967296" and "s = limit_init rate s0"
    and "limit_next_allowed now s = (t, s')"
  shows "now \<le> t \<and> fst (limit_is_allowed t s') = 0 \<and> (\<forall>x. now \<le> x \<and> x < t \<longrightarrow> fst (limit_is_allowed x s') = - 1)"
proof -
  have len: "0 < burst_length s" and size: "0 < burst_size s"
    using limit_init_fields [OF assms(1,2), of s0] by (auto simp: assms(3))
  have s': "s' = update_limit_state now s" and t: "t = (if sent s' < burst_size s' then now else next_interval s')"
    using assms(4) size by (auto simp: limit_next_allowed_def Let_def)
  have later: "now < next_interval s'" using len size by (auto simp: s' update_limit_state_def Let_def)
  have f: "burst_length s' = burst_length s" "burst_size s' = burst_size s" by (simp_all add: s')
  have same: "update_limit_state x s' = s'" if "x < next_interval s'" for x
    using that by (simp add: update_limit_state_def)
  show ?thesis
  proof (cases "sent s' < burst_size s'")
    case True
    then show ?thesis using t same [OF later] size by (simp add: limit_is_allowed_def Let_def)
  next
    case False
    have "sent (update_limit_state t s') = 0" using False t size f by (simp add: update_limit_state_def Let_def)
    then have "fst (limit_is_allowed t s') = 0" using size f by (simp add: limit_is_allowed_def Let_def)
    then show ?thesis using False t later same size f by (auto simp: limit_is_allowed_def)
  qed
qed

theorem limit_next_allowed_exact_witness:
  "fst (limit_is_allowed 100 (snd (limit_next_allowed 100
     (limit_init 1000 \<lparr>rate_micro_seconds = 0, burst_length = 0, burst_size = 0, sent = 0, next_interval = 0\<rparr>)))) = 0"
  using limit_next_allowed_exact [of 1000 _ "\<lparr>rate_micro_seconds = 0, burst_length = 0, burst_size = 0, sent = 0, next_interval = 0\<rparr>" 100]
  by (simp add: limit_init_def Let_def MIN_BURST_LENGTH_def limit_next_allowed_def update_limit_state_def)

end
