(* ===== verification/Mesh_State.thy ===== *)
theory Mesh_State
  imports Overlay_Buffer Subscriber_Tree Fdqueue Limit
begin

text \<open>
  The data of the mesh daemon that its routing, addressing and packet modules share: network
  destinations and interfaces (\<^verbatim>\<open>overlay_interface.h\<close>), frames (\<^verbatim>\<open>overlay_packet.h\<close>), the context of
  address coding (\<^verbatim>\<open>overlay_address.h\<close>), neighbours and links (\<^verbatim>\<open>route_link.c\<close>) and transmission queues
  (\<^verbatim>\<open>overlay_queue.c\<close>).  Objects that several structures point to live in lists indexed by address;
  the linked list of neighbours and the lists and trees a neighbour owns are values.
\<close>

section \<open>Constants\<close>

definition OVERLAY_MAX_INTERFACES :: nat where "OVERLAY_MAX_INTERFACES = 16"
definition BROADCAST_LEN :: nat where "BROADCAST_LEN = 8"
definition MAX_BPIS :: nat where "MAX_BPIS = 1024"
definition MDP_MTU :: nat where "MDP_MTU = 1200"
definition TIME_MS_NEVER_HAS :: int where "TIME_MS_NEVER_HAS = - 9223372036854775808"

definition REACHABLE_NONE :: nat where "REACHABLE_NONE = 0"
definition REACHABLE_SELF :: nat where "REACHABLE_SELF = 1"
definition REACHABLE_BROADCAST :: nat where "REACHABLE_BROADCAST = 2"
definition REACHABLE_UNICAST :: nat where "REACHABLE_UNICAST = 4"
definition REACHABLE_INDIRECT :: nat where "REACHABLE_INDIRECT = 8"
definition REACHABLE_DIRECT :: nat where "REACHABLE_DIRECT = REACHABLE_BROADCAST OR REACHABLE_UNICAST"
definition REACHABLE :: nat where "REACHABLE = REACHABLE_DIRECT OR REACHABLE_INDIRECT"

definition INTERFACE_STATE_UP :: int where "INTERFACE_STATE_UP = 1"
definition AF_INET :: nat where "AF_INET = 2"
definition ENCAP_OVERLAY :: int where "ENCAP_OVERLAY = 1"
definition ENCAP_SINGLE :: int where "ENCAP_SINGLE = 2"

section \<open>Interfaces and destinations\<close>

record socket_address =
  sa_family :: nat
  sin_addr :: u32
  sin_port :: u16

record network_destination =
  ref_count :: int
  dest_interface :: nat
  address :: socket_address
  unicast :: bool
  dest_packet_version :: int
  encapsulation :: int
  last_tx :: int
  min_rtt :: int
  max_rtt :: int
  resend_delay :: int
  sequence_number :: int
  dest_last_ack_seq :: int
  transfer_limit :: limit_state
  tick_ms :: int
  reachable_timeout_ms :: int
  freed :: bool

record overlay_interface =
  state :: int
  if_type :: int
  drop_packets :: nat
  drop_broadcasts :: bool
  drop_unicasts :: bool
  send_broadcasts :: bool
  dont_route :: bool
  prefer_unicast :: bool
  mtu :: nat
  default_route :: bool
  local_echo :: bool
  if_destination :: nat
  point_to_point :: bool
  other_device :: "nat option"
  if_address :: socket_address
  netmask :: u32
  recv_count :: int
  tx_count :: int
  radio_tx_packet :: bool

section \<open>Frames and contexts\<close>

record packet_destination =
  sent_sequence :: int
  transmit_time :: int
  pd_destination :: nat
  pd_next_hop :: "nat option"

record overlay_frame =
  enqueued_at :: int
  frame_type :: nat
  modifiers :: nat
  ttl :: nat
  frame_queue :: nat
  resend :: int
  send_hook :: "nat option"
  delay_until :: int
  destinations :: "packet_destination list"
  transmit_count :: int
  mdp_sequence :: int
  source :: "nat option"
  frame_destination :: "nat option"
  broadcast_id :: "u8 list"
  frame_next_hop :: "nat option"
  source_full :: bool
  frame_interface :: "nat option"
  frame_unicast :: bool
  frame_packet_version :: int
  sender_interface :: int
  payload :: "overlay_buffer option"

text \<open>The frame \<^verbatim>\<open>emalloc_zero\<close> or \<^verbatim>\<open>bzero\<close> gives.\<close>

definition zero_frame :: overlay_frame where
  "zero_frame = \<lparr>enqueued_at = 0, frame_type = 0, modifiers = 0, ttl = 0, frame_queue = 0, resend = 0, send_hook = None,
     delay_until = 0, destinations = [], transmit_count = 0, mdp_sequence = 0, source = None, frame_destination = None,
     broadcast_id = replicate BROADCAST_LEN 0, frame_next_hop = None, source_full = False, frame_interface = None,
     frame_unicast = False, frame_packet_version = 0, sender_interface = 0, payload = None\<rparr>"

text \<open>
  \<open>header_flag\<close> is the union of \<^verbatim>\<open>invalid_addresses\<close>, used while decoding, and \<^verbatim>\<open>encoding_header\<close>, used
  while encoding.
\<close>

record decode_context =
  ctx_interface :: "nat option"
  ctx_sender_interface :: int
  ctx_packet_version :: int
  ctx_encapsulation :: int
  ctx_addr :: socket_address
  header_flag :: bool
  please_explain :: "overlay_frame option"
  sender :: "nat option"
  previous :: "nat option"
  point_to_point_device :: "nat option"

definition zero_context :: decode_context where
  "zero_context = \<lparr>ctx_interface = None, ctx_sender_interface = 0, ctx_packet_version = 0, ctx_encapsulation = 0,
     ctx_addr = \<lparr>sa_family = 0, sin_addr = 0, sin_port = 0\<rparr>, header_flag = False, please_explain = None,
     sender = None, previous = None, point_to_point_device = None\<rparr>"

section \<open>Routing\<close>

text \<open>
  A link is known by the neighbour that told of it and the subscriber it leads to, a neighbour by its
  subscriber.  \<open>in_at\<close> is the address of an incoming link, which \<open>best_link\<close> may point to.
\<close>

record link =
  transmitter :: "nat option"
  parent :: "nat option"
  link_destination :: "nat option"
  receiver :: nat
  last_ack_seq :: int
  path_version :: u8
  link_version :: u8
  drop_rate :: u8
  hop_count :: int
  path_drop_rate :: int
  calculating :: bool

datatype link_tree = No_Link | Link_Node (left_links: link_tree) (link_of: link) (right_links: link_tree)

record link_in =
  in_at :: nat
  in_interface :: nat
  neighbour_interface :: int
  link_timeout :: int
  in_unicast :: int
  ack_sequence :: int
  ack_mask :: u64
  ack_counter :: int

record link_out =
  out_timeout :: int
  out_destination :: nat

record neighbour =
  nb_subscriber :: nat
  nb_path_version :: u8
  link_in_timeout :: int
  using_us :: bool
  legacy_protocol :: bool
  routing_through_us :: int
  mdp_ack_sequence :: int
  mdp_ack_mask :: u64
  next_neighbour_update :: int
  last_update :: int
  last_update_seq :: int
  rtt :: int
  root_links :: link_tree
  in_links :: "link_in list"
  best_link :: "nat option"
  out_links :: "link_out list"

record link_state =
  ls_next_hop :: "nat option"
  ls_transmitter :: "nat option"
  ls_hop_count :: int
  ls_route_version :: int
  ls_link :: "(nat \<times> nat) option"
  ls_calculating :: bool
  next_update :: int

section \<open>Queues and the whole state\<close>

record overlay_txqueue =
  frames :: "overlay_frame list"
  maxLength :: int
  small_packet_grace_interval :: int
  latencyTarget :: int

record mesh =
  tree :: tree_node
  subs :: "subscriber list"
  my_subscriber :: "nat option"
  directory_service :: "nat option"
  interfaces :: "overlay_interface list"
  dests :: "network_destination list"
  links :: "link_state list"
  neighbours :: "neighbour list"
  route_version :: int
  queue :: fdqueue
  bpilist :: "u8 list list"
  overlay_tx :: "overlay_txqueue list"
  mdp_seq :: int
  olsr_fd :: int
  rhizome_voice_timeout :: int

text \<open>
  Memory: \<open>blocks\<close> allocates the bytes of buffers, \<open>objects\<close> says whether the allocation of an object of
  the given type succeeds, and \<open>nodes\<close> the same for what the subscriber tree allocates at a depth.
\<close>

datatype heap_object = New_Frame | New_Destination | New_Link_State | New_Neighbour | New_Link | New_Link_In | New_Link_Out
  | New_Packet_Rule | New_Msp_Packet | New_Msp_Sock

record heap =
  blocks :: allocator
  objects :: "heap_object \<Rightarrow> bool"
  nodes :: "nat \<Rightarrow> bool"

text \<open>Addresses of the static alarms.\<close>

definition LINK_SEND :: nat where "LINK_SEND = 0"
definition RHIZOME_SYNC_ANNOUNCE :: nat where "RHIZOME_SYNC_ANNOUNCE = 1"
definition NEXT_PACKET :: nat where "NEXT_PACKET = 2"

abbreviation sub :: "mesh \<Rightarrow> nat \<Rightarrow> subscriber" where
  "sub g a \<equiv> subs g ! a"

definition set_sub :: "nat \<Rightarrow> subscriber \<Rightarrow> mesh \<Rightarrow> mesh" where
  "set_sub a s g = g\<lparr>subs := (subs g)[a := s]\<rparr>"

definition set_dest :: "nat \<Rightarrow> network_destination \<Rightarrow> mesh \<Rightarrow> mesh" where
  "set_dest d x g = g\<lparr>dests := (dests g)[d := x]\<rparr>"

end
