(* ===== verification/Link_Tree.thy ===== *)
theory Link_Tree
  imports Mesh_State "HOL-Library.List_Lexorder"
begin

text \<open>
  The links a neighbour has told us of, in \<^verbatim>\<open>route_link.c\<close>: an unbalanced search tree ordered by the id
  of the receiver, and the score of the path each link is the last hop of.
\<close>

section \<open>The search tree\<close>

text \<open>\<^verbatim>\<open>cmp_sid_t(a, b) < 0\<close>: byte order, as \<^verbatim>\<open>memcmp\<close> has it.\<close>

definition sid_less :: "u8 list \<Rightarrow> u8 list \<Rightarrow> bool" where
  "sid_less s t \<longleftrightarrow> map unat s < map unat t"

definition new_link :: "u8 \<Rightarrow> nat \<Rightarrow> link" where
  "new_link version r = \<lparr>transmitter = None, parent = None, link_destination = None, receiver = r, last_ack_seq = - 1,
     path_version = version - 1, link_version = - 1, drop_rate = 0, hop_count = 0, path_drop_rate = 0, calculating = False\<rparr>"

text \<open>
  Searching, and making a link when \<open>create\<close> is set.  \<open>ss\<close> is the subscriber table and \<open>version\<close> the
  path version of the neighbour.
\<close>

fun find_link :: "subscriber list \<Rightarrow> u8 \<Rightarrow> nat \<Rightarrow> bool \<Rightarrow> link_tree \<Rightarrow> link option \<times> link_tree" where
  "find_link ss version r create No_Link =
     (if create then (Some (new_link version r), Link_Node No_Link (new_link version r) No_Link) else (None, No_Link))"
| "find_link ss version r create (Link_Node left l right) =
     (if r = receiver l then (Some l, Link_Node left l right)
      else if sid_less (sid (ss ! r)) (sid (ss ! receiver l))
      then (let (x, left) = find_link ss version r create left in (x, Link_Node left l right))
      else (let (x, right) = find_link ss version r create right in (x, Link_Node left l right)))"

text \<open>Looking a link up, and writing through a pointer to a link.\<close>

fun get_link :: "link_tree \<Rightarrow> nat \<Rightarrow> link option" where
  "get_link No_Link r = None"
| "get_link (Link_Node left l right) r =
     (if receiver l = r then Some l else case get_link left r of Some x \<Rightarrow> Some x | None \<Rightarrow> get_link right r)"

fun set_link :: "link \<Rightarrow> link_tree \<Rightarrow> link_tree" where
  "set_link x No_Link = No_Link"
| "set_link x (Link_Node left l right) =
     Link_Node (set_link x left) (if receiver l = receiver x then x else l) (set_link x right)"

fun receivers :: "link_tree \<Rightarrow> nat set" where
  "receivers No_Link = {}"
| "receivers (Link_Node left l right) = insert (receiver l) (receivers left \<union> receivers right)"

fun tree_ok :: "subscriber list \<Rightarrow> link_tree \<Rightarrow> bool" where
  "tree_ok ss No_Link \<longleftrightarrow> True"
| "tree_ok ss (Link_Node left l right) \<longleftrightarrow> tree_ok ss left \<and> tree_ok ss right
     \<and> (\<forall>r \<in> receivers left. sid_less (sid (ss ! r)) (sid (ss ! receiver l)))
     \<and> (\<forall>r \<in> receivers right. sid_less (sid (ss ! receiver l)) (sid (ss ! r)))"

lemma sid_less_irrefl [simp]: "\<not> sid_less s s"
  by (simp add: sid_less_def)

lemma sid_less_trans: "sid_less s t \<Longrightarrow> sid_less t u \<Longrightarrow> sid_less s u"
  by (auto simp: sid_less_def)

lemma map_unat_inj: "map unat s = map unat t \<longleftrightarrow> s = (t :: u8 list)"
  by (rule inj_map_eq_map) (meson injI word_unat_eq_iff)

lemma sid_less_linear: "s \<noteq> t \<Longrightarrow> \<not> sid_less s t \<Longrightarrow> sid_less t s"
  unfolding sid_less_def using map_unat_inj by (meson linorder_neqE)

lemma get_link_None: "get_link t r = None \<longleftrightarrow> r \<notin> receivers t"
  by (induction t) (auto split: option.splits)

lemma get_link_receiver: "get_link t r = Some l \<Longrightarrow> receiver l = r"
  by (induction t) (auto split: option.splits if_splits)

lemma tree_ok_disjoint:
  "tree_ok ss (Link_Node left l right) \<Longrightarrow> r \<in> receivers left \<Longrightarrow> r \<noteq> receiver l \<and> r \<notin> receivers right"
  by auto (metis sid_less_irrefl sid_less_trans)+

lemma get_link_left: "r \<noteq> receiver l \<Longrightarrow> r \<notin> receivers right \<Longrightarrow> get_link (Link_Node left l right) r = get_link left r"
  using get_link_None [of right r] by (auto split: option.splits)

lemma get_link_right: "r \<noteq> receiver l \<Longrightarrow> r \<notin> receivers left \<Longrightarrow> get_link (Link_Node left l right) r = get_link right r"
  using get_link_None [of left r] by (auto split: option.splits)

text \<open>A search finds what is there, makes what is not, and touches nothing else.\<close>

lemma find_link_get:
  assumes "tree_ok ss t" and "\<And>q. q \<in> receivers t \<Longrightarrow> sid (ss ! q) = sid (ss ! r) \<Longrightarrow> q = r"
  shows "find_link ss version r create t = (x, t') \<Longrightarrow>
     x = (case get_link t r of Some l \<Rightarrow> Some l | None \<Rightarrow> if create then Some (new_link version r) else None)
     \<and> (\<forall>q. get_link t' q = (if q = r then x else get_link t q))
     \<and> receivers t' = receivers t \<union> (if create then {r} else {}) \<and> tree_ok ss t'"
  using assms
proof (induction t arbitrary: x t')
  case No_Link
  then show ?case by (auto simp: new_link_def)
next
  case (Link_Node left l right)
  note uniq = Link_Node.prems(3)
  show ?case
  proof (cases "r = receiver l")
    case True
    then show ?thesis using Link_Node.prems(1,2) by (auto split: option.splits)
  next
    case ne: False
    show ?thesis
    proof (cases "sid_less (sid (ss ! r)) (sid (ss ! receiver l))")
      case True
      obtain left' where f: "find_link ss version r create left = (x, left')" and t': "t' = Link_Node left' l right"
        using Link_Node.prems(1) ne True by (auto split: prod.splits)
      have ih: "x = (case get_link left r of Some l \<Rightarrow> Some l | None \<Rightarrow> if create then Some (new_link version r) else None)"
          "\<forall>q. get_link left' q = (if q = r then x else get_link left q)"
          "receivers left' = receivers left \<union> (if create then {r} else {})" "tree_ok ss left'"
        using Link_Node.IH(1) [OF f] Link_Node.prems(2) uniq by auto
      have r: "r \<notin> receivers right"
      proof
        assume "r \<in> receivers right"
        then have "sid_less (sid (ss ! receiver l)) (sid (ss ! r))" using Link_Node.prems(2) by simp
        then show False using True sid_less_trans sid_less_irrefl by blast
      qed
      have "get_link t' q = (if q = r then x else get_link (Link_Node left l right) q)" for q
      proof (cases "q = r")
        case True
        then show ?thesis using ih(2) get_link_left [OF ne r] by (simp add: t')
      next
        case False
        then show ?thesis using ih(2) by (simp add: t')
      qed
      moreover have "receivers t' = receivers (Link_Node left l right) \<union> (if create then {r} else {})"
        using ih(3) by (auto simp: t')
      moreover have "tree_ok ss t'" using ih(3,4) True Link_Node.prems(2) by (auto simp: t' split: if_splits)
      ultimately show ?thesis using ih(1) get_link_left [OF ne r] by simp
    next
      case False
      obtain right' where f: "find_link ss version r create right = (x, right')" and t': "t' = Link_Node left l right'"
        using Link_Node.prems(1) ne False by (auto split: prod.splits)
      have ih: "x = (case get_link right r of Some l \<Rightarrow> Some l | None \<Rightarrow> if create then Some (new_link version r) else None)"
          "\<forall>q. get_link right' q = (if q = r then x else get_link right q)"
          "receivers right' = receivers right \<union> (if create then {r} else {})" "tree_ok ss right'"
        using Link_Node.IH(2) [OF f] Link_Node.prems(2) uniq by auto
      have gt: "sid_less (sid (ss ! receiver l)) (sid (ss ! r))"
        using False ne uniq [of "receiver l"] sid_less_linear by force
      have r: "r \<notin> receivers left" using False Link_Node.prems(2) by auto
      have "get_link t' q = (if q = r then x else get_link (Link_Node left l right) q)" for q
      proof (cases "q = r")
        case True
        then show ?thesis using ih(2) get_link_right [OF ne r] by (simp add: t')
      next
        case False
        then show ?thesis using ih(2) by (simp add: t' split: option.splits)
      qed
      moreover have "receivers t' = receivers (Link_Node left l right) \<union> (if create then {r} else {})"
        using ih(3) by (auto simp: t')
      moreover have "tree_ok ss t'" using ih(3,4) gt Link_Node.prems(2) by (auto simp: t' split: if_splits)
      ultimately show ?thesis using ih(1) get_link_right [OF ne r] by simp
    qed
  qed
qed

lemma receivers_set_link [simp]: "receivers (set_link x t) = receivers t"
  by (induction t) auto

lemma tree_ok_set_link [simp]: "tree_ok ss (set_link x t) = tree_ok ss t"
  by (induction t) auto

lemma get_set_link_other [simp]: "q \<noteq> receiver x \<Longrightarrow> get_link (set_link x t) q = get_link t q"
  by (induction t) (auto split: option.splits)

lemma get_set_link_same: "get_link (set_link x t) (receiver x) = (if receiver x \<in> receivers t then Some x else None)"
proof (induction t)
  case (Link_Node left l right)
  then show ?case by simp
qed simp


section \<open>Path scores\<close>

text \<open>
  \<open>get_parent\<close> on the link to \<open>r\<close> of the neighbour \<open>nb\<close>: the receiver of the parent link, with the tree
  after the pointer has been cached.
\<close>

definition get_parent :: "subscriber list \<Rightarrow> nat \<Rightarrow> u8 \<Rightarrow> link \<Rightarrow> link_tree \<Rightarrow> nat option \<times> link_tree" where
  "get_parent ss nb version l t =
     (case transmitter l of
        None \<Rightarrow> (None, t)
      | Some p \<Rightarrow>
          if receiver l = nb then (None, t)
          else (case parent l of
                  Some q \<Rightarrow> (Some q, t)
                | None \<Rightarrow> (let q = map_option receiver (fst (find_link ss version p False t))
                          in (q, set_link (l\<lparr>parent := q\<rparr>) t))))"

text \<open>
  The hops and drops of the path a link ends, from its parent; \<open>update\<close> brings the parent up to date.
  \<^const>\<open>None\<close> is a pointer to a link that is not there, or a run out of fuel.
\<close>

definition path_so_far :: "(nat \<Rightarrow> link_tree \<Rightarrow> link_tree run) \<Rightarrow> nat option \<Rightarrow> subscriber list \<Rightarrow> nat \<Rightarrow> u8 \<Rightarrow> link \<Rightarrow> link_tree
    \<Rightarrow> (int \<times> int \<times> link_tree) run" where
  "path_so_far update my ss nb version l t =
     (if transmitter l = my then Some (if receiver l = nb then 1 else - 1, 0, t)
      else (case get_parent ss nb version l t of
              (None, t) \<Rightarrow> Some (- 1, 0, t)
            | (Some p, t) \<Rightarrow> do {
                pl \<leftarrow> get_link t p;
                if calculating pl then Some (- 1, 0, t)
                else do {
                  t \<leftarrow> update p t;
                  pl \<leftarrow> get_link t p;
                  Some (if hop_count pl > 0 then (hop_count pl + 1, path_drop_rate pl, t) else (- 1, 0, t)) } }))"

text \<open>The recursion goes from a link to its parent; \<open>fuel\<close> bounds its depth.\<close>

fun update_path_score :: "nat \<Rightarrow> nat option \<Rightarrow> subscriber list \<Rightarrow> nat \<Rightarrow> u8 \<Rightarrow> nat \<Rightarrow> link_tree \<Rightarrow> link_tree run" where
  "update_path_score 0 my ss nb version r t = None"
| "update_path_score (Suc fuel) my ss nb version r t = do {
     l \<leftarrow> get_link t r;
     if path_version l = version then Some t
     else if calculating l then Some t
     else do {
       (hops, drops, t) \<leftarrow> path_so_far (\<lambda>p t. update_path_score fuel my ss nb version p t) my ss nb version
           (l\<lparr>calculating := True\<rparr>) (set_link (l\<lparr>calculating := True\<rparr>) t);
       l \<leftarrow> get_link t r;
       let drops = (if drop_rate l > 2 then drops + uint (drop_rate l) else drops);
       Some (set_link (l\<lparr>hop_count := hops, path_version := version, path_drop_rate := drops, calculating := False\<rparr>) t) } }"

text \<open>
  The reference: how many hops a path has that starts with our own link to the neighbour and follows
  the transmitters the neighbour told us of.
\<close>

definition up :: "nat option \<Rightarrow> nat \<Rightarrow> link_tree \<Rightarrow> nat \<Rightarrow> nat option" where
  "up my nb t r = (case get_link t r of None \<Rightarrow> None
     | Some l \<Rightarrow> if transmitter l = my \<or> r = nb then None
                else (case transmitter l of None \<Rightarrow> None | Some p \<Rightarrow> if p \<in> receivers t then Some p else None))"

definition direct :: "nat option \<Rightarrow> nat \<Rightarrow> link_tree \<Rightarrow> nat \<Rightarrow> bool" where
  "direct my nb t r \<longleftrightarrow> r = nb \<and> (\<exists>l. get_link t r = Some l \<and> transmitter l = my)"

inductive hops :: "(nat \<Rightarrow> nat option) \<Rightarrow> (nat \<Rightarrow> bool) \<Rightarrow> nat \<Rightarrow> int \<Rightarrow> bool" for u d where
  hops_direct: "d r \<Longrightarrow> hops u d r 1"
| hops_up: "u r = Some p \<Longrightarrow> hops u d p n \<Longrightarrow> hops u d r (n + 1)"

lemma hops_pos: "hops u d r n \<Longrightarrow> 1 \<le> n"
  by (induction rule: hops.induct) auto

lemma hops_step:
  assumes "hops u d r n" and "u r = Some p" and "\<And>r. d r \<Longrightarrow> u r = None"
  shows "hops u d p (n - 1)"
  using assms(1)
proof (cases rule: hops.cases)
  case hops_direct
  then show ?thesis using assms(2,3) by force
next
  case (hops_up q m)
  then show ?thesis using assms(2) by simp
qed

lemma hops_unique:
  assumes "\<And>r. d r \<Longrightarrow> u r = None"
  shows "hops u d r n \<Longrightarrow> hops u d r m \<Longrightarrow> n = m"
proof (induction arbitrary: m rule: hops.induct)
  case (hops_direct r)
  then have "u r = None" using assms by blast
  from hops_direct(2) show ?case by (cases rule: hops.cases) (simp_all add: \<open>u r = None\<close>)
next
  case (hops_up r p n)
  have "n = m - 1" by (rule hops_up(3)) (rule hops_step [OF hops_up(4,1) assms])
  then show ?case by simp
qed

definition up_rel :: "(nat \<Rightarrow> nat option) \<Rightarrow> (nat \<times> nat) set" where
  "up_rel u = {(r, p). u r = Some p}"

lemma hops_follow:
  assumes "(r, q) \<in> (up_rel u)\<^sup>+" and "hops u d r n" and "\<And>r. d r \<Longrightarrow> u r = None"
  shows "\<exists>m < n. hops u d q m"
  using assms(1,2)
proof (induction arbitrary: rule: trancl_induct)
  case (base y)
  then have "hops u d y (n - 1)" using hops_step assms(3) by (auto simp: up_rel_def)
  then show ?case by (intro exI [of _ "n - 1"]) simp
next
  case (step y z)
  then obtain m where m: "m < n" "hops u d y m" by blast
  then have "hops u d z (m - 1)" using step(2) hops_step assms(3) by (auto simp: up_rel_def)
  then show ?case using m(1) by (intro exI [of _ "m - 1"]) simp
qed

lemma hops_acyclic: "(r, r) \<in> (up_rel u)\<^sup>+ \<Longrightarrow> (\<And>r. d r \<Longrightarrow> u r = None) \<Longrightarrow> \<not> hops u d r n"
  using hops_follow hops_unique by (metis less_irrefl)


text \<open>\<open>h\<close> is the score of the link to \<open>r\<close>: its number of hops, or -1 without a path.\<close>

definition score_right :: "(nat \<Rightarrow> nat option) \<Rightarrow> (nat \<Rightarrow> bool) \<Rightarrow> nat \<Rightarrow> int \<Rightarrow> bool" where
  "score_right u d r h \<longleftrightarrow> (\<forall>n. hops u d r n \<longrightarrow> h = n) \<and> ((\<forall>n. \<not> hops u d r n) \<longrightarrow> h = - 1)"

text \<open>
  The state of a computation that started on the tree \<open>t0\<close>: only caches, scores and flags differ from
  it, cached parents are right, scores of the current version are right, and \<open>K\<close> is being computed.
\<close>

definition scoring :: "nat option \<Rightarrow> subscriber list \<Rightarrow> nat \<Rightarrow> u8 \<Rightarrow> link_tree \<Rightarrow> nat set \<Rightarrow> link_tree \<Rightarrow> bool" where
  "scoring my ss nb version t0 K t \<longleftrightarrow> tree_ok ss t \<and> receivers t = receivers t0
     \<and> (\<forall>r. map_option transmitter (get_link t r) = map_option transmitter (get_link t0 r))
     \<and> (\<forall>r l q. get_link t r = Some l \<longrightarrow> parent l = Some q \<longrightarrow> transmitter l = Some q \<and> q \<in> receivers t)
     \<and> (\<forall>r l. get_link t r = Some l \<longrightarrow> path_version l = version \<longrightarrow> score_right (up my nb t0) (direct my nb t0) r (hop_count l))
     \<and> (\<forall>r l. get_link t r = Some l \<longrightarrow> (calculating l \<longleftrightarrow> r \<in> K)) \<and> K \<subseteq> receivers t0"

lemma get_link_Some: "r \<in> receivers t \<Longrightarrow> \<exists>l. get_link t r = Some l"
  using get_link_None by fastforce

lemma get_link_in: "get_link t r = Some l \<Longrightarrow> r \<in> receivers t"
  by (metis get_link_None option.distinct(1))

lemma get_set_link: "get_link t r = Some l \<Longrightarrow> receiver x = r \<Longrightarrow> get_link (set_link x t) q = (if q = r then Some x else get_link t q)"
  using get_set_link_same [of x t] get_link_in by (cases "q = r") auto

lemma scoring_set:
  assumes "scoring my ss nb version t0 K t" and "get_link t r = Some l" and "receiver l' = r" and "transmitter l' = transmitter l"
    and "\<And>q. parent l' = Some q \<Longrightarrow> transmitter l' = Some q \<and> q \<in> receivers t"
    and "path_version l' = version \<Longrightarrow> score_right (up my nb t0) (direct my nb t0) r (hop_count l')"
    and "K' = (if calculating l' then insert r K else K - {r})"
  shows "scoring my ss nb version t0 K' (set_link l' t)"
proof -
  have g: "get_link (set_link l' t) q = (if q = r then Some l' else get_link t q)" for q
    by (rule get_set_link [OF assms(2,3)])
  have r: "r \<in> receivers t" using get_link_in [OF assms(2)] .
  have "map_option transmitter (get_link t0 r) = Some (transmitter l)"
    using assms(1,2) unfolding scoring_def by (metis option.simps(9))
  then show ?thesis
    using assms(1,2,4-) r unfolding scoring_def receivers_set_link tree_ok_set_link g by (auto split: if_splits)
qed

lemma up_same:
  assumes "receivers t = receivers t0" and "\<forall>r. map_option transmitter (get_link t r) = map_option transmitter (get_link t0 r)"
  shows "up my nb t r = up my nb t0 r" and "direct my nb t r = direct my nb t0 r"
  using assms(2) [rule_format, of r] unfolding up_def direct_def assms(1)
  by (cases "get_link t r"; cases "get_link t0 r"; auto)+

lemma direct_not_up: "direct my nb t r \<Longrightarrow> up my nb t r = None"
  by (auto simp: direct_def up_def)

lemma hops_none: "u r = None \<Longrightarrow> \<not> d r \<Longrightarrow> \<not> hops u d r n"
  by (auto elim: hops.cases)

lemma score_right_up:
  assumes "u r = Some p" and "score_right u d p h" and "\<And>r. d r \<Longrightarrow> u r = None"
  shows "score_right u d r (if h > 0 then h + 1 else - 1)"
proof (cases "\<exists>n. hops u d p n")
  case True
  then obtain n where n: "hops u d p n" by blast
  then have "h = n" "hops u d r (n + 1)" using assms(1,2) hops_up by (auto simp: score_right_def)
  then show ?thesis using hops_unique [OF assms(3)] hops_pos [OF n] by (force simp: score_right_def)
next
  case False
  then have "h = - 1" using assms(2) by (simp add: score_right_def)
  moreover have "\<not> hops u d r n" for n using hops_step [of u d r n p] assms(1,3) False by blast
  ultimately show ?thesis by (simp add: score_right_def)
qed

text \<open>Transmitters are subscribers with ids of their own.\<close>

definition ids_ok :: "subscriber list \<Rightarrow> link_tree \<Rightarrow> bool" where
  "ids_ok ss t \<longleftrightarrow> (\<forall>r l p. get_link t r = Some l \<longrightarrow> transmitter l = Some p \<longrightarrow>
     (\<forall>q \<in> receivers t. sid (ss ! q) = sid (ss ! p) \<longrightarrow> q = p))"

lemma scoring_transmitter:
  "scoring my ss nb version t0 K t \<Longrightarrow> get_link t r = Some l \<Longrightarrow> \<exists>l0. get_link t0 r = Some l0 \<and> transmitter l0 = transmitter l"
  unfolding scoring_def by (metis map_option_eq_Some)

lemma get_parent_ok:
  assumes s: "scoring my ss nb version t0 K t" and l: "get_link t r = Some l" and ids: "ids_ok ss t0"
    and my: "transmitter l \<noteq> my" and v: "path_version l \<noteq> version" and p: "get_parent ss nb version l t = (q, t')"
  shows "q = up my nb t0 r \<and> scoring my ss nb version t0 K t' \<and> (\<exists>l'. get_link t' r = Some l' \<and> path_version l' \<noteq> version)"
proof -
  have r: "receiver l = r" using get_link_receiver [OF l] .
  have rec: "receivers t = receivers t0" using s by (simp add: scoring_def)
  obtain l0 where l0: "get_link t0 r = Some l0" "transmitter l0 = transmitter l"
    using scoring_transmitter [OF s l] by blast
  have upr: "up my nb t0 r = (if r = nb then None else case transmitter l of None \<Rightarrow> None | Some p \<Rightarrow> if p \<in> receivers t then Some p else None)"
    using l0 my by (simp add: up_def rec split: option.splits)
  have K: "calculating l \<longleftrightarrow> r \<in> K" using s l by (simp add: scoring_def)
  show ?thesis
  proof (cases "transmitter l = None \<or> r = nb \<or> parent l \<noteq> None")
    case True
    have par: "parent l = Some a \<Longrightarrow> transmitter l = Some a \<and> a \<in> receivers t" for a using s l unfolding scoring_def by blast
    have "t' = t" "q = up my nb t0 r"
      using True p r upr par by (auto simp: get_parent_def split: option.splits if_splits)
    then show ?thesis using s l v by auto
  next
    case False
    then obtain a where a: "transmitter l = Some a" "parent l = None" "r \<noteq> nb" by auto
    have "tree_ok ss t" using s by (simp add: scoring_def)
    moreover have "sid (ss ! c) = sid (ss ! a) \<Longrightarrow> c = a" if "c \<in> receivers t" for c
      using ids l0 a(1) that unfolding ids_ok_def rec by metis
    ultimately have f: "fst (find_link ss version a False t) = get_link t a"
      using find_link_get [of ss t a version False] by (cases "find_link ss version a False t") (auto split: option.splits)
    have m: "map_option receiver (get_link t a) = (if a \<in> receivers t then Some a else None)"
      using get_link_receiver [of t a] get_link_None [of t a] by (cases "get_link t a") auto
    have q: "q = (if a \<in> receivers t then Some a else None)" "t' = set_link (l\<lparr>parent := q\<rparr>) t"
      using p a r f m by (auto simp: get_parent_def Let_def)
    have "scoring my ss nb version t0 K t'"
      unfolding q(2) by (rule scoring_set [OF s l]) (use r q(1) a v K in \<open>auto split: if_splits\<close>)
    moreover have "get_link t' r = Some (l\<lparr>parent := q\<rparr>)"
      unfolding q(2) using get_set_link [OF l, of "l\<lparr>parent := q\<rparr>" r] r by simp
    ultimately show ?thesis using q(1) upr a v by auto
  qed
qed

lemma finite_receivers [simp]: "finite (receivers t)"
  by (induction t) auto

lemma score_none: "u r = None \<Longrightarrow> \<not> d r \<Longrightarrow> score_right u d r (- 1)"
  by (simp add: score_right_def hops_none)

lemma score_cycle: "(r, r) \<in> (up_rel u)\<^sup>+ \<Longrightarrow> (\<And>r. d r \<Longrightarrow> u r = None) \<Longrightarrow> score_right u d r (- 1)"
  using hops_acyclic by (metis score_right_def)

lemma score_direct: "d r \<Longrightarrow> (\<And>r. d r \<Longrightarrow> u r = None) \<Longrightarrow> score_right u d r 1"
  using hops_unique [of d u r 1] hops_direct [of d r u] by (auto simp: score_right_def)

lemma score_finish:
  assumes "scoring my ss nb version t0 (insert r K) t" and "r \<notin> K" and "r \<in> receivers t0"
    and "score_right (up my nb t0) (direct my nb t0) r h"
  shows "\<exists>l. get_link t r = Some l \<and> (\<forall>c t'. t' = set_link (l\<lparr>hop_count := h, path_version := version, path_drop_rate := c, calculating := False\<rparr>) t
     \<longrightarrow> scoring my ss nb version t0 K t' \<and> (\<exists>l. get_link t' r = Some l \<and> path_version l = version))"
proof -
  have "r \<in> receivers t" using assms(1,3) by (simp add: scoring_def)
  then obtain l where l: "get_link t r = Some l" using get_link_Some by blast
  let ?l = "\<lambda>c. l\<lparr>hop_count := h, path_version := version, path_drop_rate := c, calculating := False\<rparr>"
  have rl: "receiver (?l c) = r" for c using get_link_receiver [OF l] by simp
  have par: "parent l = Some a \<Longrightarrow> transmitter l = Some a \<and> a \<in> receivers t" for a using assms(1) l unfolding scoring_def by blast
  have "scoring my ss nb version t0 K (set_link (?l c) t)" for c
    by (rule scoring_set [OF assms(1) l rl]) (use assms(2,4) par in auto)
  then show ?thesis using l get_set_link [OF l rl] by auto
qed

text \<open>A parent that is being computed already means that the links form a cycle.\<close>

lemma path_cycle:
  assumes "u r = Some p" and "p \<in> insert r K" and "\<forall>q\<in>K. (q, r) \<in> (up_rel u)\<^sup>+"
  shows "(r, r) \<in> (up_rel u)\<^sup>+"
proof -
  have edge: "(r, p) \<in> up_rel u" using assms(1) by (simp add: up_rel_def)
  show ?thesis
  proof (cases "p = r")
    case False
    then have "(p, r) \<in> (up_rel u)\<^sup>+" using assms(2,3) by auto
    then show ?thesis using edge by (meson trancl_into_trancl2)
  qed (use edge in auto)
qed

lemma path_so_far_ok:
  assumes ids: "ids_ok ss t0" and s: "scoring my ss nb version t0 (insert r K) t" and l: "get_link t r = Some l"
    and stale: "path_version l \<noteq> version" and K: "\<forall>q\<in>K. (q, r) \<in> (up_rel (up my nb t0))\<^sup>+"
    and update: "\<And>p t. \<lbrakk>scoring my ss nb version t0 (insert r K) t; p \<in> receivers t0; p \<notin> insert r K; up my nb t0 r = Some p\<rbrakk> \<Longrightarrow>
      \<exists>t'. update p t = Some t' \<and> scoring my ss nb version t0 (insert r K) t' \<and> (\<exists>l. get_link t' p = Some l \<and> path_version l = version)"
  shows "\<exists>h c t2. path_so_far update my ss nb version l t = Some (h, c, t2)
    \<and> score_right (up my nb t0) (direct my nb t0) r h \<and> scoring my ss nb version t0 (insert r K) t2"
proof -
  let ?u = "up my nb t0" and ?d = "direct my nb t0"
  note du = direct_not_up [of my nb t0]
  have rl: "receiver l = r" using get_link_receiver [OF l] .
  obtain l0 where l0: "get_link t0 r = Some l0" "transmitter l0 = transmitter l"
    using scoring_transmitter [OF s l] by blast
  show ?thesis
  proof (cases "transmitter l = my")
    case True
    then have "score_right ?u ?d r (if r = nb then 1 else - 1)"
      using l0 score_direct [of ?d r ?u, OF _ du] score_none [of ?u r ?d] by (auto simp: direct_def up_def)
    then show ?thesis using s True rl by (auto simp: path_so_far_def)
  next
    case False
    obtain q t2 where gp: "get_parent ss nb version l t = (q, t2)" by fastforce
    have q: "q = ?u r" and s2: "scoring my ss nb version t0 (insert r K) t2"
      using get_parent_ok [OF s l ids False stale gp] by auto
    show ?thesis
    proof (cases q)
      case None
      have "\<not> ?d r" using False l0 by (auto simp: direct_def)
      then show ?thesis using None False gp s2 q score_none [of ?u r ?d] by (simp add: path_so_far_def)
    next
      case (Some p)
      then have up: "?u r = Some p" and pr: "p \<in> receivers t0" using q by (auto simp: up_def split: option.splits if_splits)
      obtain pl where pl: "get_link t2 p = Some pl" using s2 pr get_link_Some by (metis scoring_def)
      have pc: "calculating pl \<longleftrightarrow> p \<in> insert r K" using s2 pl by (simp add: scoring_def)
      show ?thesis
      proof (cases "calculating pl")
        case True
        then show ?thesis using False gp Some pl s2 score_cycle [OF path_cycle [OF up _ K] du] pc by (simp add: path_so_far_def)
      next
        case nc: False
        then obtain t3 pl3 where t3: "update p t2 = Some t3" "scoring my ss nb version t0 (insert r K) t3"
            "get_link t3 p = Some pl3" "path_version pl3 = version"
          using update [OF s2 pr _ up] pc by blast
        have "score_right ?u ?d p (hop_count pl3)" using t3 by (simp add: scoring_def)
        from score_right_up [OF up this du] show ?thesis
          using nc False gp Some pl t3 by (auto simp: path_so_far_def)
      qed
    qed
  qed
qed

lemma update_path_score_ok:
  assumes ids: "ids_ok ss t0"
  shows "\<lbrakk>scoring my ss nb version t0 K t; r \<in> receivers t0; r \<notin> K; \<forall>q\<in>K. (q, r) \<in> (up_rel (up my nb t0))\<^sup>+;
      card (receivers t0 - K) < fuel\<rbrakk> \<Longrightarrow>
    \<exists>t'. update_path_score fuel my ss nb version r t = Some t' \<and> scoring my ss nb version t0 K t'
      \<and> (\<exists>l. get_link t' r = Some l \<and> path_version l = version)"
proof (induction fuel arbitrary: K r t)
  case (Suc fuel)
  obtain l where l: "get_link t r = Some l" using Suc.prems(1,2) get_link_Some by (metis scoring_def)
  have rl: "receiver l = r" using get_link_receiver [OF l] .
  have nc: "\<not> calculating l" using Suc.prems(1,3) l by (simp add: scoring_def)
  show ?case
  proof (cases "path_version l = version")
    case stale: False
    let ?l = "l\<lparr>calculating := True\<rparr>" and ?upd = "\<lambda>p t. update_path_score fuel my ss nb version p t"
    have par: "parent l = Some a \<Longrightarrow> transmitter l = Some a \<and> a \<in> receivers t" for a
      using Suc.prems(1) l unfolding scoring_def by blast
    have s1: "scoring my ss nb version t0 (insert r K) (set_link ?l t)"
      by (rule scoring_set [OF Suc.prems(1) l]) (use rl stale par in auto)
    have g1: "get_link (set_link ?l t) r = Some ?l" using get_set_link [OF l, of ?l r] rl by simp
    have "card (receivers t0 - insert r K) < card (receivers t0 - K)"
      by (rule psubset_card_mono) (use Suc.prems(2,3) in auto)
    then have c: "card (receivers t0 - insert r K) < fuel" using Suc.prems(5) by linarith
    have up: "\<forall>q\<in>insert r K. (q, p) \<in> (up_rel (up my nb t0))\<^sup>+" if "up my nb t0 r = Some p" for p
    proof -
      have "(r, p) \<in> up_rel (up my nb t0)" using that by (simp add: up_rel_def)
      then show ?thesis using Suc.prems(4) by (auto intro: trancl_into_trancl)
    qed
    obtain h d t2 where m: "path_so_far ?upd my ss nb version ?l (set_link ?l t) = Some (h, d, t2)"
        "score_right (up my nb t0) (direct my nb t0) r h" "scoring my ss nb version t0 (insert r K) t2"
      using path_so_far_ok [OF ids s1 g1 _ Suc.prems(4), of ?upd] stale Suc.IH [OF _ _ _ up c] by auto
    obtain l2 where l2: "get_link t2 r = Some l2" "\<And>c t'. t' = set_link (l2\<lparr>hop_count := h, path_version := version,
          path_drop_rate := c, calculating := False\<rparr>) t2 \<Longrightarrow> scoring my ss nb version t0 K t' \<and> (\<exists>l. get_link t' r = Some l \<and> path_version l = version)"
      using score_finish [OF m(3) Suc.prems(3,2) m(2)] by auto
    then show ?thesis using l stale nc m(1) by (simp add: Let_def)
  qed (use l Suc.prems(1) in auto)
qed simp


section \<open>Examples\<close>

lemma sample_sid_less:
  assumes "unat a < unat b"
  shows "sid_less (sample_sid a) (sample_sid b)"
proof -
  have "replicate 32 x = x # replicate 31 x" for x :: nat using replicate_Suc [of 31 x] by simp
  then show ?thesis unfolding sid_less_def sample_sid_def SID_SIZE_def map_replicate using assms by (metis Cons_less_Cons)
qed

definition sample_ids :: "subscriber list" where
  "sample_ids = map (\<lambda>b. new_subscriber (sample_sid b) 2) [0, 1, 2, 3, 4]"

definition sample_link :: "nat \<Rightarrow> nat \<Rightarrow> link" where
  "sample_link r p = (new_link 7 r)\<lparr>transmitter := Some p\<rparr>"

text \<open>The neighbour 1 hears us (0) and reaches 2; it also tells of 3 and 4, each through the other.\<close>

definition sample_links :: link_tree where
  "sample_links = Link_Node (Link_Node No_Link (sample_link 1 0) No_Link) (sample_link 2 1)
     (Link_Node No_Link (sample_link 3 4) (Link_Node No_Link (sample_link 4 3) No_Link))"

lemma sample_ids_sid [simp]:
  "sid (sample_ids ! 0) = sample_sid 0" "sid (sample_ids ! Suc 0) = sample_sid 1" "sid (sample_ids ! 2) = sample_sid 2"
  "sid (sample_ids ! 3) = sample_sid 3" "sid (sample_ids ! 4) = sample_sid 4"
  by (simp_all add: sample_ids_def new_subscriber_def)

lemma sample_link_simps [simp]:
  "receiver (sample_link r p) = r" "transmitter (sample_link r p) = Some p" "parent (sample_link r p) = None"
  "\<not> calculating (sample_link r p)" "path_version (sample_link r p) = 6"
  by (simp_all add: sample_link_def new_link_def)

lemma sample_links_ok: "tree_ok sample_ids sample_links"
  by (auto simp: sample_links_def intro!: sample_sid_less)

lemma sample_sid_inj: "sample_sid a = sample_sid b \<longleftrightarrow> a = b"
  by (simp add: sample_sid_def SID_SIZE_def)

lemma sample_links_ids: "ids_ok sample_ids sample_links"
  unfolding ids_ok_def by (auto simp: sample_links_def sample_sid_inj split: if_splits)

lemma sample_hops: "hops (up (Some 0) 1 sample_links) (direct (Some 0) 1 sample_links) 2 2"
proof -
  have "hops (up (Some 0) 1 sample_links) (direct (Some 0) 1 sample_links) 1 1"
    by (rule hops_direct) (simp add: direct_def sample_links_def)
  from hops_up [OF _ this, of 2] show ?thesis by (simp add: up_def sample_links_def)
qed


text \<open>
  A cached parent outlives a change of the transmitter: the path is then scored along a link that the
  neighbour no longer tells of.
\<close>

lemma get_parent_stale:
  "parent l = Some q \<Longrightarrow> transmitter l = Some p \<Longrightarrow> receiver l \<noteq> nb \<Longrightarrow> get_parent ss nb version l t = (Some q, t)"
  by (simp add: get_parent_def)

text \<open>
  C19: the unbalanced tree of links is a correct table.  For subscribers with distinct ids, a search
  finds the link to a receiver exactly when the tree has one; with \<open>create\<close> a missing link is made;
  every other link is left as it was and the tree stays ordered.
\<close>

theorem find_link_correct:
  assumes "distinct (map sid ss)" and "tree_ok ss t" and "receivers t \<subseteq> {..<length ss}" and "r < length ss"
    and "find_link ss version r create t = (x, t')"
  shows "x = (if r \<in> receivers t then get_link t r else if create then Some (new_link version r) else None)
    \<and> get_link t' r = x \<and> (\<forall>q. q \<noteq> r \<longrightarrow> get_link t' q = get_link t q) \<and> tree_ok ss t'"
proof -
  have "q = r" if "q \<in> receivers t" "sid (ss ! q) = sid (ss ! r)" for q
    using assms(1,3,4) that nth_eq_iff_index_eq [of "map sid ss" q r] by auto
  then have f: "x = (case get_link t r of Some l \<Rightarrow> Some l | None \<Rightarrow> if create then Some (new_link version r) else None)"
      "\<forall>q. get_link t' q = (if q = r then x else get_link t q)" "tree_ok ss t'"
    using find_link_get [OF assms(2) _ assms(5)] by auto
  then show ?thesis using get_link_None [of t r] by (auto split: option.splits)
qed

theorem find_link_correct_witness:
  "\<exists>t'. find_link sample_ids 7 0 True sample_links = (Some (new_link 7 0), t')
     \<and> get_link t' 0 = Some (new_link 7 0) \<and> get_link t' 4 = Some (sample_link 4 3) \<and> tree_ok sample_ids t'"
proof -
  obtain x t' where f: "find_link sample_ids 7 0 True sample_links = (x, t')" by fastforce
  have d: "distinct (map sid sample_ids)"
    by (simp add: sample_ids_def new_subscriber_def sample_sid_inj del: sample_ids_sid)
  have "receivers sample_links \<subseteq> {..<length sample_ids}" "0 \<notin> receivers sample_links"
    by (auto simp: sample_links_def sample_ids_def)
  then show ?thesis
    using find_link_correct [OF d sample_links_ok _ _ f] f by (simp add: sample_ids_def) (simp add: sample_links_def)
qed

end
