(* ===== verification/Bit_Count.thy ===== *)
theory Bit_Count
  imports Prelude
begin

text \<open>
  The bit counting routine of \<^verbatim>\<open>route_link.c\<close>, which counts all the bits of a word at once in wider and
  wider fields, and the proof that it counts them.
\<close>

definition NumberOfSetBits :: "u32 \<Rightarrow> u32" where
  "NumberOfSetBits i =
     (let i = i - (drop_bit 1 i AND 0x55555555);
          i = (i AND 0x33333333) + (drop_bit 2 i AND 0x33333333)
      in drop_bit 24 (((i + drop_bit 4 i) AND 0x0F0F0F0F) * 0x01010101))"

section \<open>Hexadecimal digits\<close>

primrec hex :: "int list \<Rightarrow> int" where
  "hex [] = 0"
| "hex (d # ds) = d + 16 * hex ds"

definition digits_ok :: "int list \<Rightarrow> bool" where
  "digits_ok ds \<longleftrightarrow> (\<forall>d \<in> set ds. 0 \<le> d \<and> d < 16)"

lemma bit_hex_digit:
  fixes d r :: int
  assumes "0 \<le> d" and "d < 16"
  shows "bit (d + 16 * r) n \<longleftrightarrow> (if n < 4 then bit d n else bit r (n - 4))"
proof -
  have "take_bit 4 d = d" using assms by (simp add: take_bit_int_eq_self_iff)
  then have "d + 16 * r = concat_bit 4 d r" by (simp add: concat_bit_eq push_bit_eq_mult)
  then show ?thesis by (simp add: bit_concat_bit_iff)
qed

lemma bit_small_digit: "0 \<le> d \<Longrightarrow> d < 2 ^ k \<Longrightarrow> bit d n \<Longrightarrow> n < k" for d :: int
  by (metis bit_take_bit_iff take_bit_int_eq_self_iff)

text \<open>A shift inside the digits, when the mask drops what comes in from the next digit.\<close>

lemma hex_shift_and_digit:
  fixes d r m s :: int
  assumes "0 \<le> d" and "d < 16" and "0 \<le> m" and "m < 2 ^ (4 - k)" and "k \<le> 4"
  shows "drop_bit k (d + 16 * r) AND (m + 16 * s) = (drop_bit k d AND m) + 16 * (drop_bit k r AND s)"
proof (rule bit_eqI)
  fix n
  have m16: "m < 16" using assms(4) power_increasing [of "4 - k" 4 "2::int"] by simp
  have "0 \<le> drop_bit k d AND m" by (simp add: assms)
  moreover have "drop_bit k d AND m < 16" using AND_upper2 [of m "drop_bit k d"] m16 assms(3) by linarith
  ultimately show "bit (drop_bit k (d + 16 * r) AND (m + 16 * s)) n = bit ((drop_bit k d AND m) + 16 * (drop_bit k r AND s)) n"
    using bit_small_digit [OF assms(3,4), of n] assms(5)
    by (auto simp: bit_and_iff bit_drop_bit_eq bit_hex_digit [OF assms(1,2)] bit_hex_digit [OF assms(3) m16] bit_hex_digit
        Nat.add_diff_assoc)
qed

lemma hex_shift_and:
  assumes "0 \<le> m" and "m < 2 ^ (4 - k)" and "k \<le> 4"
  shows "digits_ok ds \<Longrightarrow> drop_bit k (hex ds) AND hex (replicate (length ds) m) = hex (map (\<lambda>d. drop_bit k d AND m) ds)"
  by (induction ds) (simp_all add: digits_ok_def hex_shift_and_digit assms)

lemma hex_and: "digits_ok ds \<Longrightarrow> digits_ok ms \<Longrightarrow> length ds = length ms \<Longrightarrow> hex ds AND hex ms = hex (map2 (AND) ds ms)"
proof (induction ds ms rule: list_induct2')
  case (4 d ds m ms)
  then show ?case using hex_shift_and_digit [of d m 0 "hex ds" "hex ms"] by (simp add: digits_ok_def)
qed simp_all

lemma hex_diff: "hex (map f ds) - hex (map g ds) = hex (map (\<lambda>d. f d - g d) ds)"
  and hex_sum: "hex (map f ds) + hex (map g ds) = hex (map (\<lambda>d. f d + g d) ds)"
  by (induction ds) (simp_all add: algebra_simps)

lemma hex_bounds: "digits_ok ds \<Longrightarrow> 0 \<le> hex ds \<and> hex ds < 16 ^ length ds"
  by (induction ds) (auto simp: digits_ok_def)

lemma digit_cases:
  assumes "0 \<le> d" and "d < (16 :: int)"
  shows "d \<in> {0, 1, 2, 3, 4, 5, 6, 7, 8, 9, 10, 11, 12, 13, 14, 15}"
  using assms by simp presburger

section \<open>Counting in a digit\<close>

definition pairs :: "int \<Rightarrow> int" where
  "pairs d = d - (drop_bit 1 d AND 5)"

definition count_digit :: "int \<Rightarrow> int" where
  "count_digit d = (drop_bit 0 (pairs d) AND 3) + (drop_bit 2 (pairs d) AND 3)"

lemma pairs_digit: "0 \<le> d \<Longrightarrow> d < 16 \<Longrightarrow> 0 \<le> pairs d \<and> pairs d < 16"
  by (drule (1) digit_cases) (auto simp: pairs_def)

lemma count_digit:
  "0 \<le> d \<Longrightarrow> d < 16 \<Longrightarrow> count_digit d = of_bool (bit d 0) + of_bool (bit d 1) + of_bool (bit d 2) + of_bool (bit d 3)"
  by (drule (1) digit_cases) (auto simp: count_digit_def pairs_def)

lemma count_digit_le: "0 \<le> d \<Longrightarrow> d < 16 \<Longrightarrow> 0 \<le> count_digit d \<and> count_digit d \<le> 4"
  by (simp add: count_digit)

section \<open>Counting in a word\<close>

primrec hex_digits :: "nat \<Rightarrow> int \<Rightarrow> int list" where
  "hex_digits 0 x = []"
| "hex_digits (Suc m) x = x mod 16 # hex_digits m (x div 16)"

lemma length_hex_digits [simp]: "length (hex_digits m x) = m"
  by (induction m arbitrary: x) simp_all

lemma digits_ok_hex_digits [simp]: "digits_ok (hex_digits m x)"
  by (induction m arbitrary: x) (auto simp: digits_ok_def)

lemma hex_hex_digits: "0 \<le> x \<Longrightarrow> x < 16 ^ m \<Longrightarrow> hex (hex_digits m x) = x"
  by (induction m arbitrary: x) simp_all

lemma bit_div_16: "bit (x div 16) n \<longleftrightarrow> bit x (n + 4)" for x :: int
  using bit_drop_bit_eq [of 4 x] by (simp add: drop_bit_eq_div add.commute fun_eq_iff)

lemma bit_mod_16: "n < 4 \<Longrightarrow> bit (x mod 16) n \<longleftrightarrow> bit x n" for x :: int
  using bit_take_bit_iff [of 4 x n] by (simp add: take_bit_eq_mod)

lemma sum_lessThan_add: "(\<Sum>n<a + b. f n) = (\<Sum>n<a. f n) + (\<Sum>n<b. f (n + a))" for f :: "nat \<Rightarrow> int"
  by (induction b) (simp_all add: add.commute)

lemma count_hex_digits: "sum_list (map count_digit (hex_digits m x)) = (\<Sum>n<4 * m. of_bool (bit x n))"
proof (induction m arbitrary: x)
  case (Suc m)
  have "(\<Sum>n<4 * Suc m. of_bool (bit x n) :: int) = (\<Sum>n<4. of_bool (bit x n)) + (\<Sum>n<4 * m. of_bool (bit x (n + 4)))"
    using sum_lessThan_add [of "\<lambda>n. of_bool (bit x n) :: int" 4 "4 * m"] by (simp del: sum_of_bool_eq)
  moreover have "(\<Sum>n<4. of_bool (bit x n) :: int) = count_digit (x mod 16)"
    by (simp add: count_digit bit_mod_16 eval_nat_numeral del: sum_of_bool_eq)
  ultimately show ?case using Suc.IH [of "x div 16"] by (simp add: bit_div_16 del: sum_of_bool_eq)
qed simp

text \<open>The two narrow steps act on each digit.\<close>

lemma take_bit_hex: "digits_ok ds \<Longrightarrow> length ds = 8 \<Longrightarrow> take_bit 32 (hex ds) = hex ds"
  using hex_bounds [of ds] by (simp add: take_bit_int_eq_self_iff)

lemma narrow_steps:
  fixes i i1 :: u32
  assumes "digits_ok ds" and "length ds = 8" and "uint i = hex ds" and "i1 = i - (drop_bit 1 i AND 0x55555555)"
  shows "uint ((i1 AND 0x33333333) + (drop_bit 2 i1 AND 0x33333333)) = hex (map count_digit ds)"
proof -
  have ok: "digits_ok (map pairs ds)" "digits_ok (map count_digit ds)"
    using assms(1) pairs_digit count_digit_le by (force simp: digits_ok_def)+
  have m5: "0x55555555 = hex (replicate (length ds) 5)" and m3: "0x33333333 = hex (replicate (length (map pairs ds)) 3)"
    by (simp_all add: assms(2) eval_nat_numeral)
  have "uint (drop_bit 1 i AND 0x55555555) = hex (map (\<lambda>d. drop_bit 1 d AND 5) ds)"
    unfolding uint_and unsigned_drop_bit_eq assms(3) using hex_shift_and [OF _ _ _ assms(1), of 5 1] m5 take_bit_hex [OF assms(1,2)] by simp
  then have "uint i - uint (drop_bit 1 i AND 0x55555555) = hex (map pairs ds)"
    using hex_diff [of "\<lambda>d. d" ds "\<lambda>d. drop_bit 1 d AND 5"] by (simp add: assms(3) pairs_def [abs_def])
  then have i1: "uint i1 = hex (map pairs ds)"
    using hex_bounds [OF ok(1)] by (simp add: assms(2,4) uint_word_ariths)
  have "uint (i1 AND 0x33333333) = hex (map (\<lambda>d. drop_bit 0 (pairs d) AND 3) ds)"
    unfolding uint_and i1 using hex_shift_and [OF _ _ _ ok(1), of 3 0] m3 by (simp add: comp_def)
  moreover have "uint (drop_bit 2 i1 AND 0x33333333) = hex (map (\<lambda>d. drop_bit 2 (pairs d) AND 3) ds)"
    unfolding uint_and unsigned_drop_bit_eq i1 using hex_shift_and [OF _ _ _ ok(1), of 3 2] m3 take_bit_hex [OF ok(1)] by (simp add: assms(2) comp_def)
  ultimately have "uint (i1 AND 0x33333333) + uint (drop_bit 2 i1 AND 0x33333333) = hex (map count_digit ds)"
    using hex_sum by (simp add: count_digit_def [abs_def])
  then show ?thesis using hex_bounds [OF ok(2)] by (simp add: assms(2) uint_word_ariths)
qed

text \<open>The wide steps add the digits up.\<close>

lemma drop_digit: "0 \<le> d \<Longrightarrow> d < 16 \<Longrightarrow> drop_bit 4 (d + 16 * r) = r" for d r :: int
  by (simp add: drop_bit_eq_div)

lemma byte_sums:
  fixes e0 e1 e2 e3 :: int
  assumes "0 \<le> e0" "0 \<le> e1" "0 \<le> e2" "0 \<le> e3" and "e0 + e1 + e2 + e3 < 256"
  shows "((e0 + 256 * e1 + 65536 * e2 + 16777216 * e3) * 0x01010101) mod 4294967296 div 16777216 = e0 + e1 + e2 + e3"
proof -
  let ?low = "e0 + 256 * (e0 + e1) + 65536 * (e0 + e1 + e2)"
  let ?high = "(e1 + e2 + e3) + 256 * (e2 + e3) + 65536 * e3"
  have "(e0 + 256 * e1 + 65536 * e2 + 16777216 * e3) * 0x01010101 = ?low + 16777216 * (e0 + e1 + e2 + e3) + ?high * 4294967296"
    by simp
  moreover have "0 \<le> ?low" "?low < 16777216" using assms by auto
  moreover have "(?low + 16777216 * (e0 + e1 + e2 + e3)) mod 4294967296 = ?low + 16777216 * (e0 + e1 + e2 + e3)"
    using assms calculation(2,3) by (intro mod_pos_pos_trivial) auto
  moreover have "(?low + 16777216 * (e0 + e1 + e2 + e3)) div 16777216 = e0 + e1 + e2 + e3"
    using calculation(2,3) by simp
  ultimately show ?thesis by (simp only: mod_mult_self1)
qed

lemma wide_steps:
  fixes z :: u32
  assumes "uint z = hex [p0, p1, p2, p3, p4, p5, p6, p7]" and "\<forall>p \<in> {p0, p1, p2, p3, p4, p5, p6, p7}. 0 \<le> p \<and> p \<le> 4"
  shows "uint (drop_bit 24 (((z + drop_bit 4 z) AND 0x0F0F0F0F) * 0x01010101)) = p0 + p1 + p2 + p3 + p4 + p5 + p6 + p7"
proof -
  let ?ps = "[p0, p1, p2, p3, p4, p5, p6, p7]" and ?qs = "[p0 + p1, p1 + p2, p2 + p3, p3 + p4, p4 + p5, p5 + p6, p6 + p7, p7]"
  have ok: "digits_ok ?ps" "digits_ok ?qs" using assms(2) by (auto simp: digits_ok_def)
  have "uint (drop_bit 4 z) = hex (tl ?ps)"
    using drop_digit [of p0 "hex (tl ?ps)"] take_bit_hex [OF ok(1)] assms(2) by (simp add: unsigned_drop_bit_eq assms(1))
  then have "uint z + uint (drop_bit 4 z) = hex ?qs" by (simp add: assms(1))
  then have "uint (z + drop_bit 4 z) = hex ?qs" using hex_bounds [OF ok(2)] by (simp add: uint_word_ariths)
  then have "uint ((z + drop_bit 4 z) AND 0x0F0F0F0F) = hex ?qs AND hex [15, 0, 15, 0, 15, 0, 15, 0]" by (simp add: uint_and)
  also have "\<dots> = hex (map2 (AND) ?qs [15, 0, 15, 0, 15, 0, 15, 0])"
    by (rule hex_and [OF ok(2)]) (simp_all add: digits_ok_def)
  also have "\<dots> = (p0 + p1) + 256 * (p2 + p3) + 65536 * (p4 + p5) + 16777216 * (p6 + p7)"
  proof -
    have "q AND 15 = q" if "0 \<le> q" "q < 16" for q :: int
      using that take_bit_int_eq_self_iff [of 4 q] by (simp add: take_bit_eq_mask mask_eq_exp_minus_1)
    then show ?thesis using assms(2) by simp
  qed
  finally have "uint ((z + drop_bit 4 z) AND 0x0F0F0F0F) = \<dots>" .
  then have "uint (((z + drop_bit 4 z) AND 0x0F0F0F0F) * 0x01010101) div 16777216 = p0 + p1 + (p2 + p3) + (p4 + p5) + (p6 + p7)"
    using byte_sums [of "p0 + p1" "p2 + p3" "p4 + p5" "p6 + p7"] assms(2) by (simp only: uint_word_ariths) simp
  moreover have "uint (drop_bit 24 w) = uint w div 16777216" for w :: u32
    by (simp add: drop_bit_eq_div uint_div_distrib)
  ultimately show ?thesis by (simp only: add.assoc)
qed

lemma wide_steps_list:
  fixes z :: u32
  assumes "length ps = 8" and "uint z = hex ps" and "\<forall>p \<in> set ps. 0 \<le> p \<and> p \<le> 4"
  shows "uint (drop_bit 24 (((z + drop_bit 4 z) AND 0x0F0F0F0F) * 0x01010101)) = sum_list ps"
proof -
  obtain p0 p1 p2 p3 p4 p5 p6 p7 where ps: "ps = [p0, p1, p2, p3, p4, p5, p6, p7]"
    using assms(1) by (auto simp: eval_nat_numeral length_Suc_conv)
  have "uint (drop_bit 24 (((z + drop_bit 4 z) AND 0x0F0F0F0F) * 0x01010101)) = p0 + p1 + p2 + p3 + p4 + p5 + p6 + p7"
    by (rule wide_steps) (use assms(2,3) ps in simp_all)
  then show ?thesis unfolding ps by simp
qed

text \<open>C21: The parallel bit count of a 32 bit word is the number of its bits that are set.\<close>

theorem NumberOfSetBits_correct: "unat (NumberOfSetBits i) = card {n. bit i n}"
proof -
  let ?ds = "hex_digits 8 (uint i)"
  define i1 where "i1 = i - (drop_bit 1 i AND 0x55555555)"
  define z where "z = (i1 AND 0x33333333) + (drop_bit 2 i1 AND 0x33333333)"
  have hex: "uint i = hex ?ds" using hex_hex_digits [of "uint i" 8] uint_lt2p [of i] by simp
  have z: "uint z = hex (map count_digit ?ds)"
    unfolding z_def by (rule narrow_steps [OF digits_ok_hex_digits length_hex_digits hex i1_def])
  have le: "\<forall>d \<in> set ?ds. 0 \<le> count_digit d \<and> count_digit d \<le> 4"
    using digits_ok_hex_digits count_digit_le unfolding digits_ok_def by blast
  have "uint (NumberOfSetBits i) = sum_list (map count_digit ?ds)"
    unfolding NumberOfSetBits_def Let_def i1_def [symmetric] z_def [symmetric]
    by (rule wide_steps_list [OF _ z]) (use le in simp_all)
  also have "\<dots> = (\<Sum>n<32. of_bool (bit i n))" by (simp add: count_hex_digits bit_uint_iff del: hex_digits.simps)
  also have "\<dots> = int (card {n. bit i n})"
  proof -
    have "{..<32} \<inter> {n. bit i n} = {n. bit i n}" using bit_imp_le_length [of i] by auto
    then show ?thesis by simp
  qed
  finally have "int (unat (NumberOfSetBits i)) = int (card {n. bit i n})" by simp
  then show ?thesis by (simp only: of_nat_eq_iff)
qed

end
