(* ===== verification/Neighbours.thy ===== *)
theory Neighbours
  imports Link_Tree
begin

text \<open>
  Neighbours and the links to and from them, in \<^verbatim>\<open>route_link.c\<close>, with the choice of an interface in
  \<^verbatim>\<open>overlay_interface.c\<close>: reference counted network destinations, the record of a neighbour, the links it
  reaches us by and we reach it by, and the window in which its duplicate packets are recognised.
  Readings of the clock are arguments; all readings made in one call give the same time.
\<close>

section \<open>Choosing an interface\<close>

definition OVERLAY_INTERFACE_ETHERNET :: int where "OVERLAY_INTERFACE_ETHERNET = 1"
definition OVERLAY_INTERFACE_WIFI :: int where "OVERLAY_INTERFACE_WIFI = 2"
definition OVERLAY_INTERFACE_PACKETRADIO :: int where "OVERLAY_INTERFACE_PACKETRADIO = 3"

definition in_subnet :: "overlay_interface \<Rightarrow> u32 \<Rightarrow> bool" where
  "in_subnet i addr \<longleftrightarrow> netmask i AND addr = netmask i AND sin_addr (if_address i)"

fun overlay_interface_find_from :: "nat \<Rightarrow> overlay_interface list \<Rightarrow> u32 \<Rightarrow> bool \<Rightarrow> nat option \<Rightarrow> nat option" where
  "overlay_interface_find_from k [] addr return_default ret = ret"
| "overlay_interface_find_from k (i # is) addr return_default ret =
     (if state i \<noteq> INTERFACE_STATE_UP then overlay_interface_find_from (k + 1) is addr return_default ret
      else if sa_family (if_address i) = AF_INET \<and> in_subnet i addr then Some k
      else overlay_interface_find_from (k + 1) is addr return_default
             (if return_default \<and> default_route i then Some k else ret))"

definition overlay_interface_find :: "u32 \<Rightarrow> bool \<Rightarrow> mesh \<Rightarrow> nat option" where
  "overlay_interface_find addr return_default g = overlay_interface_find_from 0 (interfaces g) addr return_default None"

definition interface_type_priority :: "int \<Rightarrow> int" where
  "interface_type_priority ty =
     (if ty = OVERLAY_INTERFACE_ETHERNET then 1 else if ty = OVERLAY_INTERFACE_WIFI then 2
      else if ty = OVERLAY_INTERFACE_PACKETRADIO then 4 else 3)"

definition overlay_interface_compare :: "overlay_interface list \<Rightarrow> nat \<Rightarrow> nat \<Rightarrow> int" where
  "overlay_interface_compare is one two =
     (if one = two then 0
      else (let p1 = interface_type_priority (if_type (is ! one)); p2 = interface_type_priority (if_type (is ! two))
            in if p1 < p2 then - 1 else if p2 < p1 then 1 else 0))"

section \<open>Network destinations\<close>

definition zero_limit :: limit_state where
  "zero_limit = \<lparr>rate_micro_seconds = 0, burst_length = 0, burst_size = 0, sent = 0, next_interval = 0\<rparr>"

definition new_destination :: "heap \<Rightarrow> nat \<Rightarrow> int \<Rightarrow> mesh \<Rightarrow> nat option \<times> mesh" where
  "new_destination h iface encap g =
     (if objects h New_Destination
      then (Some (length (dests g)),
            g\<lparr>dests := dests g @ [\<lparr>ref_count = 1, dest_interface = iface,
              address = \<lparr>sa_family = 0, sin_addr = 0, sin_port = 0\<rparr>, unicast = False, dest_packet_version = 0,
              encapsulation = encap, last_tx = TIME_MS_NEVER_HAS, min_rtt = 0, max_rtt = 0, resend_delay = 1000,
              sequence_number = - 1, dest_last_ack_seq = - 1,
              transfer_limit = zero_limit,
              tick_ms = 0, reachable_timeout_ms = 0, freed = False\<rparr>]\<rparr>)
      else (None, g))"

definition create_unicast_destination :: "heap \<Rightarrow> socket_address \<Rightarrow> nat option \<Rightarrow> mesh \<Rightarrow> nat option \<times> mesh" where
  "create_unicast_destination h addr iface g =
     (let iface = (if iface = None \<and> sa_family addr = AF_INET then overlay_interface_find (sin_addr addr) True g else iface)
      in case iface of
           None \<Rightarrow> (None, g)
         | Some i \<Rightarrow>
             if state (interfaces g ! i) \<noteq> INTERFACE_STATE_UP then (None, g)
             else if sa_family addr = AF_INET \<and> (sin_addr addr = 0 \<or> sin_port addr = 0) then (None, g)
             else (case new_destination h i ENCAP_OVERLAY g of
                     (None, g) \<Rightarrow> (None, g)
                   | (Some d, g) \<Rightarrow>
                       (Some d, set_dest d ((dests g ! d)\<lparr>address := addr, unicast := True,
                          tick_ms := tick_ms (dests g ! if_destination (interfaces g ! i))\<rparr>) g)))"

definition add_destination_ref :: "nat \<Rightarrow> mesh \<Rightarrow> mesh" where
  "add_destination_ref d g = set_dest d ((dests g ! d)\<lparr>ref_count := ref_count (dests g ! d) + 1\<rparr>) g"

definition release_destination_ref :: "nat \<Rightarrow> mesh \<Rightarrow> mesh" where
  "release_destination_ref d g =
     (if ref_count (dests g ! d) \<le> 1 then set_dest d ((dests g ! d)\<lparr>freed := True\<rparr>) g
      else set_dest d ((dests g ! d)\<lparr>ref_count := ref_count (dests g ! d) - 1\<rparr>) g)"

text \<open>The pointer to set is passed by value; the result is whether it changed, its new value and the state.\<close>

definition set_destination_ref :: "nat option \<Rightarrow> nat option \<Rightarrow> mesh \<Rightarrow> bool \<times> nat option \<times> mesh" where
  "set_destination_ref ptr ref g =
     (if ref = ptr then (False, ptr, g)
      else (let g = (case ref of Some d \<Rightarrow> add_destination_ref d g | None \<Rightarrow> g);
                g = (case ptr of Some d \<Rightarrow> release_destination_ref d g | None \<Rightarrow> g)
            in (True, ref, g)))"

section \<open>Neighbours\<close>

definition on_queue :: "(fdqueue \<Rightarrow> fdqueue run) \<Rightarrow> mesh \<Rightarrow> mesh run" where
  "on_queue f g = map_option (\<lambda>q. g\<lparr>queue := q\<rparr>) (f (queue g))"

definition update_alarm :: "int \<Rightarrow> mesh \<Rightarrow> mesh run" where
  "update_alarm limit g =
     (if limit = 0 then None
      else if alarm (alarms (queue g) LINK_SEND) > limit
      then on_queue (RESCHEDULE LINK_SEND limit limit (limit + 20)) g
      else Some g)"

definition zero_link_state :: link_state where
  "zero_link_state = \<lparr>ls_next_hop = None, ls_transmitter = None, ls_hop_count = 0, ls_route_version = 0, ls_link = None,
     ls_calculating = False, next_update = 0\<rparr>"

text \<open>The pointer that is returned is never NULL: the source writes through it before.\<close>

definition get_link_state :: "heap \<Rightarrow> nat \<Rightarrow> mesh \<Rightarrow> (nat \<times> mesh) run" where
  "get_link_state h s g =
     (case link_state (sub g s) of
        Some a \<Rightarrow> Some (a, g)
      | None \<Rightarrow> do {
          c_assert (objects h New_Link_State);
          let a = length (links g);
          let g = g\<lparr>links := links g @ [zero_link_state\<lparr>ls_route_version := route_version g - 1\<rparr>]\<rparr>;
          Some (a, set_sub s ((sub g s)\<lparr>link_state := Some a\<rparr>) g) })"

definition first_neighbour_found :: "int \<Rightarrow> mesh \<Rightarrow> mesh run" where
  "first_neighbour_found now g = do {
     g \<leftarrow> on_queue (RESCHEDULE RHIZOME_SYNC_ANNOUNCE (now + 1000) (now + 5000) TIME_MS_NEVER_WILL) g;
     on_queue (RESCHEDULE LINK_SEND (now + 10) (now + 10) (now + 30)) g }"

definition find_neighbour :: "neighbour list \<Rightarrow> nat \<Rightarrow> neighbour option" where
  "find_neighbour ns s = find (\<lambda>n. nb_subscriber n = s) ns"

text \<open>Writing through a pointer to a neighbour.\<close>

definition set_neighbour :: "neighbour \<Rightarrow> mesh \<Rightarrow> mesh" where
  "set_neighbour n g = g\<lparr>neighbours := map (\<lambda>m. if nb_subscriber m = nb_subscriber n then n else m) (neighbours g)\<rparr>"

definition new_neighbour :: "int \<Rightarrow> nat \<Rightarrow> neighbour" where
  "new_neighbour now s = \<lparr>nb_subscriber = s, nb_path_version = 0, link_in_timeout = 0, using_us = False,
     legacy_protocol = False, routing_through_us = 0, mdp_ack_sequence = - 1, mdp_ack_mask = 0,
     next_neighbour_update = now + 10, last_update = 0, last_update_seq = - 1, rtt = 120, root_links = No_Link,
     in_links = [], best_link = None, out_links = []\<rparr>"

definition get_neighbour :: "heap \<Rightarrow> int \<Rightarrow> nat \<Rightarrow> bool \<Rightarrow> mesh \<Rightarrow> (neighbour option \<times> mesh) run" where
  "get_neighbour h now s create g =
     (case find_neighbour (neighbours g) s of
        Some n \<Rightarrow> Some (Some n, g)
      | None \<Rightarrow>
          if \<not> create then Some (None, g)
          else do {
            g \<leftarrow> (if neighbours g = [] then first_neighbour_found now g else Some g);
            c_assert (objects h New_Neighbour);
            let n = new_neighbour now s;
            Some (Some n, g\<lparr>neighbours := n # neighbours g\<rparr>) })"

definition link_has_neighbours :: "mesh \<Rightarrow> bool" where
  "link_has_neighbours g \<longleftrightarrow> neighbours g \<noteq> []"

section \<open>Incoming links\<close>

fun best_link_in :: "overlay_interface list \<Rightarrow> link_in \<Rightarrow> link_in list \<Rightarrow> link_in" where
  "best_link_in is best [] = best"
| "best_link_in is best (l # ls) =
     (let c = overlay_interface_compare is (in_interface best) (in_interface l)
      in best_link_in is (if c = - 1 then best
                          else if c = 0 \<and> in_unicast l < in_unicast best then best
                          else l) ls)"

definition neighbour_find_best_link :: "int \<Rightarrow> overlay_interface list \<Rightarrow> neighbour \<Rightarrow> neighbour" where
  "neighbour_find_best_link now is n =
     (let best = (case in_links n of [] \<Rightarrow> None | l # ls \<Rightarrow> Some (in_at (best_link_in is l ls)))
      in if best_link n \<noteq> best then n\<lparr>best_link := best, next_neighbour_update := now + 5\<rparr> else n)"

fun link_interface_has_neighbours_from :: "int \<Rightarrow> nat \<Rightarrow> overlay_interface list \<Rightarrow> neighbour list \<Rightarrow> bool \<times> neighbour list" where
  "link_interface_has_neighbours_from now i is [] = (False, [])"
| "link_interface_has_neighbours_from now i is (n # ns) =
     (let n = neighbour_find_best_link now is n
      in if (case best_link n of None \<Rightarrow> False | Some a \<Rightarrow> \<exists>l \<in> set (in_links n). in_at l = a \<and> in_interface l = i)
         then (True, n # ns)
         else (let (r, ns) = link_interface_has_neighbours_from now i is ns in (r, n # ns)))"

definition link_interface_has_neighbours :: "int \<Rightarrow> nat \<Rightarrow> mesh \<Rightarrow> bool \<times> mesh" where
  "link_interface_has_neighbours now i g =
     (let (r, ns) = link_interface_has_neighbours_from now i (interfaces g) (neighbours g) in (r, g\<lparr>neighbours := ns\<rparr>))"

text \<open>An address that no incoming link has and \<open>best_link\<close> does not hold.\<close>

definition fresh_link_in :: "neighbour \<Rightarrow> nat" where
  "fresh_link_in n = Suc (fold max (map in_at (in_links n)) (case best_link n of None \<Rightarrow> 0 | Some a \<Rightarrow> a))"

definition link_in_matches :: "nat \<Rightarrow> int \<Rightarrow> int \<Rightarrow> link_in \<Rightarrow> bool" where
  "link_in_matches i sender_iface uni l \<longleftrightarrow>
     in_interface l = i \<and> neighbour_interface l = sender_iface \<and> in_unicast l = uni"

definition get_neighbour_link :: "heap \<Rightarrow> overlay_interface list \<Rightarrow> nat \<Rightarrow> int \<Rightarrow> bool \<Rightarrow> neighbour \<Rightarrow> (link_in \<times> neighbour) run" where
  "get_neighbour_link h is i sender_iface uni n =
     (let uni = (if uni then if prefer_unicast (is ! i) then 1 else - 1 else 0)
      in case find (link_in_matches i sender_iface uni) (in_links n) of
           Some l \<Rightarrow> Some (l, n)
         | None \<Rightarrow> do {
             c_assert (objects h New_Link_In);
             let l = \<lparr>in_at = fresh_link_in n, in_interface = i, neighbour_interface = sender_iface, link_timeout = 0,
               in_unicast = uni, ack_sequence = - 1, ack_mask = 0, ack_counter = 0\<rparr>;
             Some (l, n\<lparr>in_links := l # in_links n\<rparr>) })"

text \<open>Writing through a pointer to an incoming link.\<close>

definition set_link_in :: "link_in \<Rightarrow> neighbour \<Rightarrow> neighbour" where
  "set_link_in l n = n\<lparr>in_links := map (\<lambda>m. if in_at m = in_at l then l else m) (in_links n)\<rparr>"

section \<open>Outgoing links\<close>

definition create_out_link :: "heap \<Rightarrow> int \<Rightarrow> nat \<Rightarrow> nat \<Rightarrow> socket_address option \<Rightarrow> bool \<Rightarrow> mesh \<Rightarrow> mesh run" where
  "create_out_link h now s iface addr uni g =
     (if \<not> objects h New_Link_Out then Some g
      else do {
        (d, g) \<leftarrow> (if uni then do {
                      addr \<leftarrow> addr;
                      Some (create_unicast_destination h addr (Some iface) g) }
                    else (let d = if_destination (interfaces g ! iface) in Some (Some d, add_destination_ref d g)));
        d \<leftarrow> d;
        n \<leftarrow> find_neighbour (neighbours g) s;
        let l = \<lparr>out_timeout = now + tick_ms (dests g ! d) * 3, out_destination = d\<rparr>;
        let g = set_neighbour (n\<lparr>out_links := l # out_links n\<rparr>) g;
        update_alarm (now + 5) g })"

definition create_out_links :: "heap \<Rightarrow> int \<Rightarrow> nat \<Rightarrow> nat \<Rightarrow> socket_address \<Rightarrow> mesh \<Rightarrow> mesh run" where
  "create_out_links h now s iface addr g = do {
     n \<leftarrow> find_neighbour (neighbours g) s;
     if \<exists>l \<in> set (out_links n). dest_interface (dests g ! out_destination l) = iface then Some g
     else do {
       g \<leftarrow> create_out_link h now s iface (Some addr) True g;
       let i = interfaces g ! iface;
       if sa_family addr \<noteq> AF_INET \<or> sin_addr addr AND netmask i = sin_addr (if_address i) AND netmask i
       then create_out_link h now s iface (Some addr) False g
       else Some g } }"

section \<open>Destinations of a frame\<close>

definition MAX_PACKET_DESTINATIONS :: nat where
  "MAX_PACKET_DESTINATIONS = OVERLAY_MAX_INTERFACES"

text \<open>
  The next element of the array \<^verbatim>\<open>destinations\<close>, which is zero until it is used; nothing is added when the
  array is full.
\<close>

definition add_packet_destination :: "nat \<Rightarrow> nat option \<Rightarrow> overlay_frame \<Rightarrow> mesh \<Rightarrow> overlay_frame \<times> mesh" where
  "add_packet_destination d nh f g =
     (if length (destinations f) < MAX_PACKET_DESTINATIONS
      then (f\<lparr>destinations := destinations f @
              [\<lparr>sent_sequence = 0, transmit_time = 0, pd_destination = d, pd_next_hop = nh\<rparr>]\<rparr>,
            add_destination_ref d g)
      else (f, g))"

fun add_out_links :: "int \<Rightarrow> nat \<Rightarrow> link_out list \<Rightarrow> overlay_frame \<Rightarrow> mesh \<Rightarrow> overlay_frame \<times> mesh" where
  "add_out_links now nh [] f g = (f, g)"
| "add_out_links now nh (l # ls) f g =
     (if out_timeout l \<ge> now
      then (let (f, g) = add_packet_destination (out_destination l) (Some nh) f g in add_out_links now nh ls f g)
      else add_out_links now nh ls f g)"

fun add_broadcast_destinations :: "bool list \<Rightarrow> neighbour list \<Rightarrow> overlay_frame \<Rightarrow> mesh \<Rightarrow> (overlay_frame \<times> mesh) run" where
  "add_broadcast_destinations added [] f g = Some (f, g)"
| "add_broadcast_destinations added (n # ns) f g =
     (let s = sub g (nb_subscriber n) in
      if reachable s AND REACHABLE_DIRECT = 0 then add_broadcast_destinations added ns f g
      else do {
        d \<leftarrow> destination s;
        let f = (if frame_packet_version f > max_packet_version s then f\<lparr>frame_packet_version := max_packet_version s\<rparr> else f);
        let i = dest_interface (dests g ! d);
        if unicast (dests g ! d)
        then (let (f, g) = add_packet_destination d None f g in add_broadcast_destinations added ns f g)
        else if \<not> send_broadcasts (interfaces g ! i) then add_broadcast_destinations added ns f g
        else do {
          c_assert (i < length added);
          if added ! i then add_broadcast_destinations added ns f g
          else (let (f, g) = add_packet_destination d None f g
                in add_broadcast_destinations (added[i := True]) ns f g) } })"

text \<open>Through which subscriber a frame for \<open>dst\<close> goes: the directory service helps with unreachable ones.\<close>

definition route_via :: "mesh \<Rightarrow> nat \<Rightarrow> nat" where
  "route_via g dst =
     (case directory_service g of
        Some ds \<Rightarrow>
          if reachable (sub g dst) = REACHABLE_NONE \<and> dst \<noteq> ds \<and> reachable (sub g ds) AND REACHABLE \<noteq> 0 then ds else dst
      | None \<Rightarrow> dst)"

definition link_add_destinations :: "int \<Rightarrow> overlay_frame \<Rightarrow> mesh \<Rightarrow> (overlay_frame \<times> mesh) run" where
  "link_add_destinations now f g =
     (case frame_destination f of
        Some dst \<Rightarrow>
          (let nh = route_via g dst;
               (f, g) = (if reachable (sub g nh) = REACHABLE_NONE
                         then (case find_neighbour (neighbours g) dst of
                                 Some n \<Rightarrow> add_out_links now nh (out_links n) f g
                               | None \<Rightarrow> (f, g))
                         else (f, g))
           in do {
             nh \<leftarrow> (if reachable (sub g nh) AND REACHABLE = REACHABLE_INDIRECT then next_hop (sub g nh) else Some nh);
             if reachable (sub g nh) AND REACHABLE_DIRECT \<noteq> 0
             then do {
               d \<leftarrow> destination (sub g nh);
               Some (add_packet_destination d (Some nh) f g) }
             else Some (f, g) })
      | None \<Rightarrow> add_broadcast_destinations (replicate OVERLAY_MAX_INTERFACES False) (neighbours g) f g)"

section \<open>Forwarding, acknowledging, explaining\<close>

text \<open>A NULL subscriber is no neighbour.\<close>

definition neighbour_of :: "mesh \<Rightarrow> nat option \<Rightarrow> neighbour option" where
  "neighbour_of g s = Option.bind s (find_neighbour (neighbours g))"

definition link_state_should_forward_broadcast :: "int \<Rightarrow> nat option \<Rightarrow> mesh \<Rightarrow> bool" where
  "link_state_should_forward_broadcast now s g =
     (case neighbour_of g s of
        None \<Rightarrow> True
      | Some n \<Rightarrow> \<not> (using_us n \<and> routing_through_us n < now))"

definition link_state_ack_soon :: "int \<Rightarrow> nat option \<Rightarrow> mesh \<Rightarrow> mesh run" where
  "link_state_ack_soon now s g =
     (case neighbour_of g s of
        None \<Rightarrow> Some g
      | Some n \<Rightarrow>
          (let x = sub g (nb_subscriber n) in
           case destination x of
             Some d \<Rightarrow>
               if using_us n \<and> reachable x AND REACHABLE_DIRECT \<noteq> 0
               then (let soon = now + 40 + min_rtt (dests g ! d);
                         n = (if next_neighbour_update n > soon then n\<lparr>next_neighbour_update := soon\<rparr> else n)
                     in update_alarm (next_neighbour_update n) (set_neighbour n g))
               else Some g
           | None \<Rightarrow> Some g))"

definition link_explained :: "heap \<Rightarrow> int \<Rightarrow> nat \<Rightarrow> mesh \<Rightarrow> mesh run" where
  "link_explained h now s g = do {
     (a, g) \<leftarrow> get_link_state h s g;
     update_alarm (now + 5) (g\<lparr>links := (links g)[a := (links g ! a)\<lparr>next_update := now + 5\<rparr>]\<rparr>) }"

definition link_stop_routing :: "int \<Rightarrow> nat \<Rightarrow> mesh \<Rightarrow> mesh run" where
  "link_stop_routing now s g =
     (if reachable (sub g s) \<noteq> REACHABLE_SELF then Some g
      else (let g = set_sub s ((sub g s)\<lparr>reachable := REACHABLE_NONE, identity := None\<rparr>) g;
                g = (if my_subscriber g = Some s then g\<lparr>my_subscriber := None\<rparr> else g)
            in case link_state (sub g s) of
                 Some a \<Rightarrow> update_alarm now (g\<lparr>links := (links g)[a := (links g ! a)\<lparr>next_update := now\<rparr>]\<rparr>)
               | None \<Rightarrow> Some g))"

section \<open>Duplicate packets\<close>

text \<open>
  \<^verbatim>\<open>1<<offset\<close> is an \<^verbatim>\<open>int\<close>: the shift has no meaning from 32 on, and the result is sign extended when it
  meets a 64 bit mask.
\<close>

definition shl_one :: "int \<Rightarrow> u64 run" where
  "shl_one offset = (if offset < 32 then Some (scast (push_bit (nat offset) (1 :: u32))) else None)"

definition duplicate_window :: "int \<Rightarrow> neighbour \<Rightarrow> (bool \<times> neighbour) run" where
  "duplicate_window payload_seq n =
     (if mdp_ack_sequence n = - 1 then Some (False, n\<lparr>mdp_ack_sequence := payload_seq\<rparr>)
      else if mdp_ack_sequence n = payload_seq then Some (True, n)
      else (let offset = (mdp_ack_sequence n - 1 - payload_seq) AND 0xFF in
            if offset < 64
            then do {
              b \<leftarrow> shl_one offset;
              if mdp_ack_mask n AND b \<noteq> 0 then Some (True, n)
              else Some (False, n\<lparr>mdp_ack_mask := mdp_ack_mask n OR b\<rparr>) }
            else (let offset = (payload_seq - mdp_ack_sequence n - 1) AND 0xFF in do {
              c_assert (offset < 64);
              let m = push_bit 1 (mdp_ack_mask n) OR 1;
              Some (False, n\<lparr>mdp_ack_mask := push_bit (nat offset) m, mdp_ack_sequence := payload_seq\<rparr>) })))"

definition link_received_duplicate :: "nat option \<Rightarrow> int \<Rightarrow> mesh \<Rightarrow> (bool \<times> mesh) run" where
  "link_received_duplicate s payload_seq g =
     (case neighbour_of g s of
        None \<Rightarrow> Some (False, g)
      | Some n \<Rightarrow> do {
          (dup, n) \<leftarrow> duplicate_window payload_seq n;
          Some (dup, set_neighbour n g) })"

section \<open>The window of sequence numbers\<close>

lemma and_0xFF: "x AND 0xFF = x mod 256" for x :: int
  using take_bit_eq_mask [of 8 x] by (simp add: mask_eq_exp_minus_1 and.commute take_bit_eq_mod)

lemma bit_shl_one:
  assumes "0 \<le> k" and "k < 31" and "shl_one k = Some b"
  shows "bit b i \<longleftrightarrow> i = nat k"
proof -
  have "b = scast (push_bit (nat k) (1 :: u32))" using assms by (simp add: shl_one_def)
  then show ?thesis using assms(1,2)
    by (auto simp: bit_signed_iff bit_exp_iff not_le min_def)
qed

lemma and_shl_one:
  assumes "0 \<le> k" and "k < 31" and "shl_one k = Some b"
  shows "m AND b = 0 \<longleftrightarrow> \<not> bit m (nat k)"
proof -
  have "m AND b = 0 \<longleftrightarrow> (\<forall>i. \<not> (bit m i \<and> bit b i))"
    by (metis (no_types, opaque_lifting) bit_0_eq bit_and_iff bit_eqI bot_apply bot_bool_def)
  then show ?thesis using bit_shl_one [OF assms] by auto
qed

text \<open>
  What the window means: \<open>newest\<close> is the newest number received, counted without wrapping, and the 31
  lowest bits of the mask tell which of the numbers before it are among the received ones \<open>S\<close>.
\<close>

definition window_ok :: "neighbour \<Rightarrow> int \<Rightarrow> int set \<Rightarrow> bool" where
  "window_ok n newest S \<longleftrightarrow> mdp_ack_sequence n = newest mod 256 \<and> newest \<in> S \<and> (\<forall>s \<in> S. s \<le> newest)
     \<and> (\<forall>i < 31. bit (mdp_ack_mask n) i \<longleftrightarrow> newest - 1 - int i \<in> S)"

lemma window_offset: "(x mod 256 - c - y mod 256) AND 0xFF = (x - c - y) mod 256" for x y c :: int
proof -
  have "x mod 256 - c - y mod 256 = x mod 256 - y mod 256 - c" and "x - c - y = x - y - c" by simp_all
  then show ?thesis unfolding and_0xFF by (metis mod_diff_left_eq mod_diff_eq)
qed

lemma mod256_neq: "x < y \<Longrightarrow> y < x + 256 \<Longrightarrow> x mod 256 \<noteq> y mod 256" for x y :: int
  using zdvd_not_zless [of "y - x" 256] mod_eq_dvd_iff [of y 256 x] by auto

lemma mod256_neq_minus1: "x mod 256 \<noteq> - 1" for x :: int
  using pos_mod_sign [of 256 x] by linarith

lemma mod256_negative: "- 256 \<le> x \<Longrightarrow> x < 0 \<Longrightarrow> x mod 256 = x + 256" for x :: int
  using mod_add_self2 [of x 256] mod_pos_pos_trivial [of "x + 256" 256] by simp

lemma duplicate_window_late:
  assumes w: "window_ok n newest S" and s: "newest - 31 \<le> s" "s < newest"
  shows "\<exists>n'. duplicate_window (s mod 256) n = Some (s \<in> S, n') \<and> window_ok n' newest (insert s S) \<and> nb_subscriber n' = nb_subscriber n"
proof -
  have seq: "mdp_ack_sequence n = newest mod 256" using w by (simp add: window_ok_def)
  have ne: "newest mod 256 \<noteq> s mod 256" using mod256_neq [of s newest] s by simp
  have off: "(newest mod 256 - 1 - s mod 256) AND 0xFF = newest - 1 - s"
    unfolding window_offset by (rule mod_pos_pos_trivial) (use s in simp_all)
  obtain b where b: "shl_one (newest - 1 - s) = Some b" using s by (simp add: shl_one_def)
  have k: "0 \<le> newest - 1 - s" "newest - 1 - s < 31" using s by simp_all
  have bit: "bit (mdp_ack_mask n) (nat (newest - 1 - s)) \<longleftrightarrow> s \<in> S"
    using w k unfolding window_ok_def by (auto dest: spec [of _ "nat (newest - 1 - s)"])
  have dup: "duplicate_window (s mod 256) n =
      Some (s \<in> S, if s \<in> S then n else n\<lparr>mdp_ack_mask := mdp_ack_mask n OR b\<rparr>)"
    using ne k(2) off seq mod256_neq_minus1 [of newest] by (simp add: duplicate_window_def Let_def b and_shl_one [OF k b] bit)
  have "window_ok (n\<lparr>mdp_ack_mask := mdp_ack_mask n OR b\<rparr>) newest (insert s S)"
    using w s k bit_shl_one [OF k b] by (auto simp: window_ok_def bit_or_iff)
  then show ?thesis using dup w by (auto simp: insert_absorb)
qed

lemma bit_shifted_window:
  "bit (push_bit k (push_bit 1 m OR 1)) i \<longleftrightarrow> i < 64 \<and> (i = k \<or> (k < i \<and> bit m (i - k - 1)))" for m :: u64
proof -
  have "bit (push_bit 1 m OR 1) j \<longleftrightarrow> j = 0 \<or> (j < 64 \<and> bit m (j - 1))" for j
    by (cases j) (simp_all only: bit_or_iff bit_push_bit_iff bit_1_iff, simp_all)
  then show ?thesis unfolding bit_push_bit_iff by (cases "i < 64"; cases "i = k"; cases "k < i") (simp_all add: less_imp_diff_less)
qed

lemma duplicate_window_new:
  assumes w: "window_ok n newest S" and s: "newest < s" "s \<le> newest + 64"
  shows "\<exists>n'. duplicate_window (s mod 256) n = Some (False, n') \<and> window_ok n' s (insert s S) \<and> nb_subscriber n' = nb_subscriber n"
proof -
  define k where "k = nat (s - newest - 1)"
  have k: "k < 64" "s = newest + 1 + int k" using s by (auto simp: k_def)
  have seq: "mdp_ack_sequence n = newest mod 256" using w by (simp add: window_ok_def)
  have ne: "newest mod 256 \<noteq> s mod 256" by (rule mod256_neq) (use s in simp_all)
  have off: "\<not> ((newest mod 256 - 1 - s mod 256) AND 0xFF) < 64"
    unfolding window_offset using mod256_negative [of "newest - 1 - s"] s by simp
  have "(s mod 256 - 1 - newest mod 256) AND 0xFF = s - 1 - newest"
    unfolding window_offset by (rule mod_pos_pos_trivial) (use s in simp_all)
  then have off2: "(s mod 256 - newest mod 256 - 1) AND 0xFF = int k"
    using s by (simp add: k_def algebra_simps)
  let ?m = "push_bit k (push_bit 1 (mdp_ack_mask n) OR 1)"
  have dup: "duplicate_window (s mod 256) n = Some (False, n\<lparr>mdp_ack_mask := ?m, mdp_ack_sequence := s mod 256\<rparr>)"
    using ne k(1) off off2 seq mod256_neq_minus1 [of newest] by (simp add: duplicate_window_def Let_def)
  have "bit ?m i \<longleftrightarrow> s - 1 - int i \<in> S" if i: "i < 31" for i
  proof -
    consider "i < k" | "i = k" | "k < i" by linarith
    then show ?thesis
    proof cases
      case 1
      then have "\<not> s - 1 - int i \<le> newest" using k(2) by simp
      then have "s - 1 - int i \<notin> S" using w unfolding window_ok_def by blast
      then show ?thesis using 1 unfolding bit_shifted_window by simp
    next
      case 2
      then show ?thesis using k w i unfolding bit_shifted_window by (simp add: window_ok_def)
    next
      case 3
      then have eq: "s - 1 - int i = newest - 1 - int (i - k - 1)" and "i - k - 1 < 31" using k i by simp_all
      then have "bit (mdp_ack_mask n) (i - k - 1) \<longleftrightarrow> newest - 1 - int (i - k - 1) \<in> S"
        using w unfolding window_ok_def by blast
      then show ?thesis using 3 i unfolding bit_shifted_window eq by simp
    qed
  qed
  then have "window_ok (n\<lparr>mdp_ack_mask := ?m, mdp_ack_sequence := s mod 256\<rparr>) s (insert s S)"
    using w s by (auto simp: window_ok_def)
  then show ?thesis using dup by auto
qed

lemma duplicate_window_step:
  assumes w: "window_ok n newest S" and s: "newest - 31 \<le> s" "s \<le> newest + 64"
  shows "\<exists>n'. duplicate_window (s mod 256) n = Some (s \<in> S, n') \<and> window_ok n' (max newest s) (insert s S)
     \<and> nb_subscriber n' = nb_subscriber n"
proof -
  consider "s < newest" | "s = newest" | "newest < s" by linarith
  then show ?thesis
  proof cases
    case 1
    then show ?thesis using duplicate_window_late [OF w] s by (simp add: max_def)
  next
    case 2
    then have "s \<in> S" using w by (simp add: window_ok_def)
    then show ?thesis using 2 w by (simp add: duplicate_window_def window_ok_def insert_absorb)
  next
    case 3
    then have "s \<notin> S" using w by (auto simp: window_ok_def)
    then show ?thesis using 3 duplicate_window_new [OF w] s by (simp add: max_def)
  qed
qed

text \<open>A run of packets from one neighbour.\<close>

fun receive_all :: "nat \<Rightarrow> int list \<Rightarrow> mesh \<Rightarrow> (bool list \<times> mesh) run" where
  "receive_all a [] g = Some ([], g)"
| "receive_all a (x # xs) g = do {
     (dup, g) \<leftarrow> link_received_duplicate (Some a) x g;
     (dups, g) \<leftarrow> receive_all a xs g;
     Some (dup # dups, g) }"

text \<open>Every packet is at most 31 behind and 64 ahead of the newest one.\<close>

fun within_window :: "int \<Rightarrow> int list \<Rightarrow> bool" where
  "within_window newest [] \<longleftrightarrow> True"
| "within_window newest (s # ss) \<longleftrightarrow> newest - 31 \<le> s \<and> s \<le> newest + 64 \<and> within_window (max newest s) ss"

fun seen_before :: "int set \<Rightarrow> int list \<Rightarrow> bool list" where
  "seen_before S [] = []"
| "seen_before S (s # ss) = (s \<in> S) # seen_before (insert s S) ss"

lemma find_set_neighbour:
  assumes "find_neighbour (neighbours g) a = Some n" and "nb_subscriber n' = nb_subscriber n"
  shows "find_neighbour (neighbours (set_neighbour n' g)) a = Some n'"
proof -
  have a: "nb_subscriber n = a" using assms(1) by (auto simp: find_neighbour_def find_Some_iff)
  have "find (\<lambda>n. nb_subscriber n = a) ns = Some n \<Longrightarrow>
      find (\<lambda>n. nb_subscriber n = a) (map (\<lambda>m. if nb_subscriber m = nb_subscriber n' then n' else m) ns) = Some n'" for ns
    using a assms(2) by (induction ns) (auto split: if_splits)
  then show ?thesis using assms(1) by (simp add: set_neighbour_def find_neighbour_def)
qed

lemma receive_all_window:
  assumes "find_neighbour (neighbours g) a = Some n" and "window_ok n newest S" and "within_window newest ss"
  shows "\<exists>g'. receive_all a (map (\<lambda>s. s mod 256) ss) g = Some (seen_before S ss, g')"
  using assms
proof (induction ss arbitrary: g n newest S)
  case (Cons s ss)
  obtain n' where n': "duplicate_window (s mod 256) n = Some (s \<in> S, n')" "window_ok n' (max newest s) (insert s S)"
      "nb_subscriber n' = nb_subscriber n"
    using duplicate_window_step [OF Cons.prems(2)] Cons.prems(3) by auto
  have "\<exists>g'. receive_all a (map (\<lambda>s. s mod 256) ss) (set_neighbour n' g) = Some (seen_before (insert s S) ss, g')"
    by (rule Cons.IH [OF find_set_neighbour [OF Cons.prems(1) n'(3)] n'(2)]) (use Cons.prems(3) in simp)
  then show ?case using Cons.prems(1) n'(1) by (auto simp: link_received_duplicate_def neighbour_of_def)
qed simp

lemma seen_before_nth:
  "k < length ss \<Longrightarrow> seen_before S ss ! k \<longleftrightarrow> ss ! k \<in> S \<union> set (take k ss)"
  by (induction S ss arbitrary: k rule: seen_before.induct) (auto simp: nth_Cons split: nat.splits)

lemma length_seen_before [simp]: "length (seen_before S ss) = length ss"
  by (induction S ss rule: seen_before.induct) auto

text \<open>
  C20: Duplicate suppression is exact inside its window.  Take the packets received from a neighbour that
  was not heard before, each at most 31 behind and 64 ahead of the newest one so far.  Although only the
  low 8 bits of their numbers are sent, every call returns, and it reports a duplicate exactly when the
  same number was received before.
\<close>

theorem link_received_duplicate_exact:
  assumes "find_neighbour (neighbours g) a = Some n" and "mdp_ack_sequence n = - 1" and "mdp_ack_mask n = 0"
    and "within_window s ss"
  shows "\<exists>dups g'. receive_all a (map (\<lambda>s. s mod 256) (s # ss)) g = Some (dups, g') \<and> length dups = length (s # ss)
    \<and> (\<forall>k < length (s # ss). dups ! k \<longleftrightarrow> (s # ss) ! k \<in> set (take k (s # ss)))"
proof -
  let ?n = "n\<lparr>mdp_ack_sequence := s mod 256\<rparr>"
  have "duplicate_window (s mod 256) n = Some (False, ?n)" using assms(2) by (simp add: duplicate_window_def)
  then have first: "link_received_duplicate (Some a) (s mod 256) g = Some (False, set_neighbour ?n g)"
    using assms(1) by (simp add: link_received_duplicate_def neighbour_of_def)
  have "window_ok ?n s {s}" using assms(3) by (auto simp: window_ok_def)
  moreover have "find_neighbour (neighbours (set_neighbour ?n g)) a = Some ?n"
    by (rule find_set_neighbour [OF assms(1)]) simp
  ultimately obtain g' where "receive_all a (map (\<lambda>s. s mod 256) ss) (set_neighbour ?n g) = Some (seen_before {s} ss, g')"
    using receive_all_window assms(4) by blast
  then have "receive_all a (map (\<lambda>s. s mod 256) (s # ss)) g = Some (seen_before {} (s # ss), g')"
    using first by simp
  then show ?thesis by (intro exI conjI) (auto simp: seen_before_nth simp del: seen_before.simps)
qed

text \<open>
  Outside the window: the bit for the number 32 behind the newest marks all older ones as received, and
  still older numbers shift by more than the width of an \<^verbatim>\<open>int\<close>.
\<close>

lemma shl_one_overflow: "shl_one 31 = Some 0xFFFFFFFF80000000" "32 \<le> k \<Longrightarrow> shl_one k = None"
  by (simp_all add: shl_one_def scast_eq)

lemma duplicate_window_undefined: "mdp_ack_sequence n = 100 \<Longrightarrow> 36 \<le> s \<Longrightarrow> s \<le> 67 \<Longrightarrow> duplicate_window s n = None"
  by (simp add: duplicate_window_def Let_def and_0xFF shl_one_overflow(2))

section \<open>A small mesh\<close>

text \<open>Two subscribers, the first of them ours, and one interface with a broadcast destination.\<close>

definition sample_interface :: overlay_interface where
  "sample_interface = \<lparr>state = INTERFACE_STATE_UP, if_type = OVERLAY_INTERFACE_WIFI, drop_packets = 0, drop_broadcasts = False,
     drop_unicasts = False, send_broadcasts = True, dont_route = False, prefer_unicast = False, mtu = 1200,
     default_route = False, local_echo = False, if_destination = 0, point_to_point = False, other_device = None,
     if_address = \<lparr>sa_family = AF_INET, sin_addr = 0x0A000001, sin_port = 4110\<rparr>, netmask = 0xFF000000,
     recv_count = 0, tx_count = 0, radio_tx_packet = False\<rparr>"

definition sample_heap :: heap where
  "sample_heap = \<lparr>blocks = (\<lambda>n. Some (replicate n 0)), objects = (\<lambda>_. True), nodes = (\<lambda>_. True)\<rparr>"

definition bare_mesh :: mesh where
  "bare_mesh = \<lparr>tree = sample_root, subs = sample_subs, my_subscriber = Some 0, directory_service = None,
     interfaces = [sample_interface], dests = [], links = [], neighbours = [], route_version = 0, queue = sample_queue,
     bpilist = replicate MAX_BPIS (replicate BROADCAST_LEN 0), overlay_tx = [], mdp_seq = 0, olsr_fd = - 1,
     rhizome_voice_timeout = 0\<rparr>"

definition sample_mesh :: mesh where
  "sample_mesh = (snd (new_destination sample_heap 0 ENCAP_OVERLAY bare_mesh))\<lparr>neighbours := [new_neighbour 1000 1]\<rparr>"

theorem link_received_duplicate_exact_witness:
  "\<exists>g'. receive_all 1 [250, 255, 3, 255, 2, 3] sample_mesh = Some ([False, False, False, True, False, True], g')"
proof -
  have "find_neighbour (neighbours sample_mesh) 1 = Some (new_neighbour 1000 1)"
    by (simp add: sample_mesh_def find_neighbour_def new_neighbour_def)
  moreover have "mdp_ack_sequence (new_neighbour 1000 1) = - 1" "mdp_ack_mask (new_neighbour 1000 1) = 0"
    by (simp_all add: new_neighbour_def)
  moreover have "within_window 250 [255, 259, 255, 258, 259]" by simp
  ultimately obtain dups g' where r: "receive_all 1 (map (\<lambda>s. s mod 256) [250, 255, 259, 255, 258, 259]) sample_mesh = Some (dups, g')"
    and l: "length dups = length [250, 255, 259, 255, 258, 259 :: int]"
    and d: "\<forall>k < length [250, 255, 259, 255, 258, 259 :: int]. dups ! k
        \<longleftrightarrow> [250, 255, 259, 255, 258, 259 :: int] ! k \<in> set (take k [250, 255, 259, 255, 258, 259])"
    using link_received_duplicate_exact by blast
  obtain a0 a1 a2 a3 a4 a5 where dups: "dups = [a0, a1, a2, a3, a4, a5]"
    using l by (auto simp: length_Suc_conv)
  have "dups = [False, False, False, True, False, True]"
    using d [rule_format, of 0] d [rule_format, of 1] d [rule_format, of 2] d [rule_format, of 3] d [rule_format, of 4]
      d [rule_format, of 5] by (simp add: dups)
  moreover have "map (\<lambda>s. s mod 256) [250, 255, 259, 255, 258, 259] = [250, 255, 3, 255, 2, 3 :: int]" by simp
  ultimately show ?thesis using r by simp
qed

section \<open>Reference counts\<close>

text \<open>
  \<open>refs d\<close> pointers to the destination \<open>d\<close> are in use: the counter says so, and the destination is freed
  exactly when there are none.
\<close>

definition refs_ok :: "(nat \<Rightarrow> int) \<Rightarrow> mesh \<Rightarrow> bool" where
  "refs_ok refs g \<longleftrightarrow> (\<forall>d < length (dests g). 0 \<le> refs d \<and> (freed (dests g ! d) \<longleftrightarrow> refs d = 0)
     \<and> (refs d > 0 \<longrightarrow> ref_count (dests g ! d) = refs d))"

lemma add_destination_ref_ok:
  assumes "refs_ok refs g" and "d < length (dests g)" and "\<not> freed (dests g ! d)"
  shows "refs_ok (refs(d := refs d + 1)) (add_destination_ref d g)"
  using assms by (auto simp: refs_ok_def add_destination_ref_def set_dest_def nth_list_update less_le)

lemma release_destination_ref_ok:
  assumes "refs_ok refs g" and "d < length (dests g)" and "refs d > 0"
  shows "refs_ok (refs(d := refs d - 1)) (release_destination_ref d g)"
  using assms by (auto simp: refs_ok_def release_destination_ref_def set_dest_def nth_list_update less_le)

lemma refs_ok_cong: "refs_ok refs g \<Longrightarrow> (\<And>d. d < length (dests g) \<Longrightarrow> refs d = refs' d) \<Longrightarrow> refs_ok refs' g"
  by (simp add: refs_ok_def)

lemma length_dests_refs [simp]:
  "length (dests (add_destination_ref d g)) = length (dests g)" "length (dests (release_destination_ref d g)) = length (dests g)"
  by (simp_all add: add_destination_ref_def release_destination_ref_def set_dest_def)

text \<open>
  C22: Moving a pointer from one network destination to another keeps the reference counts right: when the
  counters agree with the pointers in use before \<open>set_destination_ref\<close>, they do afterwards, and the old
  destination is freed exactly when this was the last pointer to it.
\<close>

theorem set_destination_ref_counts:
  assumes "refs_ok (\<lambda>d. held d + of_bool (ptr = Some d)) g" and "\<And>d. 0 \<le> held d"
    and "\<And>d. ref = Some d \<Longrightarrow> d < length (dests g) \<and> \<not> freed (dests g ! d)" and "\<And>d. ptr = Some d \<Longrightarrow> d < length (dests g)"
    and "set_destination_ref ptr ref g = (changed, ptr', g')"
  shows "ptr' = ref \<and> changed = (ptr \<noteq> ref) \<and> refs_ok (\<lambda>d. held d + of_bool (ref = Some d)) g'"
proof (cases "ref = ptr")
  case True
  then show ?thesis using assms by (simp add: set_destination_ref_def)
next
  case False
  let ?r0 = "\<lambda>d. held d + of_bool (ptr = Some d)" and ?r1 = "\<lambda>d. held d + of_bool (ptr = Some d) + of_bool (ref = Some d)"
  let ?r2 = "\<lambda>d. held d + of_bool (ref = Some d)"
  define g1 where "g1 = (case ref of Some d \<Rightarrow> add_destination_ref d g | None \<Rightarrow> g)"
  have g1: "refs_ok ?r1 g1" "length (dests g1) = length (dests g)"
  proof -
    have "refs_ok ?r1 g1"
    proof (cases ref)
      case (Some d)
      have "refs_ok (?r0(d := ?r0 d + 1)) g1" using add_destination_ref_ok [OF assms(1)] assms(3) Some by (simp add: g1_def)
      then show ?thesis by (rule refs_ok_cong) (simp add: Some)
    qed (use assms(1) g1_def in simp)
    then show "refs_ok ?r1 g1" "length (dests g1) = length (dests g)" by (simp_all add: g1_def split: option.splits)
  qed
  have g': "g' = (case ptr of Some d \<Rightarrow> release_destination_ref d g1 | None \<Rightarrow> g1)" "ptr' = ref" changed
    using assms(5) False unfolding set_destination_ref_def g1_def Let_def by auto
  have "refs_ok ?r2 g'"
  proof (cases ptr)
    case (Some d)
    then have "?r1 d > 0" using assms(2) [of d] by simp
    moreover have "d < length (dests g1)" using assms(4) Some g1(2) by simp
    ultimately have "refs_ok (?r1(d := ?r1 d - 1)) (release_destination_ref d g1)" by (intro release_destination_ref_ok g1(1))
    then show ?thesis unfolding g'(1) Some option.case by (rule refs_ok_cong) (use Some in simp)
  qed (use g1(1) g'(1) in simp)
  then show ?thesis using g' False by auto
qed

theorem set_destination_ref_counts_witness:
  "\<exists>g' d. create_unicast_destination sample_heap \<lparr>sa_family = AF_INET, sin_addr = 0x0A000002, sin_port = 4110\<rparr> (Some 0) sample_mesh
       = (Some d, g')
     \<and> refs_ok (\<lambda>x. of_bool (x = 0) + of_bool (Some d = Some x)) g'
     \<and> refs_ok (\<lambda>x. of_bool (x = 0)) (snd (snd (set_destination_ref (Some d) None g')))"
proof -
  let ?c = "create_unicast_destination sample_heap \<lparr>sa_family = AF_INET, sin_addr = 0x0A000002, sin_port = 4110\<rparr> (Some 0) sample_mesh"
  define g' where "g' = snd ?c"
  have c: "?c = (Some 1, g')" "length (dests g') = 2" and ok: "refs_ok (\<lambda>x. of_bool (x = 0) + of_bool (Some 1 = Some x)) g'"
    by (auto simp: g'_def create_unicast_destination_def new_destination_def set_dest_def sample_mesh_def bare_mesh_def
        sample_heap_def sample_interface_def INTERFACE_STATE_UP_def refs_ok_def less_Suc_eq)
  obtain b p g2 where r: "set_destination_ref (Some 1) None g' = (b, p, g2)" by (cases "set_destination_ref (Some 1) None g'") auto
  from set_destination_ref_counts [OF ok _ _ _ r] c(2) have "refs_ok (\<lambda>x. of_bool (x = 0)) g2" by auto
  then show ?thesis using c(1) ok r by auto
qed

section \<open>The best incoming link\<close>

definition in_priority :: "overlay_interface list \<Rightarrow> link_in \<Rightarrow> int" where
  "in_priority is l = interface_type_priority (if_type (is ! in_interface l))"

definition no_better :: "overlay_interface list \<Rightarrow> link_in \<Rightarrow> link_in \<Rightarrow> bool" where
  "no_better is l m \<longleftrightarrow> in_priority is l < in_priority is m \<or> (in_priority is l = in_priority is m \<and> in_unicast m \<le> in_unicast l)"

lemma interface_compare:
  "overlay_interface_compare is (in_interface l) (in_interface m) =
     (if in_priority is l < in_priority is m then - 1 else if in_priority is m < in_priority is l then 1 else 0)"
  by (auto simp: overlay_interface_compare_def in_priority_def Let_def)

lemma best_link_in_best:
  "best_link_in is l ls \<in> set (l # ls) \<and> (\<forall>m \<in> set (l # ls). no_better is (best_link_in is l ls) m)"
proof (induction "is" l ls rule: best_link_in.induct)
  case (2 "is" best l ls)
  let ?b = "if overlay_interface_compare is (in_interface best) (in_interface l) = - 1 then best
     else if overlay_interface_compare is (in_interface best) (in_interface l) = 0 \<and> in_unicast l < in_unicast best then best else l"
  have "no_better is ?b best" "no_better is ?b l" by (auto simp: no_better_def interface_compare)
  then have "no_better is (best_link_in is ?b ls) m" if "m \<in> {best, l}" for m
    using 2 that unfolding no_better_def by (auto simp: Let_def)
  then show ?case using 2 by (auto simp: Let_def)
qed (simp add: no_better_def)

text \<open>
  C23: The incoming link chosen for acknowledgements is one of the neighbour's links, no other link has a
  better type of interface, and among those of the same type no link is preferred as unicast; when the
  choice changes an update is due in 5 ms, and otherwise nothing changes.
\<close>

theorem neighbour_find_best_link_correct:
  assumes "in_links n \<noteq> []"
  shows "\<exists>l \<in> set (in_links n). best_link (neighbour_find_best_link now is n) = Some (in_at l)
     \<and> (\<forall>m \<in> set (in_links n). in_priority is l < in_priority is m
          \<or> (in_priority is l = in_priority is m \<and> in_unicast m \<le> in_unicast l))
     \<and> neighbour_find_best_link now is n =
         (if best_link n = Some (in_at l) then n else n\<lparr>best_link := Some (in_at l), next_neighbour_update := now + 5\<rparr>)"
proof -
  obtain l ls where ls: "in_links n = l # ls" using assms by (cases "in_links n") auto
  show ?thesis using best_link_in_best [of "is" l ls] unfolding no_better_def ls
    by (intro bexI [of _ "best_link_in is l ls"]) (auto simp: neighbour_find_best_link_def ls Let_def)
qed

theorem neighbour_find_best_link_correct_witness:
  "\<exists>l n. get_neighbour_link sample_heap [sample_interface] 0 2 True (new_neighbour 1000 1) = Some (l, n)
     \<and> best_link (neighbour_find_best_link 7 [sample_interface] n) = Some (in_at l)"
proof -
  let ?r = "get_neighbour_link sample_heap [sample_interface] 0 2 True (new_neighbour 1000 1)"
  define l n where "l = fst (the ?r)" and "n = snd (the ?r)"
  have r: "?r = Some (l, n)" and n: "in_links n = [l]"
    by (simp_all add: l_def n_def get_neighbour_link_def new_neighbour_def sample_heap_def Let_def)
  then show ?thesis using neighbour_find_best_link_correct [of n 7 "[sample_interface]"] by auto
qed

section \<open>What a frame is sent to\<close>

text \<open>The same destination with more references.\<close>

definition more_refs :: "network_destination \<Rightarrow> nat \<Rightarrow> network_destination" where
  "more_refs d k = d\<lparr>ref_count := ref_count d + int k\<rparr>"

lemma more_refs_simps [simp]:
  "more_refs d 0 = d" "more_refs (more_refs d j) k = more_refs d (j + k)" "unicast (more_refs d k) = unicast d"
  "dest_interface (more_refs d k) = dest_interface d" "ref_count (more_refs d k) = ref_count d + int k"
  by (simp_all add: more_refs_def)

text \<open>The destinations that were added, each with a reference of its own, and nothing else changed.\<close>

definition adds :: "packet_destination list \<Rightarrow> overlay_frame \<Rightarrow> mesh \<Rightarrow> overlay_frame \<Rightarrow> mesh \<Rightarrow> bool" where
  "adds new f g f' g' \<longleftrightarrow> destinations f' = destinations f @ new
     \<and> (length (destinations f) \<le> MAX_PACKET_DESTINATIONS \<longrightarrow> length (destinations f') \<le> MAX_PACKET_DESTINATIONS)
     \<and> (\<exists>ds. g' = g\<lparr>dests := ds\<rparr> \<and> length ds = length (dests g)
          \<and> (\<forall>d < length ds. ds ! d = more_refs (dests g ! d) (count_list (map pd_destination new) d)))"

lemma adds_nil: "destinations f' = destinations f \<Longrightarrow> adds [] f g f' g"
  by (auto simp: adds_def intro: exI [of _ "dests g"])

lemma adds_trans: "adds new f g f1 g1 \<Longrightarrow> adds new' f1 g1 f2 g2 \<Longrightarrow> adds (new @ new') f g f2 g2"
  unfolding adds_def by auto

lemma adds_packet_destination:
  "add_packet_destination d nh f g = (f', g') \<Longrightarrow>
     (\<exists>pd. adds [pd] f g f' g' \<and> pd_destination pd = d \<and> pd_next_hop pd = nh) \<or> adds [] f g f' g' \<and> f' = f \<and> g' = g"
proof (cases "length (destinations f) < MAX_PACKET_DESTINATIONS")
  case True
  assume "add_packet_destination d nh f g = (f', g')"
  moreover define pd where "pd = \<lparr>sent_sequence = 0, transmit_time = 0, pd_destination = d, pd_next_hop = nh\<rparr>"
  ultimately have "f' = f\<lparr>destinations := destinations f @ [pd]\<rparr>" "g' = add_destination_ref d g"
    using True by (simp_all add: add_packet_destination_def)
  moreover have "pd_destination pd = d" by (simp add: pd_def)
  ultimately have "adds [pd] f g f' g'" using True
    by (simp add: adds_def add_destination_ref_def set_dest_def)
      (auto simp: more_refs_def nth_list_update intro!: exI [of _ "(dests g)[d := (dests g ! d)\<lparr>ref_count := ref_count (dests g ! d) + 1\<rparr>]"])
  then show ?thesis by (auto simp: pd_def)
next
  case False
  assume "add_packet_destination d nh f g = (f', g')"
  then show ?thesis using False by (simp add: add_packet_destination_def adds_nil)
qed

lemma adds_out_links:
  "add_out_links now nh ls f g = (f', g') \<Longrightarrow> \<exists>new. adds new f g f' g' \<and> (\<forall>pd \<in> set new. pd_next_hop pd = Some nh)"
proof (induction now nh ls f g rule: add_out_links.induct)
  case (1 now nh f g)
  then show ?case using adds_nil by fastforce
next
  case (2 now nh l ls f g)
  show ?case
  proof (cases "out_timeout l \<ge> now")
    case True
    obtain f1 g1 where s: "add_packet_destination (out_destination l) (Some nh) f g = (f1, g1)" by fastforce
    then obtain new where new: "adds new f1 g1 f' g'" "\<forall>pd \<in> set new. pd_next_hop pd = Some nh"
      using 2(1) [OF True s [symmetric] refl] 2(3) True by (auto simp: s)
    from adds_packet_destination [OF s] show ?thesis
    proof (elim disjE exE conjE)
      fix pd assume "adds [pd] f g f1 g1" "pd_next_hop pd = Some nh"
      then show ?thesis using adds_trans [OF _ new(1)] new(2) by (intro exI [of _ "pd # new"]) fastforce
    qed (use new in auto)
  next
    case False
    then show ?thesis using 2(2,3) by simp
  qed
qed

definition dests_valid :: "mesh \<Rightarrow> bool" where
  "dests_valid g \<longleftrightarrow> (\<forall>s \<in> set (subs g). \<forall>d. destination s = Some d \<longrightarrow> d < length (dests g))
     \<and> (\<forall>n \<in> set (neighbours g). nb_subscriber n < length (subs g))"

text \<open>The interfaces of the broadcast destinations among some.\<close>

definition broadcast_interfaces :: "mesh \<Rightarrow> packet_destination list \<Rightarrow> nat list" where
  "broadcast_interfaces g pds =
     map (\<lambda>pd. dest_interface (dests g ! pd_destination pd)) (filter (\<lambda>pd. \<not> unicast (dests g ! pd_destination pd)) pds)"

lemma adds_frame:
  assumes "adds new f g f' g'"
  shows "subs g' = subs g" "interfaces g' = interfaces g" "neighbours g' = neighbours g" "length (dests g') = length (dests g)"
    and "d < length (dests g) \<Longrightarrow> unicast (dests g' ! d) = unicast (dests g ! d) \<and> dest_interface (dests g' ! d) = dest_interface (dests g ! d)"
  using assms by (auto simp: adds_def)

lemma broadcast_interfaces_frame:
  "adds new f g f' g' \<Longrightarrow> \<forall>pd \<in> set pds. pd_destination pd < length (dests g) \<Longrightarrow> broadcast_interfaces g' pds = broadcast_interfaces g pds"
  unfolding broadcast_interfaces_def using adds_frame(5) by (intro map_cong filter_cong) auto

definition broadcast_ok :: "bool list \<Rightarrow> mesh \<Rightarrow> packet_destination list \<Rightarrow> bool" where
  "broadcast_ok added g new \<longleftrightarrow> (\<forall>pd \<in> set new. pd_destination pd < length (dests g)) \<and> distinct (broadcast_interfaces g new)
     \<and> (\<forall>i \<in> set (broadcast_interfaces g new). i < length added \<and> \<not> added ! i \<and> send_broadcasts (interfaces g ! i))"

text \<open>One more destination in front of those that the rest of the loop adds.\<close>

lemma broadcast_step:
  assumes step: "add_packet_destination d None f g = (f1, g1)" and rest: "adds new f1 g1 f' g'" "broadcast_ok added' g1 new"
    and d: "d < length (dests g)" and i: "i = dest_interface (dests g ! d)"
    and a: "unicast (dests g ! d) \<and> added' = added
      \<or> \<not> unicast (dests g ! d) \<and> added' = added[i := True] \<and> i < length added \<and> \<not> added ! i \<and> send_broadcasts (interfaces g ! i)"
  shows "\<exists>new. adds new f g f' g' \<and> broadcast_ok added g new"
  using adds_packet_destination [OF step]
proof (elim disjE exE conjE)
  fix pd assume pd: "adds [pd] f g f1 g1" "pd_destination pd = d"
  have bi: "broadcast_interfaces g1 new = broadcast_interfaces g new"
    by (rule broadcast_interfaces_frame [OF pd(1)]) (use rest(2) adds_frame(4) [OF pd(1)] in \<open>simp add: broadcast_ok_def\<close>)
  have "broadcast_ok added g (pd # new)"
    using rest(2) a d adds_frame(2,4) [OF pd(1)] unfolding broadcast_ok_def bi
    by (auto simp: broadcast_interfaces_def pd(2) i nth_list_update split: if_splits)
  then show ?thesis using adds_trans [OF pd(1) rest(1)] by auto
next
  assume "adds [] f g f1 g1" "f1 = f" "g1 = g"
  then have "broadcast_ok added g new" using rest(2) a
    by (auto simp: broadcast_ok_def nth_list_update split: if_splits)
  then show ?thesis using rest(1) \<open>f1 = f\<close> \<open>g1 = g\<close> by auto
qed

lemma dests_valid_frame: "adds new f g f' g' \<Longrightarrow> dests_valid (g\<lparr>neighbours := ns\<rparr>) \<Longrightarrow> dests_valid (g'\<lparr>neighbours := ns\<rparr>)"
  unfolding dests_valid_def using adds_frame(1,4) by simp

lemma adds_same_frame: "adds new f0 g f' g' \<Longrightarrow> destinations f0 = destinations f \<Longrightarrow> adds new f g f' g'"
  by (auto simp: adds_def)

lemma adds_broadcast:
  "add_broadcast_destinations added ns f g = Some (f', g') \<Longrightarrow> dests_valid (g\<lparr>neighbours := ns\<rparr>) \<Longrightarrow>
     \<exists>new. adds new f g f' g' \<and> broadcast_ok added g new"
proof (induction ns arbitrary: added f g)
  case Nil
  then show ?case by (auto intro!: exI [of _ "[]"] adds_nil simp: broadcast_ok_def broadcast_interfaces_def)
next
  case (Cons n ns)
  let ?s = "sub g (nb_subscriber n)"
  have valid: "dests_valid (g\<lparr>neighbours := ns\<rparr>)" using Cons.prems(2) by (simp add: dests_valid_def)
  show ?case
  proof (cases "reachable ?s AND REACHABLE_DIRECT = 0")
    case True
    then show ?thesis using Cons.IH Cons.prems(1) valid by simp
  next
    case near: False
    obtain d where d: "destination ?s = Some d" using Cons.prems(1) near by (auto simp: Let_def split: bind_splits)
    have len: "d < length (dests g)" using Cons.prems(2) d nth_mem by (fastforce simp: dests_valid_def)
    define f0 where "f0 = (if frame_packet_version f > max_packet_version ?s then f\<lparr>frame_packet_version := max_packet_version ?s\<rparr> else f)"
    have f0: "destinations f0 = destinations f" by (simp add: f0_def)
    define i where "i = dest_interface (dests g ! d)"
    obtain f1 g1 where s: "add_packet_destination d None f0 g = (f1, g1)" by fastforce
    have valid1: "dests_valid (g1\<lparr>neighbours := ns\<rparr>)" using adds_packet_destination [OF s] dests_valid_frame valid by blast
    have step: "\<exists>new. adds new f0 g f' g' \<and> broadcast_ok added g new"
      if "add_broadcast_destinations added' ns f1 g1 = Some (f', g')" and "unicast (dests g ! d) \<and> added' = added
        \<or> \<not> unicast (dests g ! d) \<and> added' = added[i := True] \<and> i < length added \<and> \<not> added ! i \<and> send_broadcasts (interfaces g ! i)"
      for added'
      using Cons.IH [OF that(1) valid1] broadcast_step [OF s _ _ len i_def that(2)] by blast
    consider "add_broadcast_destinations added ns f1 g1 = Some (f', g')" "unicast (dests g ! d)"
      | "add_broadcast_destinations added ns f0 g = Some (f', g')"
      | "add_broadcast_destinations (added[i := True]) ns f1 g1 = Some (f', g')" "\<not> unicast (dests g ! d)"
        "i < length added" "\<not> added ! i" "send_broadcasts (interfaces g ! i)"
      using Cons.prems(1) near by (simp add: d Let_def f0_def [symmetric] i_def [symmetric] s split: if_splits bind_splits)
    then have "\<exists>new. adds new f0 g f' g' \<and> broadcast_ok added g new"
      by cases (use step Cons.IH [OF _ valid] in blast)+
    then show ?thesis using adds_same_frame f0 by blast
  qed
qed

lemma adds_for_one:
  assumes "link_add_destinations now f g = Some (f', g')" and "frame_destination f = Some dst"
  shows "\<exists>new. adds new f g f' g'"
proof -
  define nh where "nh = route_via g dst"
  define r where "r = (if reachable (sub g nh) = REACHABLE_NONE
     then (case find_neighbour (neighbours g) dst of Some n \<Rightarrow> add_out_links now nh (out_links n) f g | None \<Rightarrow> (f, g)) else (f, g))"
  obtain f1 g1 where r1: "r = (f1, g1)" by fastforce
  obtain new where new: "adds new f g f1 g1"
    using r1 adds_nil [OF refl, of f g] adds_out_links [of now nh _ f g f1 g1] unfolding r_def by (auto split: if_splits option.splits)
  from assms have "f' = f1 \<and> g' = g1 \<or> (\<exists>d nh. add_packet_destination d (Some nh) f1 g1 = (f', g'))"
    unfolding link_add_destinations_def nh_def r_def [unfolded nh_def, symmetric] Let_def
    by (simp add: r1 [unfolded r_def nh_def] split: bind_splits if_splits) blast+
  then obtain new' where "adds new' f1 g1 f' g'"
    using adds_nil [OF refl, of f1 g1] adds_packet_destination [of _ _ f1 g1 f' g'] by blast
  then show ?thesis using adds_trans [OF new] by blast
qed

text \<open>
  C24: Choosing where a frame goes adds at most 16 destinations in all, takes one reference for each
  destination added and changes nothing else; a frame for everyone gets each broadcast interface at most
  once, and only interfaces that send broadcasts.
\<close>

theorem link_add_destinations_ok:
  assumes "link_add_destinations now f g = Some (f', g')" and "length (destinations f) \<le> 16" and "dests_valid g"
  shows "\<exists>new ds. destinations f' = destinations f @ new \<and> length (destinations f') \<le> 16
     \<and> g' = g\<lparr>dests := ds\<rparr> \<and> length ds = length (dests g)
     \<and> (\<forall>d < length ds. ds ! d = (dests g ! d)\<lparr>ref_count := ref_count (dests g ! d) + int (count_list (map pd_destination new) d)\<rparr>)
     \<and> (frame_destination f = None \<longrightarrow> distinct (broadcast_interfaces g new)
          \<and> (\<forall>i \<in> set (broadcast_interfaces g new). send_broadcasts (interfaces g ! i)))"
proof -
  obtain new where new: "adds new f g f' g'"
    and bc: "frame_destination f = None \<Longrightarrow> broadcast_ok (replicate OVERLAY_MAX_INTERFACES False) g new"
  proof (cases "frame_destination f")
    case None
    then have "add_broadcast_destinations (replicate OVERLAY_MAX_INTERFACES False) (neighbours g) f g = Some (f', g')"
      using assms(1) by (simp add: link_add_destinations_def)
    from adds_broadcast [OF this] obtain new where "adds new f g f' g'" "broadcast_ok (replicate OVERLAY_MAX_INTERFACES False) g new"
      using assms(3) by auto
    then show ?thesis using that by blast
  next
    case (Some dst)
    then obtain new where "adds new f g f' g'" using adds_for_one assms(1) by blast
    then show ?thesis using that [of new] Some by simp
  qed
  obtain ds where "g' = g\<lparr>dests := ds\<rparr>" "length ds = length (dests g)"
      "\<forall>d < length ds. ds ! d = more_refs (dests g ! d) (count_list (map pd_destination new) d)"
    using new unfolding adds_def by blast
  moreover have "destinations f' = destinations f @ new" "length (destinations f') \<le> 16"
    using new assms(2) unfolding adds_def MAX_PACKET_DESTINATIONS_def OVERLAY_MAX_INTERFACES_def by blast+
  moreover have "frame_destination f = None \<longrightarrow> distinct (broadcast_interfaces g new)
      \<and> (\<forall>i \<in> set (broadcast_interfaces g new). send_broadcasts (interfaces g ! i))"
    using bc unfolding broadcast_ok_def by blast
  ultimately show ?thesis unfolding more_refs_def by (intro exI conjI)
qed

theorem link_add_destinations_ok_witness:
  "\<exists>f' g' new. link_add_destinations 1000 zero_frame (sample_mesh\<lparr>subs := map (\<lambda>s. s\<lparr>reachable := REACHABLE_BROADCAST,
       destination := Some 0\<rparr>) sample_subs, neighbours := [new_neighbour 1000 1, new_neighbour 1000 0]\<rparr>) = Some (f', g')
     \<and> destinations f' = new \<and> ref_count (dests g' ! 0) = 1 + int (count_list (map pd_destination new) 0)"
proof -
  let ?g = "sample_mesh\<lparr>subs := map (\<lambda>s. s\<lparr>reachable := REACHABLE_BROADCAST, destination := Some 0\<rparr>) sample_subs,
     neighbours := [new_neighbour 1000 1, new_neighbour 1000 0]\<rparr>"
  have d: "length (dests ?g) = 1" "ref_count (dests ?g ! 0) = 1"
    by (simp_all add: sample_mesh_def bare_mesh_def new_destination_def sample_heap_def)
  have "dests_valid ?g" using d(1) by (auto simp: dests_valid_def sample_subs_def new_neighbour_def)
  moreover have "link_add_destinations 1000 zero_frame ?g \<noteq> None"
    by (simp add: eval_nat_numeral link_add_destinations_def zero_frame_def sample_subs_def new_neighbour_def REACHABLE_DIRECT_def
        REACHABLE_BROADCAST_def REACHABLE_UNICAST_def add_packet_destination_def sample_mesh_def bare_mesh_def new_destination_def
        sample_heap_def sample_interface_def OVERLAY_MAX_INTERFACES_def MAX_PACKET_DESTINATIONS_def add_destination_ref_def
        set_dest_def Let_def)
  ultimately show ?thesis using link_add_destinations_ok [of 1000 zero_frame ?g] d
    by (fastforce simp: zero_frame_def)
qed

end
