(* ===== verification/Overlay_Address.thy ===== *)
theory Overlay_Address
  imports Neighbours
begin

text \<open>
  Addresses in packets, in \<^verbatim>\<open>overlay_address.c\<close>: broadcast ids and the memory of those seen, abbreviated
  subscriber ids and the codes that stand for a subscriber the context makes clear, their parsing, and
  the explanation asked for when an abbreviation is not understood.  A pointer to the context may be
  NULL (\<^const>\<open>None\<close>); where the source follows it without a test, the model does not return.
\<close>

section \<open>Broadcast ids\<close>

definition BPI_MASK :: nat where "BPI_MASK = 0x3ff"

text \<open>\<open>rnd i\<close> is the value the i-th call of \<^verbatim>\<open>random()\<close> gives.\<close>

definition overlay_broadcast_generate_address :: "(nat \<Rightarrow> u32) \<Rightarrow> u8 list" where
  "overlay_broadcast_generate_address rnd = map (\<lambda>i. ucast (rnd i AND 0xff)) [0..<BROADCAST_LEN]"

definition bpi_mix :: "u8 \<Rightarrow> nat \<Rightarrow> nat" where
  "bpi_mix b bpi_index = ((push_bit 3 bpi_index AND 0xfff8) + (drop_bit 13 bpi_index AND 0x7)) XOR unat b"

definition bpi_hash :: "u8 list \<Rightarrow> nat" where
  "bpi_hash addr = fold bpi_mix addr 0 AND BPI_MASK"

definition overlay_broadcast_drop_check :: "u8 list \<Rightarrow> mesh \<Rightarrow> bool \<times> mesh" where
  "overlay_broadcast_drop_check addr g =
     (if bpilist g ! bpi_hash addr \<noteq> addr
      then (False, g\<lparr>bpilist := (bpilist g)[bpi_hash addr := addr]\<rparr>)
      else (True, g))"

definition overlay_broadcast_append :: "heap \<Rightarrow> overlay_buffer \<Rightarrow> u8 list option \<Rightarrow> overlay_buffer run" where
  "overlay_broadcast_append h b broadcast = do {
     addr \<leftarrow> broadcast;
     ob_append_bytes (blocks h) b addr }"

definition overlay_broadcast_parse :: "overlay_buffer \<Rightarrow> (u8 list option \<times> overlay_buffer) run" where
  "overlay_broadcast_parse b = ob_get_bytes b BROADCAST_LEN"

section \<open>Writing addresses\<close>

definition OA_CODE_SELF :: u8 where "OA_CODE_SELF = 0xff"
definition OA_CODE_PREVIOUS :: u8 where "OA_CODE_PREVIOUS = 0xfe"
definition OA_CODE_P2P_YOU :: u8 where "OA_CODE_P2P_YOU = 0xfd"
definition OA_CODE_P2P_ME :: u8 where "OA_CODE_P2P_ME = 0xfc"

text \<open>How many bytes of the id are sent.\<close>

definition address_len :: "decode_context option \<Rightarrow> subscriber \<Rightarrow> nat" where
  "address_len context s =
     (if send_full s then SID_SIZE
      else (let len = (abbreviate_len s + 2) div 2;
                len = (case context of Some c \<Rightarrow> if header_flag c then len + 1 else len | None \<Rightarrow> len)
            in if len > SID_SIZE then SID_SIZE else len))"

text \<open>
  Whether our own id may be written as the sender of a point to point link; the interface is only
  looked at when a packet header is written.
\<close>

definition p2p_me_allowed :: "mesh \<Rightarrow> decode_context \<Rightarrow> bool run" where
  "p2p_me_allowed g c =
     (if \<not> header_flag c then Some True
      else do { i \<leftarrow> ctx_interface c; Some (\<not> local_echo (interfaces g ! i)) })"

text \<open>The code byte that stands for the subscriber, if there is one.\<close>

definition address_code :: "mesh \<Rightarrow> decode_context option \<Rightarrow> nat \<Rightarrow> u8 option run" where
  "address_code g context a =
     (case context of
        None \<Rightarrow> Some None
      | Some c \<Rightarrow>
          if point_to_point_device c = Some a then Some (Some OA_CODE_P2P_YOU)
          else do {
            me \<leftarrow> (if \<not> send_full (sub g a) \<and> my_subscriber g = Some a \<and> point_to_point_device c \<noteq> None
                   then p2p_me_allowed g c else Some False);
            Some (if me then Some OA_CODE_P2P_ME
                  else if sender c = Some a then Some OA_CODE_SELF
                  else if previous c = Some a then Some OA_CODE_PREVIOUS
                  else None) })"

definition overlay_address_append :: "heap \<Rightarrow> decode_context option \<Rightarrow> overlay_buffer \<Rightarrow> nat option \<Rightarrow> mesh
    \<Rightarrow> (decode_context option \<times> overlay_buffer \<times> mesh) run" where
  "overlay_address_append h context b subscriber g = do {
     a \<leftarrow> subscriber;
     code \<leftarrow> address_code g context a;
     (b, g) \<leftarrow> (case code of
       Some v \<Rightarrow> do { b \<leftarrow> ob_append_byte (blocks h) b v; Some (b, g) }
     | None \<Rightarrow>
         (let s = sub g a; len = address_len context s in do {
            b \<leftarrow> ob_append_byte (blocks h) b (of_nat len);
            b \<leftarrow> ob_append_bytes (blocks h) b (take len (sid s));
            Some (b, if send_full s then set_sub a (s\<lparr>send_full := False\<rparr>) g else g) }));
     Some (map_option (\<lambda>c. c\<lparr>previous := Some a\<rparr>) context, b, g) }"

section \<open>Asking for explanations\<close>

text \<open>Changing the payload of the explanation under way.\<close>

definition on_explain :: "(overlay_buffer \<Rightarrow> overlay_buffer run) \<Rightarrow> decode_context \<Rightarrow> decode_context run" where
  "on_explain f c = do {
     frame \<leftarrow> please_explain c;
     b \<leftarrow> payload frame;
     b \<leftarrow> f b;
     Some (c\<lparr>please_explain := Some (frame\<lparr>payload := Some b\<rparr>)\<rparr>) }"

text \<open>
  \<open>add_explain_response\<close> is called back for subscribers of the tree, with the context and the state of
  the daemon; its first result stops the walk.
\<close>

definition start_response :: "heap \<Rightarrow> decode_context \<Rightarrow> (bool \<times> decode_context) run" where
  "start_response h c =
     (if please_explain c \<noteq> None then Some (True, c)
      else if \<not> objects h New_Frame then Some (False, c)
      else case ob_new (blocks h) of
             None \<Rightarrow> Some (False, c)
           | Some b \<Rightarrow> do {
               b \<leftarrow> ob_limitsize b 1024;
               Some (True, c\<lparr>please_explain := Some (zero_frame\<lparr>payload := Some b\<rparr>)\<rparr>) })"

definition add_explain_response :: "heap \<Rightarrow> int \<Rightarrow> nat \<Rightarrow> decode_context \<times> mesh \<Rightarrow> (bool \<times> decode_context \<times> mesh) run" where
  "add_explain_response h now a cg =
     (let (c, g) = cg in
      if now - last_explained (sub g a) < 500 then Some (False, c, g)
      else (let g = set_sub a ((sub g a)\<lparr>last_explained := now\<rparr>) g in do {
        (ok, c) \<leftarrow> start_response h c;
        if \<not> ok then Some (True, c, g)
        else if reachable (sub g a) = REACHABLE_SELF \<and> my_subscriber g = Some a
        then do {
          frame \<leftarrow> please_explain c;
          Some (False, c\<lparr>please_explain := Some (frame\<lparr>source_full := True\<rparr>)\<rparr>, g) }
        else do {
          let g = (if reachable (sub g a) = REACHABLE_SELF then set_sub a ((sub g a)\<lparr>send_full := True\<rparr>) g else g);
          c \<leftarrow> on_explain (\<lambda>b. do {
            b \<leftarrow> ob_append_byte (blocks h) (ob_checkpoint b) (of_nat SID_SIZE);
            ob_append_bytes (blocks h) b (sid (sub g a)) }) c;
          frame \<leftarrow> please_explain c;
          b \<leftarrow> payload frame;
          if ob_overrun b
          then do {
            c \<leftarrow> on_explain (\<lambda>b. Some (ob_rewind b)) c;
            Some (True, c, g) }
          else do {
            g \<leftarrow> link_explained h now a g;
            Some (False, c, g) } } }))"

text \<open>
  The explanation that parsing starts.  The frame is used without a test of the allocation; the result
  is \<^const>\<open>False\<close> when its buffer cannot be had.
\<close>

definition start_explain :: "heap \<Rightarrow> decode_context \<Rightarrow> (bool \<times> decode_context) run" where
  "start_explain h c =
     (if please_explain c \<noteq> None then Some (True, c)
      else do {
        c_assert (objects h New_Frame);
        case ob_new (blocks h) of
          None \<Rightarrow> Some (False, c\<lparr>please_explain := Some zero_frame\<rparr>)
        | Some b \<Rightarrow> do {
            b \<leftarrow> ob_limitsize b MDP_MTU;
            Some (True, c\<lparr>please_explain := Some (zero_frame\<lparr>payload := Some b\<rparr>)\<rparr>) } })"

section \<open>Reading addresses\<close>

text \<open>
  \<open>out\<close> is the pointer the subscriber is stored through: \<^const>\<open>None\<close> for NULL, \<open>Some x\<close> for a variable
  that holds \<open>x\<close>.  The result gives the return value, the context, the buffer, the variable and the
  state.
\<close>

type_synonym parsed = "int \<times> decode_context option \<times> overlay_buffer \<times> nat option option \<times> mesh"

definition store :: "nat option option \<Rightarrow> nat option \<Rightarrow> nat option option run" where
  "store out v = (case out of None \<Rightarrow> None | Some _ \<Rightarrow> Some (Some v))"

definition find_subscr_buffer :: "heap \<Rightarrow> int \<Rightarrow> decode_context option \<Rightarrow> overlay_buffer \<Rightarrow> int \<Rightarrow> nat option option \<Rightarrow> mesh
    \<Rightarrow> parsed run" where
  "find_subscr_buffer h now context b len out g =
     (if len \<le> 0 \<or> len > int SID_SIZE then Some (- 1, context, b, out, g)
      else do {
        (idp, b) \<leftarrow> ob_get_bytes_ptr b (nat len);
        case idp of
          None \<Rightarrow> Some (- 1, context, b, out, g)
        | Some sidp \<Rightarrow>
            (case out of
               None \<Rightarrow> do { c \<leftarrow> context; Some (0, Some (c\<lparr>header_flag := True\<rparr>), b, out, g) }
             | Some _ \<Rightarrow>
                 (let (ret, root, ss) = find_subscriber (nodes h) (tree g) (subs g) sidp (nat len) True;
                      g = g\<lparr>tree := root, subs := ss\<rparr>
                  in case ret of
                       Some a \<Rightarrow> Some (0, map_option (\<lambda>c. c\<lparr>previous := Some a\<rparr>) context, b, Some (Some a), g)
                     | None \<Rightarrow> do {
                         c \<leftarrow> context;
                         (ok, c) \<leftarrow> start_explain h (c\<lparr>header_flag := True\<rparr>);
                         if \<not> ok then Some (- 1, Some c, b, Some None, g)
                         else do {
                           (_, c, g) \<leftarrow> walk_tree (add_explain_response h now) (Tree_Node (tree g)) 0
                             (Some (sidp, nat len)) (Some (sidp, nat len)) (c, g);
                           c \<leftarrow> on_explain (\<lambda>p. do {
                             p \<leftarrow> ob_append_byte (blocks h) p (of_int len);
                             ob_append_bytes (blocks h) p sidp }) c;
                           Some (0, Some c, b, Some None, g) } })) })"

text \<open>The log message about a link that is not point to point names the interface of the context.\<close>

definition overlay_address_parse :: "heap \<Rightarrow> int \<Rightarrow> decode_context option \<Rightarrow> overlay_buffer \<Rightarrow> nat option option \<Rightarrow> mesh
    \<Rightarrow> parsed run" where
  "overlay_address_parse h now context b out g = do {
     (len, b) \<leftarrow> ob_get b;
     if len < 0 then Some (- 1, context, b, out, g)
     else if len = uint OA_CODE_P2P_YOU
     then do {
       c \<leftarrow> context;
       if point_to_point_device c \<noteq> None
       then do { out \<leftarrow> store out (my_subscriber g); Some (0, Some (c\<lparr>previous := my_subscriber g\<rparr>), b, out, g) }
       else do { _ \<leftarrow> ctx_interface c; Some (0, Some (c\<lparr>header_flag := True\<rparr>), b, out, g) } }
     else if len = uint OA_CODE_P2P_ME
     then do {
       c \<leftarrow> context;
       case point_to_point_device c of
         Some p \<Rightarrow> do { out \<leftarrow> store out (Some p); Some (0, Some (c\<lparr>previous := Some p\<rparr>), b, out, g) }
       | None \<Rightarrow> do {
           (ok, c) \<leftarrow> start_explain h c;
           if \<not> ok then Some (- 1, Some c, b, out, g)
           else do {
             c \<leftarrow> on_explain (\<lambda>p. ob_append_byte (blocks h) p OA_CODE_P2P_YOU) c;
             Some (0, Some (c\<lparr>header_flag := True\<rparr>), b, out, g) } } }
     else if len = uint OA_CODE_SELF
     then do {
       c \<leftarrow> context;
       case sender c of
         None \<Rightarrow> Some (0, Some (c\<lparr>header_flag := True\<rparr>), b, out, g)
       | Some s \<Rightarrow> do { out \<leftarrow> store out (Some s); Some (0, Some (c\<lparr>previous := Some s\<rparr>), b, out, g) } }
     else if len = uint OA_CODE_PREVIOUS
     then do {
       c \<leftarrow> context;
       case previous c of
         None \<Rightarrow> Some (0, Some (c\<lparr>header_flag := True\<rparr>), b, out, g)
       | Some p \<Rightarrow> do { out \<leftarrow> store out (Some p); Some (0, Some c, b, out, g) } }
     else find_subscr_buffer h now context b len out g }"

section \<open>Addresses survive the way from one node to another\<close>

lemmas oa_code_defs = OA_CODE_SELF_def OA_CODE_PREVIOUS_def OA_CODE_P2P_YOU_def OA_CODE_P2P_ME_def

definition same_sid :: "mesh \<Rightarrow> nat \<Rightarrow> mesh \<Rightarrow> nat \<Rightarrow> bool" where
  "same_sid gA a gB b \<longleftrightarrow> a < length (subs gA) \<and> b < length (subs gB) \<and> sid (sub gB b) = sid (sub gA a)"

text \<open>
  Contexts of a writer \<open>A\<close> and a reader \<open>B\<close> that agree: what the codes stand for is the same subscriber on
  both sides.
\<close>

definition contexts_agree :: "mesh \<Rightarrow> decode_context \<Rightarrow> mesh \<Rightarrow> decode_context \<Rightarrow> bool" where
  "contexts_agree gA cA gB cB \<longleftrightarrow>
     (\<forall>p. point_to_point_device cA = Some p \<longrightarrow>
        (\<exists>m. my_subscriber gB = Some m \<and> same_sid gA p gB m)
        \<and> (\<exists>q. point_to_point_device cB = Some q \<and> (\<forall>m. my_subscriber gA = Some m \<longrightarrow> same_sid gA m gB q)))
     \<and> (\<forall>s. sender cA = Some s \<longrightarrow> (\<exists>t. sender cB = Some t \<and> same_sid gA s gB t))
     \<and> (\<forall>s. previous cA = Some s \<longrightarrow> (\<exists>t. previous cB = Some t \<and> same_sid gA s gB t))
     \<and> (header_flag cA \<longrightarrow> ctx_interface cA \<noteq> None)"

text \<open>The reader knows the subscriber, and needs at most one digit more than the writer to tell it apart.\<close>

definition knows :: "mesh \<Rightarrow> mesh \<Rightarrow> nat \<Rightarrow> bool" where
  "knows gB gA a \<longleftrightarrow> (\<exists>b. same_sid gA a gB b \<and> abbreviate_len (sub gB b) \<le> abbreviate_len (sub gA a) + 1)"

definition address_bytes :: "decode_context option \<Rightarrow> subscriber \<Rightarrow> u8 option \<Rightarrow> u8 list" where
  "address_bytes context s code =
     (case code of Some v \<Rightarrow> [v] | None \<Rightarrow> of_nat (address_len context s) # take (address_len context s) (sid s))"

lemma address_len_bounds: "1 \<le> address_len context s" "address_len context s \<le> SID_SIZE"
  by (auto simp: address_len_def SID_SIZE_def Let_def split: option.splits)

lemma address_len_abbrev: "min (abbreviate_len s + 1) (2 * SID_SIZE) \<le> address_len context s * 2"
  by (auto simp: address_len_def SID_SIZE_def Let_def split: option.splits)

lemma ob_space_mono: "ob_space b m \<Longrightarrow> n \<le> m \<Longrightarrow> ob_space b n"
  by (auto simp: ob_space_def)

lemma append_one:
  assumes "malloc_total m" and "ob_good b" and "ob_space b (length vs + k)" and "vs \<noteq> []"
  obtains b' where "ob_append_block m b vs = Some b'" and "ob_good b'" and "ob_data b' = ob_data b @ vs" and "ob_space b' k"
  using ob.append_ok [OF assms] by blast

lemma overlay_address_append_ok:
  assumes m: "malloc_total (blocks h)" and b: "ob_good b" "ob_space b (33 + k)" and t: "table_ok (tree g) (subs g)" "a < length (subs g)"
    and code: "address_code g context a = Some code"
  obtains b' g' where "overlay_address_append h context b (Some a) g = Some (map_option (\<lambda>c. c\<lparr>previous := Some a\<rparr>) context, b', g')"
    and "ob_good b'" and "ob_data b' = ob_data b @ address_bytes context (sub g a) code" and "ob_space b' k"
    and "g' = (if code = None \<and> send_full (sub g a) then set_sub a ((sub g a)\<lparr>send_full := False\<rparr>) g else g)"
proof (cases code)
  case (Some v)
  have "ob_space b (length [v] + k)" by (rule ob_space_mono [OF b(2)]) simp
  from append_one [OF m b(1) this] obtain b' where "ob_append_block (blocks h) b [v] = Some b'" "ob_good b'"
      "ob_data b' = ob_data b @ [v]" "ob_space b' k" by auto
  then show ?thesis using that [of b' g] code Some by (simp add: overlay_address_append_def ob_append_byte_def address_bytes_def)
next
  case None
  let ?s = "sub g a" and ?n = "address_len context (sub g a)"
  have sid: "length (take ?n (sid ?s)) = ?n" "take ?n (sid ?s) \<noteq> []"
    using table_ok_sub [OF t] address_len_bounds [of "context" ?s] by auto
  have "ob_space b (length [of_nat ?n :: u8] + (?n + k))"
    by (rule ob_space_mono [OF b(2)]) (use address_len_bounds(2) [of "context" ?s] in \<open>simp add: SID_SIZE_def\<close>)
  from append_one [OF m b(1) this] obtain b1 where b1: "ob_append_block (blocks h) b [of_nat ?n] = Some b1" "ob_good b1"
      "ob_data b1 = ob_data b @ [of_nat ?n]" "ob_space b1 (?n + k)" by auto
  from append_one [OF m b1(2), of "take ?n (sid ?s)" k] b1(4) sid obtain b2 where
    b2: "ob_append_block (blocks h) b1 (take ?n (sid ?s)) = Some b2" "ob_good b2" "ob_data b2 = ob_data b1 @ take ?n (sid ?s)" "ob_space b2 k"
    by auto
  show ?thesis
    by (rule that [of b2 "if send_full ?s then set_sub a (?s\<lparr>send_full := False\<rparr>) g else g"])
      (use b1 b2 None code sid in \<open>simp_all add: overlay_address_append_def ob_append_byte_def ob_append_bytes_block address_bytes_def Let_def\<close>)
qed

lemma uint_small: "n \<le> 32 \<Longrightarrow> uint (of_nat n :: u8) = int n"
  by (simp add: uint_nat unat_of_nat)

lemma find_subscr_buffer_known:
  assumes "ob_good r" and "ob_rest r = take n (sid (sub g x)) @ ys" and "1 \<le> n" and "n \<le> SID_SIZE"
    and t: "table_ok (tree g) (subs g)" "x < length (subs g)" and "abbreviate_len (sub g x) \<le> n * 2"
  obtains r' where "find_subscr_buffer h now (Some c) r (int n) (Some out) g = Some (0, Some (c\<lparr>previous := Some x\<rparr>), r', Some (Some x), g)"
    and "ob_good r'" and "ob_rest r' = ys"
proof -
  have len: "length (take n (sid (sub g x))) = n" using table_ok_sub [OF t] assms(4) by simp
  from ob_load_rest [OF assms(1,2)] len obtain r' where r': "ob_get_bytes_ptr r n = Some (Some (take n (sid (sub g x))), r')"
      "ob_good r'" "ob_rest r' = ys"
    by (simp add: ob_get_bytes_ptr_def)
  have "find_subscriber (nodes h) (tree g) (subs g) (take n (sid (sub g x))) n True = (Some x, tree g, subs g)"
    by (rule find_subscriber_known [OF t]) (use assms in simp_all)
  moreover have "g\<lparr>tree := tree g, subs := subs g\<rparr> = g" by simp
  ultimately show ?thesis using that [of r'] r' assms(3,4) by (simp add: find_subscr_buffer_def)
qed

text \<open>One address: the reader finds the writer's subscriber, and the contexts still agree.\<close>

lemma overlay_address_parse_ok:
  assumes agree: "contexts_agree gA cA gB cB" and t: "table_ok (tree gB) (subs gB)"
    and known: "knows gB gA a" and code: "address_code gA (Some cA) a = Some code"
    and r: "ob_good r" "ob_rest r = address_bytes (Some cA) (sub gA a) code @ ys"
  obtains x r' where "overlay_address_parse h now (Some cB) r (Some out) gB = Some (0, Some (cB\<lparr>previous := Some x\<rparr>), r', Some (Some x), gB)"
    and "ob_good r'" and "ob_rest r' = ys" and "same_sid gA a gB x"
proof (cases code)
  case None
  obtain x where x: "same_sid gA a gB x" "abbreviate_len (sub gB x) \<le> abbreviate_len (sub gA a) + 1"
    using known by (auto simp: knows_def)
  let ?n = "address_len (Some cA) (sub gA a)"
  note n = address_len_bounds [of "Some cA" "sub gA a"]
  have rest: "ob_rest r = of_nat ?n # take ?n (sid (sub gB x)) @ ys"
    using r(2) None x(1) by (simp add: address_bytes_def same_sid_def)
  from ob_get_rest [OF r(1) rest] obtain r1 where r1: "ob_get r = Some (int ?n, r1)" "ob_good r1"
      "ob_rest r1 = take ?n (sid (sub gB x)) @ ys"
    using n by (metis SID_SIZE_def uint_small)
  have "abbreviate_len (sub gB x) \<le> ?n * 2"
    using x address_len_abbrev [of "sub gA a" "Some cA"] table_ok_sub [OF t, of x] by (auto simp: same_sid_def)
  moreover have "x < length (subs gB)" using x(1) by (simp add: same_sid_def)
  ultimately obtain r' where
    "find_subscr_buffer h now (Some cB) r1 (int ?n) (Some out) gB = Some (0, Some (cB\<lparr>previous := Some x\<rparr>), r', Some (Some x), gB)"
    "ob_good r'" "ob_rest r' = ys"
    using find_subscr_buffer_known [OF r1(2,3) n t] by blast
  then show ?thesis using that [of x r'] r1(1) n x(1) by (simp add: overlay_address_parse_def oa_code_defs SID_SIZE_def)
next
  case (Some v)
  then have rest: "ob_rest r = v # ys" using r(2) by (simp add: address_bytes_def)
  from ob_get_rest [OF r(1) rest] obtain r1 where r1: "ob_get r = Some (uint v, r1)" "ob_good r1" "ob_rest r1 = ys" by blast
  have prev: "cB\<lparr>previous := Some x\<rparr> = cB" if "previous cB = Some x" for x using that by simp
  have "v = OA_CODE_P2P_YOU \<and> point_to_point_device cA = Some a
      \<or> v = OA_CODE_P2P_ME \<and> my_subscriber gA = Some a \<and> point_to_point_device cA \<noteq> None
      \<or> v = OA_CODE_SELF \<and> sender cA = Some a \<or> v = OA_CODE_PREVIOUS \<and> previous cA = Some a"
    using code Some by (auto simp: address_code_def split: if_splits bind_splits)
  then obtain x where "overlay_address_parse h now (Some cB) r (Some out) gB = Some (0, Some (cB\<lparr>previous := Some x\<rparr>), r1, Some (Some x), gB)"
      "same_sid gA a gB x"
    using agree r1(1) unfolding contexts_agree_def
    by (elim disjE conjE) (auto simp: overlay_address_parse_def oa_code_defs store_def dest: prev)
  then show ?thesis using that r1(2,3) by blast
qed

text \<open>Several addresses one after the other.\<close>

fun append_addresses :: "heap \<Rightarrow> decode_context option \<Rightarrow> overlay_buffer \<Rightarrow> nat list \<Rightarrow> mesh
    \<Rightarrow> (decode_context option \<times> overlay_buffer \<times> mesh) run" where
  "append_addresses h context b [] g = Some (context, b, g)"
| "append_addresses h context b (a # as) g = do {
     (context, b, g) \<leftarrow> overlay_address_append h context b (Some a) g;
     append_addresses h context b as g }"

fun parse_addresses :: "heap \<Rightarrow> int \<Rightarrow> decode_context option \<Rightarrow> overlay_buffer \<Rightarrow> nat \<Rightarrow> mesh
    \<Rightarrow> ((int \<times> nat option option) list \<times> decode_context option \<times> overlay_buffer \<times> mesh) run" where
  "parse_addresses h now context b 0 g = Some ([], context, b, g)"
| "parse_addresses h now context b (Suc n) g = do {
     (ret, context, b, out, g) \<leftarrow> overlay_address_parse h now context b (Some None) g;
     (outs, context, b, g) \<leftarrow> parse_addresses h now context b n g;
     Some ((ret, out) # outs, context, b, g) }"

definition same_table :: "mesh \<Rightarrow> mesh \<Rightarrow> bool" where
  "same_table g g' \<longleftrightarrow> (\<exists>ss. g' = g\<lparr>subs := ss\<rparr> \<and> length ss = length (subs g)
     \<and> (\<forall>a < length ss. sid (ss ! a) = sid (sub g a) \<and> abbreviate_len (ss ! a) = abbreviate_len (sub g a)))"

lemma same_table_refl: "same_table g g"
  by (auto simp: same_table_def intro: exI [of _ "subs g"])

lemma same_table_send_full: "same_table g (set_sub a ((sub g a)\<lparr>send_full := f\<rparr>) g)"
  unfolding same_table_def set_sub_def
  by (rule exI [of _ "(subs g)[a := (sub g a)\<lparr>send_full := f\<rparr>]"], cases "a < length (subs g)") (auto simp: nth_list_update list_update_beyond)

lemma wf_slot_same:
  "wf_slot ss p t \<Longrightarrow> length ss' = length ss \<Longrightarrow>
   \<forall>a < length ss. sid (ss' ! a) = sid (ss ! a) \<and> abbreviate_len (ss' ! a) = abbreviate_len (ss ! a) \<Longrightarrow> wf_slot ss' p t"
  by (induction t arbitrary: p) auto

lemma same_table_ok: "same_table g g' \<Longrightarrow> table_ok (tree g) (subs g) \<Longrightarrow> table_ok (tree g') (subs g')"
proof -
  assume "same_table g g'" and t: "table_ok (tree g) (subs g)"
  then obtain ss where g': "g' = g\<lparr>subs := ss\<rparr>" "length ss = length (subs g)"
      "\<forall>a < length (subs g). sid (ss ! a) = sid (sub g a) \<and> abbreviate_len (ss ! a) = abbreviate_len (sub g a)"
    by (auto simp: same_table_def)
  show ?thesis using t wf_slot_same [OF _ g'(2,3)] unfolding table_ok_def g'(1) by (simp add: g'(2) del: wf_slot.simps addrs.simps)
qed

lemma same_table_sid: "same_table g g' \<Longrightarrow> same_sid g' a gB b = same_sid g a gB b"
  by (auto simp: same_table_def same_sid_def)

lemma same_table_knows: "same_table g g' \<Longrightarrow> knows gB g' a = knows gB g a"
  by (auto simp: same_table_def knows_def same_sid_def)

lemma same_table_agree: "same_table gA gA' \<Longrightarrow> contexts_agree gA cA gB cB \<Longrightarrow> contexts_agree gA' cA gB cB"
  unfolding contexts_agree_def same_table_sid by (auto simp: same_table_def)

lemma contexts_agree_previous:
  "contexts_agree gA cA gB cB \<Longrightarrow> same_sid gA a gB x \<Longrightarrow>
   contexts_agree gA (cA\<lparr>previous := Some a\<rparr>) gB (cB\<lparr>previous := Some x\<rparr>)"
  by (auto simp: contexts_agree_def)

lemma address_code_defined: "contexts_agree gA cA gB cB \<Longrightarrow> \<exists>code. address_code gA (Some cA) a = Some code"
  by (auto simp: address_code_def contexts_agree_def p2p_me_allowed_def)

lemma address_bytes_length: "length (address_bytes context s code) \<le> 33"
  using address_len_bounds [of "context" s] by (auto simp: address_bytes_def SID_SIZE_def split: option.splits)

text \<open>
  The bytes of some addresses can be split at the first one; \<open>wire\<close> is all that is written, and reading
  it gives the subscribers back whatever follows.
\<close>

lemma addresses_wire:
  assumes m: "malloc_total (blocks h)" and tB: "table_ok (tree gB) (subs gB)"
  shows "ob_good b \<Longrightarrow> ob_space b (33 * length as + k) \<Longrightarrow> table_ok (tree gA) (subs gA) \<Longrightarrow> contexts_agree gA cA gB cB \<Longrightarrow>
    \<forall>a \<in> set as. knows gB gA a \<Longrightarrow>
    \<exists>cA' b' gA' wire. append_addresses h (Some cA) b as gA = Some (cA', b', gA') \<and> ob_good b' \<and> ob_data b' = ob_data b @ wire
      \<and> ob_space b' k \<and> (\<forall>r ys. ob_good r \<and> ob_rest r = wire @ ys \<longrightarrow>
          (\<exists>xs cB' r'. parse_addresses h' now (Some cB) r (length as) gB = Some (map (\<lambda>x. (0, Some (Some x))) xs, Some cB', r', gB)
            \<and> list_all2 (\<lambda>a x. same_sid gA a gB x) as xs \<and> header_flag cB' = header_flag cB \<and> ob_good r' \<and> ob_rest r' = ys))"
proof (induction as arbitrary: b gA cA cB)
  case Nil
  then show ?case by auto
next
  case (Cons a as)
  obtain code where code: "address_code gA (Some cA) a = Some code" using address_code_defined Cons.prems(4) by blast
  have a: "a < length (subs gA)" "knows gB gA a" using Cons.prems(5) by (auto simp: knows_def same_sid_def)
  obtain x0 where x0: "same_sid gA a gB x0" using a(2) by (auto simp: knows_def)
  have sp: "ob_space b (33 + (33 * length as + k))" using Cons.prems(2) by (simp add: add.assoc)
  obtain b1 g1 where b1: "overlay_address_append h (Some cA) b (Some a) gA = Some (map_option (\<lambda>c. c\<lparr>previous := Some a\<rparr>) (Some cA), b1, g1)"
      "ob_good b1" "ob_data b1 = ob_data b @ address_bytes (Some cA) (sub gA a) code" "ob_space b1 (33 * length as + k)"
      "g1 = (if code = None \<and> send_full (sub gA a) then set_sub a ((sub gA a)\<lparr>send_full := False\<rparr>) gA else gA)"
    by (rule overlay_address_append_ok [OF m Cons.prems(1) sp Cons.prems(3) a(1) code])
  have st: "same_table gA g1" using b1(5) same_table_refl [of gA] same_table_send_full [of gA a False] by auto
  have uniq: "x = x0" if "same_sid gA a gB x" for x
    using that x0 nth_eq_iff_index_eq [OF table_ok_distinct [OF tB], of x x0] by (simp add: same_sid_def)
  let ?cB = "cB\<lparr>previous := Some x0\<rparr>"
  have agree: "contexts_agree g1 (cA\<lparr>previous := Some a\<rparr>) gB ?cB"
    by (rule same_table_agree [OF st contexts_agree_previous [OF Cons.prems(4) x0]])
  have "\<forall>a \<in> set as. knows gB g1 a" using Cons.prems(5) same_table_knows [OF st] by simp
  from Cons.IH [OF b1(2,4) same_table_ok [OF st Cons.prems(3)] agree this] obtain cA' b' gA' wire where
    IH: "append_addresses h (Some (cA\<lparr>previous := Some a\<rparr>)) b1 as g1 = Some (cA', b', gA')" "ob_good b'" "ob_data b' = ob_data b1 @ wire" "ob_space b' k"
    and rd: "\<And>r ys. ob_good r \<and> ob_rest r = wire @ ys \<Longrightarrow>
          \<exists>xs cB' r'. parse_addresses h' now (Some ?cB) r (length as) gB = Some (map (\<lambda>x. (0, Some (Some x))) xs, Some cB', r', gB)
            \<and> list_all2 (\<lambda>a x. same_sid g1 a gB x) as xs \<and> header_flag cB' = header_flag ?cB \<and> ob_good r' \<and> ob_rest r' = ys"
    by blast
  have "\<exists>xs cB' r'. parse_addresses h' now (Some cB) r (length (a # as)) gB = Some (map (\<lambda>x. (0, Some (Some x))) xs, Some cB', r', gB)
      \<and> list_all2 (\<lambda>a x. same_sid gA a gB x) (a # as) xs \<and> header_flag cB' = header_flag cB \<and> ob_good r' \<and> ob_rest r' = ys"
    if r: "ob_good r" "ob_rest r = (address_bytes (Some cA) (sub gA a) code @ wire) @ ys" for r ys
  proof -
    obtain x r1 where p: "overlay_address_parse h' now (Some cB) r (Some None) gB = Some (0, Some (cB\<lparr>previous := Some x\<rparr>), r1, Some (Some x), gB)"
        "ob_good r1" "ob_rest r1 = wire @ ys" "same_sid gA a gB x"
      by (rule overlay_address_parse_ok [OF Cons.prems(4) tB a(2) code r(1) r(2) [unfolded append.assoc]])
    have x: "x = x0" using uniq p(4) by blast
    from rd [of r1 ys] p(2,3) obtain xs cB' r' where q: "parse_addresses h' now (Some ?cB) r1 (length as) gB = Some (map (\<lambda>x. (0, Some (Some x))) xs, Some cB', r', gB)"
        "list_all2 (\<lambda>a x. same_sid g1 a gB x) as xs" "header_flag cB' = header_flag cB" "ob_good r'" "ob_rest r' = ys"
      by auto
    show ?thesis
      by (rule exI [of _ "x # xs"], rule exI [of _ cB'], rule exI [of _ r'])
        (use p(1,4) q in \<open>simp add: x same_table_sid [OF st]\<close>)
  qed
  then show ?case using b1(1,3) IH
    by (intro exI [of _ cA'] exI [of _ b'] exI [of _ gA'] exI [of _ "address_bytes (Some cA) (sub gA a) code @ wire"] conjI)
      (simp_all only: append_addresses.simps option.map bind.bind_lunit prod.case append.assoc, blast)
qed

text \<open>
  C25: Addresses survive the way from one node to another.  Take nodes A and B whose contexts agree, and
  subscribers that B knows and tells apart with at most one digit more than A.  When A writes their
  addresses one after the other, in whatever codes and abbreviations it picks, and B reads as many, every
  call succeeds, B gets exactly the same subscribers in the same order, reads everything that was
  written, marks nothing as invalid and changes nothing in its tables.
\<close>

theorem overlay_address_roundtrip:
  assumes "malloc_total (blocks h)" and "table_ok (tree gA) (subs gA)" and "table_ok (tree gB) (subs gB)"
    and "contexts_agree gA cA gB cB" and "\<forall>a \<in> set as. knows gB gA a"
    and "ob_good b" and "ob_data b = []" and "ob_space b (33 * length as)"
  shows "\<exists>cA' b' gA' r xs cB' r'. append_addresses h (Some cA) b as gA = Some (cA', b', gA') \<and> ob_flip b' = Some r
     \<and> parse_addresses h' now (Some cB) r (length as) gB = Some (map (\<lambda>x. (0, Some (Some x))) xs, Some cB', r', gB)
     \<and> map (\<lambda>x. sid (sub gB x)) xs = map (\<lambda>a. sid (sub gA a)) as
     \<and> header_flag cB' = header_flag cB \<and> ob_rest r' = []"
proof -
  have "ob_space b (33 * length as + 0)" using assms(8) by simp
  from addresses_wire [where h' = h' and now = now, OF assms(1,3,6) this assms(2,4,5)] obtain cA' b' gA' wire where
    w: "append_addresses h (Some cA) b as gA = Some (cA', b', gA')" "ob_good b'" "ob_data b' = ob_data b @ wire" "ob_space b' 0"
    and rd: "\<And>r ys. ob_good r \<and> ob_rest r = wire @ ys \<Longrightarrow>
          \<exists>xs cB' r'. parse_addresses h' now (Some cB) r (length as) gB = Some (map (\<lambda>x. (0, Some (Some x))) xs, Some cB', r', gB)
            \<and> list_all2 (\<lambda>a x. same_sid gA a gB x) as xs \<and> header_flag cB' = header_flag cB \<and> ob_good r' \<and> ob_rest r' = ys"
    by blast
  obtain r where r: "ob_flip b' = Some r" "ob_good r" "ob_rest r = wire" using ob.flip_ok [OF w(2,4)] w(3) assms(7) by auto
  obtain xs cB' r' where p: "parse_addresses h' now (Some cB) r (length as) gB = Some (map (\<lambda>x. (0, Some (Some x))) xs, Some cB', r', gB)"
      "list_all2 (\<lambda>a x. same_sid gA a gB x) as xs" "header_flag cB' = header_flag cB" "ob_rest r' = []"
    using rd [of r "[]"] r(2,3) by auto
  have "map (\<lambda>x. sid (sub gB x)) xs = map (\<lambda>a. sid (sub gA a)) as"
    using p(2) by (induction rule: list_all2_induct) (auto simp: same_sid_def)
  with w(1) r(1) p(1,3,4) show ?thesis by (intro exI conjI)
qed

theorem overlay_address_roundtrip_witness:
  "\<exists>cA' b' gA' r xs cB' r'. append_addresses sample_heap (Some (zero_context\<lparr>sender := Some 0\<rparr>))
       ((ob_unlimitsize zero_buffer)\<lparr>sizeLimit := 1200\<rparr>) [0, 1, 1] sample_mesh = Some (cA', b', gA') \<and> ob_flip b' = Some r
     \<and> parse_addresses sample_heap 1000 (Some (zero_context\<lparr>sender := Some 0\<rparr>)) r 3 sample_mesh
         = Some (map (\<lambda>x. (0, Some (Some x))) xs, Some cB', r', sample_mesh)
     \<and> map (\<lambda>x. sid (sub sample_mesh x)) xs = [sample_sid 0xAB, sample_sid 0xAC, sample_sid 0xAC]"
proof -
  have g: "tree sample_mesh = sample_root" "subs sample_mesh = sample_subs"
    by (simp_all add: sample_mesh_def bare_mesh_def new_destination_def sample_heap_def)
  have same: "same_sid sample_mesh a sample_mesh a" if "a < 2" for a
    using that by (simp add: same_sid_def g sample_subs_def)
  have m: "malloc_total (blocks sample_heap)" by (simp add: malloc_total_def sample_heap_def)
  have t: "table_ok (tree sample_mesh) (subs sample_mesh)" using sample_table_ok by (simp add: g)
  have c: "contexts_agree sample_mesh (zero_context\<lparr>sender := Some 0\<rparr>) sample_mesh (zero_context\<lparr>sender := Some 0\<rparr>)"
    using same [of 0] by (simp add: contexts_agree_def zero_context_def)
  have k: "\<forall>a \<in> set [0, 1, 1]. knows sample_mesh sample_mesh a" 
    using same [of 0] same [of 1] unfolding knows_def by auto
  let ?b = "(ob_unlimitsize zero_buffer)\<lparr>sizeLimit := 1200\<rparr>"
  have b: "ob_good ?b" "ob_data ?b = []" "ob_space ?b (33 * length [0, 1, 1 :: nat])"
    by (simp_all add: ob_good_def ob_wf_def ob_data_def ob_space_def ob_unlimitsize_def zero_buffer_def SIZE_MAX_def)
  have three: "length [0, 1, 1 :: nat] = 3" by simp
  have sids: "map (\<lambda>a. sid (sub sample_mesh a)) [0, 1, 1] = [sample_sid 0xAB, sample_sid 0xAC, sample_sid 0xAC]"
    by (simp add: g sample_subs_def new_subscriber_def)
  show ?thesis
    using overlay_address_roundtrip [OF m t t c k b, where h' = sample_heap and now = 1000, unfolded three sids]
    by (elim exE conjE) (intro exI conjI)
qed

section \<open>Broadcasts seen before\<close>

lemma bpi_hash_less: "bpi_hash addr < MAX_BPIS"
  using take_bit_nat_less_exp [of 10 "fold bpi_mix addr 0"]
  by (simp add: bpi_hash_def BPI_MASK_def MAX_BPIS_def take_bit_eq_mask mask_eq_exp_minus_1)

text \<open>The memory after a sequence of broadcasts, and the one kept last in a place.\<close>

definition see_all :: "u8 list list \<Rightarrow> mesh \<Rightarrow> mesh" where
  "see_all as g = fold (\<lambda>a g. snd (overlay_broadcast_drop_check a g)) as g"

lemma see_all_memory:
  assumes "length (bpilist g) = MAX_BPIS" and "i < MAX_BPIS"
  shows "bpilist (see_all as g) ! i = last (bpilist g ! i # filter (\<lambda>a. bpi_hash a = i) as) \<and> length (bpilist (see_all as g)) = MAX_BPIS"
proof (induction as rule: rev_induct)
  case (snoc a as)
  have "see_all (as @ [a]) g = snd (overlay_broadcast_drop_check a (see_all as g))" by (simp add: see_all_def)
  then show ?case using snoc bpi_hash_less [of a]
    by (auto simp: overlay_broadcast_drop_check_def nth_list_update)
qed (simp add: see_all_def assms)

text \<open>
  C26: A broadcast is dropped exactly when the last broadcast kept in its place of the memory is the same
  one: a broadcast never heard before is never dropped, and a repeated one is dropped until another one
  takes its place.
\<close>

theorem overlay_broadcast_drop_check_exact:
  assumes "length (bpilist g) = MAX_BPIS"
  shows "(fst (overlay_broadcast_drop_check a (see_all as g))
         \<longleftrightarrow> last (bpilist g ! bpi_hash a # filter (\<lambda>b. bpi_hash b = bpi_hash a) as) = a)
     \<and> (a \<notin> set as \<and> bpilist g ! bpi_hash a \<noteq> a \<longrightarrow> \<not> fst (overlay_broadcast_drop_check a (see_all as g)))
     \<and> fst (overlay_broadcast_drop_check a (see_all (as @ [a]) g))"
proof (intro conjI impI)
  have eq: "fst (overlay_broadcast_drop_check a (see_all bs g)) \<longleftrightarrow> last (bpilist g ! bpi_hash a # filter (\<lambda>b. bpi_hash b = bpi_hash a) bs) = a" for bs
    using see_all_memory [OF assms bpi_hash_less, of bs a] by (simp add: overlay_broadcast_drop_check_def)
  show "fst (overlay_broadcast_drop_check a (see_all as g)) \<longleftrightarrow> last (bpilist g ! bpi_hash a # filter (\<lambda>b. bpi_hash b = bpi_hash a) as) = a"
    by (rule eq)
  show "fst (overlay_broadcast_drop_check a (see_all (as @ [a]) g))" unfolding eq by simp
  show "\<not> fst (overlay_broadcast_drop_check a (see_all as g))" if "a \<notin> set as \<and> bpilist g ! bpi_hash a \<noteq> a"
  proof -
    have "last (x # xs) \<in> insert x (set xs)" for x and xs :: "u8 list list" by (induction xs arbitrary: x) auto
    from this [of "bpilist g ! bpi_hash a" "filter (\<lambda>b. bpi_hash b = bpi_hash a) as"] show ?thesis
      unfolding eq using that by auto
  qed
qed

theorem overlay_broadcast_drop_check_exact_witness:
  "\<not> fst (overlay_broadcast_drop_check [1, 2, 3, 4, 5, 6, 7, 8] (see_all [[8, 7, 6, 5, 4, 3, 2, 1]] sample_mesh))
     \<and> fst (overlay_broadcast_drop_check [8, 7, 6, 5, 4, 3, 2, 1] (see_all ([[1, 2, 3, 4, 5, 6, 7, 8]] @ [[8, 7, 6, 5, 4, 3, 2, 1]]) sample_mesh))"
proof -
  have b: "bpilist sample_mesh = replicate MAX_BPIS (replicate BROADCAST_LEN 0)"
    by (simp add: sample_mesh_def bare_mesh_def new_destination_def sample_heap_def)
  then have l: "length (bpilist sample_mesh) = MAX_BPIS" by simp
  have "bpilist sample_mesh ! bpi_hash [1, 2, 3, 4, 5, 6, 7, 8] \<noteq> [1, 2, 3, 4, 5, 6, 7, 8]"
    using b bpi_hash_less by (simp add: BROADCAST_LEN_def eval_nat_numeral)
  then show ?thesis
    using overlay_broadcast_drop_check_exact [OF l, of "[1, 2, 3, 4, 5, 6, 7, 8]" "[[8, 7, 6, 5, 4, 3, 2, 1]]"]
      overlay_broadcast_drop_check_exact [OF l, of "[8, 7, 6, 5, 4, 3, 2, 1]" "[[1, 2, 3, 4, 5, 6, 7, 8]]"]
    by auto
qed

text \<open>
  Reading an address without a context, as the STUN services of \<^verbatim>\<open>overlay_link.c\<close> do, follows a NULL pointer
  on any code, and so does reading a point to point code in a context that has no interface.
\<close>

lemma overlay_address_parse_no_context:
  "ob_good b \<Longrightarrow> ob_rest b = OA_CODE_SELF # ys \<Longrightarrow> overlay_address_parse h now None b out g = None"
  by (erule (1) ob_get_rest) (simp add: overlay_address_parse_def oa_code_defs)

lemma overlay_address_parse_no_interface:
  "ob_good b \<Longrightarrow> ob_rest b = OA_CODE_P2P_YOU # ys \<Longrightarrow> overlay_address_parse h now (Some zero_context) b out g = None"
  by (erule (1) ob_get_rest) (simp add: overlay_address_parse_def oa_code_defs zero_context_def)

end
