(* ===== verification/Overlay_Frame.thy ===== *)
theory Overlay_Frame
  imports Overlay_Address
begin

text \<open>
  Frames inside packets: writing the header and payload of a frame (\<^verbatim>\<open>overlay_payload.c\<close>), the header of a
  packet (\<open>overlay_packet_init_header\<close> in \<^verbatim>\<open>overlay_packetformats.c\<close>) and the parser of frame headers
  (\<open>parseMdpPacketHeader\<close>), with the decision whether a frame is processed and forwarded.
\<close>

section \<open>Constants\<close>

definition OF_TYPE_DATA :: nat where "OF_TYPE_DATA = 0x30"
definition PAYLOAD_FLAG_SENDER_SAME :: nat where "PAYLOAD_FLAG_SENDER_SAME = 1"
definition PAYLOAD_FLAG_TO_BROADCAST :: nat where "PAYLOAD_FLAG_TO_BROADCAST = 2"
definition PAYLOAD_FLAG_ONE_HOP :: nat where "PAYLOAD_FLAG_ONE_HOP = 4"
definition PAYLOAD_FLAG_CIPHERED :: nat where "PAYLOAD_FLAG_CIPHERED = 16"
definition PAYLOAD_FLAG_SIGNED :: nat where "PAYLOAD_FLAG_SIGNED = 32"
definition PAYLOAD_FLAG_ACK_SOON :: nat where "PAYLOAD_FLAG_ACK_SOON = 64"
definition PAYLOAD_FLAG_LEGACY_TYPE :: nat where "PAYLOAD_FLAG_LEGACY_TYPE = 128"
definition PAYLOAD_TTL_MAX :: nat where "PAYLOAD_TTL_MAX = 31"
definition HEADER_PROCESS :: int where "HEADER_PROCESS = 1"
definition HEADER_FORWARD :: int where "HEADER_FORWARD = 2"
definition PACKET_UNICAST :: nat where "PACKET_UNICAST = 1"
definition PACKET_INTERFACE :: nat where "PACKET_INTERFACE = 2"
definition PACKET_SEQ :: nat where "PACKET_SEQ = 4"
definition SUPPORTED_PACKET_VERSION :: int where "SUPPORTED_PACKET_VERSION = 1"

lemmas payload_flags = PAYLOAD_FLAG_SENDER_SAME_def PAYLOAD_FLAG_TO_BROADCAST_def PAYLOAD_FLAG_ONE_HOP_def
  PAYLOAD_FLAG_CIPHERED_def PAYLOAD_FLAG_SIGNED_def PAYLOAD_FLAG_ACK_SOON_def PAYLOAD_FLAG_LEGACY_TYPE_def

definition has :: "nat \<Rightarrow> nat \<Rightarrow> bool" where
  "has flags f \<longleftrightarrow> flags AND f \<noteq> 0"

section \<open>Writing frames\<close>

definition flag_if :: "bool \<Rightarrow> nat \<Rightarrow> nat" where
  "flag_if p f = (if p then f else 0)"

definition frame_flags :: "decode_context \<Rightarrow> nat \<Rightarrow> nat \<Rightarrow> bool \<Rightarrow> nat \<Rightarrow> u8 list option \<Rightarrow> nat option \<Rightarrow> nat option \<Rightarrow> nat option \<Rightarrow> nat" where
  "frame_flags c ty mods will_retransmit t broadcast nh dst src =
     (mods AND (PAYLOAD_FLAG_CIPHERED OR PAYLOAD_FLAG_SIGNED))
     OR flag_if will_retransmit PAYLOAD_FLAG_ACK_SOON
     OR flag_if (t = 1 \<and> broadcast = None) PAYLOAD_FLAG_ONE_HOP
     OR flag_if (dst \<noteq> None \<and> dst = nh) PAYLOAD_FLAG_ONE_HOP
     OR flag_if (src = sender c) PAYLOAD_FLAG_SENDER_SAME
     OR flag_if (dst = None) PAYLOAD_FLAG_TO_BROADCAST
     OR flag_if (ty \<noteq> OF_TYPE_DATA) PAYLOAD_FLAG_LEGACY_TYPE"

text \<open>Appending an address in a context that is there.\<close>

definition append_address :: "heap \<Rightarrow> nat option \<Rightarrow> decode_context \<times> overlay_buffer \<times> mesh \<Rightarrow> (decode_context \<times> overlay_buffer \<times> mesh) run" where
  "append_address h subscriber s = (case s of (c, b, g) \<Rightarrow> do {
     (c, b, g) \<leftarrow> overlay_address_append h (Some c) b subscriber g;
     c \<leftarrow> c;
     Some (c, b, g) })"

definition overlay_frame_build_header :: "heap \<Rightarrow> int \<Rightarrow> decode_context \<Rightarrow> overlay_buffer \<Rightarrow> nat \<Rightarrow> nat \<Rightarrow> nat \<Rightarrow> bool \<Rightarrow> nat \<Rightarrow> int
    \<Rightarrow> u8 list option \<Rightarrow> nat option \<Rightarrow> nat option \<Rightarrow> nat option \<Rightarrow> mesh \<Rightarrow> (int \<times> decode_context \<times> overlay_buffer \<times> mesh) run" where
  "overlay_frame_build_header h packet_version c buff q ty mods will_retransmit t seq broadcast nh
       dst src g =
     (if t > PAYLOAD_TTL_MAX then Some (- 1, c, buff, g)
      else (let flags = frame_flags c ty mods will_retransmit t broadcast nh dst src in do {
        buff \<leftarrow> ob_append_byte (blocks h) buff (of_nat flags);
        (c, buff, g) \<leftarrow> (if has flags PAYLOAD_FLAG_SENDER_SAME then Some (c, buff, g)
                         else append_address h src (c, buff, g));
        (c, buff, g) \<leftarrow>
          (if has flags PAYLOAD_FLAG_TO_BROADCAST
           then if has flags PAYLOAD_FLAG_ONE_HOP then Some (c, buff, g)
                else do { buff \<leftarrow> overlay_broadcast_append h buff broadcast; Some (c, buff, g) }
           else do {
             (c, buff, g) \<leftarrow> append_address h dst (c, buff, g);
             if has flags PAYLOAD_FLAG_ONE_HOP then Some (c, buff, g)
             else append_address h nh (c, buff, g) });
        buff \<leftarrow> (if has flags PAYLOAD_FLAG_ONE_HOP then Some buff
                 else ob_append_byte (blocks h) buff (of_nat (t OR push_bit 5 (q AND 3))));
        buff \<leftarrow> (if has flags PAYLOAD_FLAG_LEGACY_TYPE then ob_append_byte (blocks h) buff (of_nat ty) else Some buff);
        buff \<leftarrow> (if packet_version \<ge> 1 then ob_append_byte (blocks h) buff (of_int seq) else Some buff);
        Some (0, c, buff, g) }))"

definition frame_broadcast :: "overlay_frame \<Rightarrow> u8 list option" where
  "frame_broadcast p =
     (if frame_destination p = None \<and> broadcast_id p \<noteq> replicate BROADCAST_LEN 0 then Some (broadcast_id p) else None)"

definition overlay_frame_append_payload :: "heap \<Rightarrow> decode_context \<Rightarrow> int \<Rightarrow> overlay_frame \<Rightarrow> nat option \<Rightarrow> overlay_buffer \<Rightarrow> bool \<Rightarrow> mesh
    \<Rightarrow> (int \<times> decode_context \<times> overlay_buffer \<times> mesh) run" where
  "overlay_frame_append_payload h c encap p nh b will_retransmit g = do {
     (ret, c, b, g) \<leftarrow> overlay_frame_build_header h (frame_packet_version p) c (ob_checkpoint b) (frame_queue p) (frame_type p)
       (modifiers p) will_retransmit (ttl p) (mdp_sequence p AND 0xFF) (frame_broadcast p) nh (frame_destination p) (source p) g;
     if ret = - 1 then Some (- 1, c, ob_rewind b, g)
     else do {
       pay \<leftarrow> payload p;
       b \<leftarrow> (if encap = ENCAP_OVERLAY then ob_append_ui16 (blocks h) b (of_nat (ob_position pay)) else Some b);
       b \<leftarrow> (if ob_position pay = 0 then Some b
             else do {
               vs \<leftarrow> ob_load (pay\<lparr>position := 0\<rparr>) (ob_position pay);
               ob_append_bytes (blocks h) b vs });
       Some (if ob_overrun b then (- 1, c, ob_rewind b, g) else (0, c, b, g)) } }"

text \<open>Frames that are copied share nothing with the original but what they point to.\<close>

definition op_dup :: "heap \<Rightarrow> overlay_frame \<Rightarrow> overlay_frame option run" where
  "op_dup h p =
     (if \<not> objects h New_Frame then Some None
      else case payload p of
             None \<Rightarrow> Some (Some p)
           | Some b \<Rightarrow> do {
               d \<leftarrow> ob_dup (blocks h) b;
               Some (case d of None \<Rightarrow> None | Some b \<Rightarrow> Some (p\<lparr>payload := Some b\<rparr>)) })"

section \<open>The header of a packet\<close>

definition overlay_packet_init_header :: "heap \<Rightarrow> int \<Rightarrow> int \<Rightarrow> decode_context \<Rightarrow> overlay_buffer \<Rightarrow> bool \<Rightarrow> nat \<Rightarrow> int \<Rightarrow> mesh
    \<Rightarrow> (int \<times> decode_context \<times> overlay_buffer \<times> mesh) run" where
  "overlay_packet_init_header h packet_version encap c buff uni iface seq g =
     (if packet_version < 0 \<or> packet_version > SUPPORTED_PACKET_VERSION then Some (- 1, c, buff, g)
      else if encap \<noteq> ENCAP_OVERLAY \<and> encap \<noteq> ENCAP_SINGLE then Some (- 1, c, buff, g)
      else do {
        buff \<leftarrow> ob_append_byte (blocks h) buff (of_int packet_version);
        buff \<leftarrow> ob_append_byte (blocks h) buff (of_int encap);
        i \<leftarrow> map_option (\<lambda>i. interfaces g ! i) (ctx_interface c);
        let c = (if point_to_point i \<and> other_device i \<noteq> None \<and> packet_version \<ge> 1
                 then c\<lparr>point_to_point_device := other_device i\<rparr> else c);
        (c, buff, g) \<leftarrow> append_address h (my_subscriber g) (c\<lparr>header_flag := True\<rparr>, buff, g);
        let c = c\<lparr>header_flag := False, sender := my_subscriber g\<rparr>;
        let flags = flag_if uni PACKET_UNICAST OR flag_if (iface \<noteq> 0) PACKET_INTERFACE OR flag_if (seq \<ge> 0) PACKET_SEQ;
        buff \<leftarrow> ob_append_byte (blocks h) buff (of_nat flags);
        buff \<leftarrow> (if has flags PACKET_INTERFACE then ob_append_byte (blocks h) buff (of_nat iface) else Some buff);
        buff \<leftarrow> (if has flags PACKET_SEQ then ob_append_byte (blocks h) buff (of_int seq) else Some buff);
        Some (0, c, buff, g) })"

section \<open>Parsing the header of a frame\<close>

text \<open>
  The local variables of \<open>parseMdpPacketHeader\<close> and what its arguments point to.  Each part of the function
  gives whether it went on (\<^const>\<open>False\<close> for a return of -1).
\<close>

record mdp_header =
  mh_process :: bool
  mh_forward :: bool
  mh_context :: decode_context
  mh_frame :: overlay_frame
  mh_buffer :: overlay_buffer
  mh_nexthop :: "nat option"
  mh_mesh :: mesh

definition parse_address :: "heap \<Rightarrow> int \<Rightarrow> nat option \<Rightarrow> mdp_header \<Rightarrow> (bool \<times> nat option \<times> mdp_header) run" where
  "parse_address h now old s = do {
     (ret, c, b, out, g) \<leftarrow> overlay_address_parse h now (Some (mh_context s)) (mh_buffer s) (Some old) (mh_mesh s);
     c \<leftarrow> c;
     v \<leftarrow> out;
     Some (0 \<le> ret, v, s\<lparr>mh_context := c, mh_buffer := b, mh_mesh := g\<rparr>) }"

definition not_self :: "mdp_header \<Rightarrow> nat option \<Rightarrow> bool" where
  "not_self s v \<longleftrightarrow> (case v of None \<Rightarrow> True | Some a \<Rightarrow> reachable (sub (mh_mesh s) a) \<noteq> REACHABLE_SELF)"

definition parse_source :: "heap \<Rightarrow> int \<Rightarrow> nat \<Rightarrow> mdp_header \<Rightarrow> (bool \<times> mdp_header) run" where
  "parse_source h now flags s =
     (if has flags PAYLOAD_FLAG_SENDER_SAME
      then (let c = mh_context s;
                c' = (if sender c = None then c\<lparr>header_flag := True\<rparr> else c)
            in Some (True, s\<lparr>mh_context := c', mh_frame := (mh_frame s)\<lparr>source := sender c\<rparr>\<rparr>))
      else do {
        (ok, v, s) \<leftarrow> parse_address h now (source (mh_frame s)) s;
        let s = s\<lparr>mh_frame := (mh_frame s)\<lparr>source := v\<rparr>\<rparr>;
        let s = (if ok \<and> (v = None \<or> \<not> not_self s v) then s\<lparr>mh_process := False, mh_forward := False\<rparr> else s);
        Some (ok, s) })"

definition parse_broadcast :: "int \<Rightarrow> mdp_header \<Rightarrow> (bool \<times> mdp_header) run" where
  "parse_broadcast now s = do {
     (addr, b) \<leftarrow> overlay_broadcast_parse (mh_buffer s);
     let s = s\<lparr>mh_buffer := b\<rparr>;
     case addr of
       None \<Rightarrow> Some (False, s)
     | Some addr \<Rightarrow>
         (let (dropped, g) = overlay_broadcast_drop_check addr (mh_mesh s);
              s = s\<lparr>mh_frame := (mh_frame s)\<lparr>broadcast_id := addr\<rparr>, mh_mesh := g\<rparr>;
              s = (if dropped then s\<lparr>mh_process := False, mh_forward := False\<rparr> else s);
              s = (if link_state_should_forward_broadcast now (sender (mh_context s)) g then s else s\<lparr>mh_forward := False\<rparr>)
          in Some (True, s)) }"

definition parse_target :: "heap \<Rightarrow> int \<Rightarrow> nat \<Rightarrow> mdp_header \<Rightarrow> (bool \<times> mdp_header) run" where
  "parse_target h now flags s =
     (if has flags PAYLOAD_FLAG_TO_BROADCAST
      then do {
        (ok, s) \<leftarrow> (if has flags PAYLOAD_FLAG_ONE_HOP then Some (True, s) else parse_broadcast now s);
        Some (ok, if ok then s\<lparr>mh_frame := (mh_frame s)\<lparr>frame_destination := None\<rparr>\<rparr> else s) }
      else do {
        (ok, v, s) \<leftarrow> parse_address h now (frame_destination (mh_frame s)) s;
        let s = s\<lparr>mh_frame := (mh_frame s)\<lparr>frame_destination := v\<rparr>\<rparr>;
        if \<not> ok then Some (False, s)
        else do {
          let s = (if not_self s v then s\<lparr>mh_process := False\<rparr> else s);
          if has flags PAYLOAD_FLAG_ONE_HOP then Some (True, s)
          else do {
            (ok, v, s) \<leftarrow> parse_address h now (mh_nexthop s) s;
            let s = s\<lparr>mh_nexthop := v\<rparr>;
            Some (ok, if ok \<and> not_self s v then s\<lparr>mh_forward := False\<rparr> else s) } } })"

definition parse_ttl :: "nat \<Rightarrow> mdp_header \<Rightarrow> (bool \<times> mdp_header) run" where
  "parse_ttl flags s = do {
     (ok, s) \<leftarrow> (if has flags PAYLOAD_FLAG_ONE_HOP
                  then Some (True, s\<lparr>mh_frame := (mh_frame s)\<lparr>ttl := 1\<rparr>\<rparr>)
                  else do {
                    (ttl_qos, b) \<leftarrow> ob_get (mh_buffer s);
                    if ttl_qos < 0 then Some (False, s\<lparr>mh_buffer := b\<rparr>)
                    else Some (True, s\<lparr>mh_buffer := b, mh_frame := (mh_frame s)\<lparr>ttl := nat ttl_qos AND 0x1F,
                                 frame_queue := drop_bit 5 (nat ttl_qos) AND 3\<rparr>\<rparr>) });
     if \<not> ok then Some (False, s)
     else (let s = s\<lparr>mh_frame := (mh_frame s)\<lparr>ttl := ttl (mh_frame s) - 1\<rparr>\<rparr>
           in Some (True, if ttl (mh_frame s) = 0 then s\<lparr>mh_forward := False\<rparr> else s)) }"

definition parse_type :: "nat \<Rightarrow> mdp_header \<Rightarrow> (bool \<times> mdp_header) run" where
  "parse_type flags s =
     (if has flags PAYLOAD_FLAG_LEGACY_TYPE
      then do {
        (ftype, b) \<leftarrow> ob_get (mh_buffer s);
        let s = s\<lparr>mh_buffer := b\<rparr>;
        Some (if ftype = - 1 then (False, s) else (True, s\<lparr>mh_frame := (mh_frame s)\<lparr>frame_type := nat ftype\<rparr>\<rparr>)) }
      else Some (True, s\<lparr>mh_frame := (mh_frame s)\<lparr>frame_type := OF_TYPE_DATA\<rparr>\<rparr>))"

definition parse_seq :: "mdp_header \<Rightarrow> (bool \<times> mdp_header) run" where
  "parse_seq s =
     (if ctx_packet_version (mh_context s) \<ge> 1
      then do {
        (seq, b) \<leftarrow> ob_get (mh_buffer s);
        let s = s\<lparr>mh_buffer := b\<rparr>;
        if seq = - 1 then Some (False, s)
        else do {
          (dup, g) \<leftarrow> link_received_duplicate (sender (mh_context s)) seq (mh_mesh s);
          let s = s\<lparr>mh_mesh := g\<rparr>;
          Some (True, if dup then s\<lparr>mh_process := False, mh_forward := False\<rparr> else s) } }
      else Some (True, s))"

definition parse_last :: "nat \<Rightarrow> mdp_header \<Rightarrow> int \<times> mdp_header" where
  "parse_last flags s =
     (let s = s\<lparr>mh_frame := (mh_frame s)\<lparr>modifiers := flags, frame_packet_version := ctx_packet_version (mh_context s)\<rparr>\<rparr>;
          s = (if (mh_forward s \<or> mh_process s) \<and> header_flag (mh_context s)
               then s\<lparr>mh_process := False, mh_forward := False\<rparr> else s)
      in ((if mh_forward s then HEADER_FORWARD else 0) + (if mh_process s then HEADER_PROCESS else 0), s))"

text \<open>One part after the other, until one fails.\<close>

definition and_then :: "(bool \<times> mdp_header) run \<Rightarrow> (mdp_header \<Rightarrow> (bool \<times> mdp_header) run) \<Rightarrow> (bool \<times> mdp_header) run" where
  "and_then r f = do { (ok, s) \<leftarrow> r; if ok then f s else Some (False, s) }"

definition parseMdpPacketHeader :: "heap \<Rightarrow> int \<Rightarrow> decode_context \<Rightarrow> overlay_frame \<Rightarrow> overlay_buffer \<Rightarrow> nat option \<Rightarrow> mesh \<Rightarrow> (int \<times> mdp_header) run" where
  "parseMdpPacketHeader h now c f b nexthop g = do {
     (flags, b) \<leftarrow> ob_get b;
     let s = \<lparr>mh_process = True, mh_forward = True, mh_context = c, mh_frame = f, mh_buffer = b, mh_nexthop = nexthop, mh_mesh = g\<rparr>;
     if flags < 0 then Some (- 1, s)
     else do {
       let flags = nat flags;
       (ok, s) \<leftarrow> and_then (and_then (and_then (and_then (parse_source h now flags s)
         (parse_target h now flags)) (parse_ttl flags)) (parse_type flags)) parse_seq;
       Some (if ok then parse_last flags s else (- 1, s)) } }"

section \<open>Flags and small fields\<close>

lemma has_bit: "has x (2 ^ k) \<longleftrightarrow> bit x k"
  by (simp add: has_def and_exp_eq_0_iff_not_bit)

lemma has_flag:
  "has x PAYLOAD_FLAG_SENDER_SAME \<longleftrightarrow> bit x 0" "has x PAYLOAD_FLAG_TO_BROADCAST \<longleftrightarrow> bit x 1"
  "has x PAYLOAD_FLAG_ONE_HOP \<longleftrightarrow> bit x 2" "has x PAYLOAD_FLAG_LEGACY_TYPE \<longleftrightarrow> bit x 7"
  using has_bit [of x 0] has_bit [of x 1] has_bit [of x 2] has_bit [of x 7] by (simp_all add: payload_flags)

lemma bit_flag_if: "bit (flag_if p (2 ^ k)) n \<longleftrightarrow> p \<and> n = k"
  by (auto simp: flag_if_def bit_exp_iff)

lemma flag_powers:
  "PAYLOAD_FLAG_SENDER_SAME = 2 ^ 0" "PAYLOAD_FLAG_TO_BROADCAST = 2 ^ 1" "PAYLOAD_FLAG_ONE_HOP = 2 ^ 2"
  "PAYLOAD_FLAG_CIPHERED = 2 ^ 4" "PAYLOAD_FLAG_SIGNED = 2 ^ 5" "PAYLOAD_FLAG_ACK_SOON = 2 ^ 6" "PAYLOAD_FLAG_LEGACY_TYPE = 2 ^ 7"
  by (simp_all add: payload_flags)

definition one_hop :: "nat \<Rightarrow> u8 list option \<Rightarrow> nat option \<Rightarrow> nat option \<Rightarrow> bool" where
  "one_hop t broadcast nh dst \<longleftrightarrow> t = 1 \<and> broadcast = None \<or> dst \<noteq> None \<and> dst = nh"

lemma bit_frame_flags:
  "bit (frame_flags c ty mods w t broadcast nh dst src) n \<longleftrightarrow>
     n = 0 \<and> src = sender c \<or> n = 1 \<and> dst = None \<or> n = 2 \<and> one_hop t broadcast nh dst
     \<or> (n = 4 \<or> n = 5) \<and> bit mods n \<or> n = 6 \<and> w \<or> n = 7 \<and> ty \<noteq> OF_TYPE_DATA"
  unfolding frame_flags_def flag_powers bit_or_iff bit_and_iff bit_flag_if bit_exp_iff one_hop_def by auto

lemma frame_flags_less: "frame_flags c ty mods w t broadcast nh dst src < 256"
proof -
  have "take_bit 8 (frame_flags c ty mods w t broadcast nh dst src) = frame_flags c ty mods w t broadcast nh dst src"
    by (rule bit_eqI) (auto simp: bit_take_bit_iff bit_frame_flags)
  then show ?thesis by (simp add: take_bit_nat_eq_self_iff)
qed

lemma uint_byte: "n < 256 \<Longrightarrow> uint (of_nat n :: u8) = int n"
  by (simp add: uint_nat unat_of_nat)

lemma bit_less: "t < 2 ^ k \<Longrightarrow> bit t n \<Longrightarrow> n < k" for t :: nat
  by (metis bit_take_bit_iff take_bit_nat_eq_self_iff)

lemma bit_mask_nat: "bit (0x1F :: nat) n \<longleftrightarrow> n < 5" "bit (3 :: nat) n \<longleftrightarrow> n < 2"
  using bit_mask_iff [where 'a = nat, of 5 n] bit_mask_iff [where 'a = nat, of 2 n] by (simp_all add: mask_eq_exp_minus_1)

lemma ttl_qos:
  fixes t q :: nat
  assumes "t < 32"
  shows "(t OR push_bit 5 (q AND 3)) AND 0x1F = t" and "drop_bit 5 (t OR push_bit 5 (q AND 3)) AND 3 = q AND 3"
    and "(t OR push_bit 5 (q AND 3)) < 256"
proof -
  have t: "bit t n \<Longrightarrow> n < 5" for n using assms bit_less [of t 5 n] by simp
  show "(t OR push_bit 5 (q AND 3)) AND 0x1F = t"
    by (rule bit_eqI) (auto simp: bit_and_iff bit_or_iff bit_push_bit_iff bit_mask_nat dest: t)
  show "drop_bit 5 (t OR push_bit 5 (q AND 3)) AND 3 = q AND 3"
    by (rule bit_eqI) (auto simp: bit_and_iff bit_or_iff bit_push_bit_iff bit_drop_bit_eq bit_mask_nat dest: t)
  have "take_bit 8 (t OR push_bit 5 (q AND 3)) = t OR push_bit 5 (q AND 3)"
    by (rule bit_eqI, unfold bit_take_bit_iff bit_or_iff bit_push_bit_iff bit_and_iff bit_mask_nat) (auto dest: t)
  then have "(t OR push_bit 5 (q AND 3)) < 2 ^ 8" by (metis take_bit_nat_less_exp)
  then show "(t OR push_bit 5 (q AND 3)) < 256" by simp
qed

section \<open>A header survives the way from one node to another\<close>

text \<open>
  \<open>writes n w c g wire c' g'\<close>: whenever there is space for \<open>n\<close> bytes, \<open>w\<close> appends exactly \<open>wire\<close>, which is not
  longer, and leaves the context and the state as given.
\<close>

definition writes :: "nat \<Rightarrow> (decode_context \<times> overlay_buffer \<times> mesh \<Rightarrow> (decode_context \<times> overlay_buffer \<times> mesh) run)
    \<Rightarrow> decode_context \<Rightarrow> mesh \<Rightarrow> u8 list \<Rightarrow> decode_context \<Rightarrow> mesh \<Rightarrow> bool" where
  "writes n w c g wire c' g' \<longleftrightarrow> (\<forall>b k. ob_good b \<longrightarrow> ob_space b (n + k) \<longrightarrow>
     (\<exists>b'. w (c, b, g) = Some (c', b', g') \<and> ob_good b' \<and> ob_data b' = ob_data b @ wire \<and> ob_space b' k))"

lemma writesD:
  assumes "writes n w c g wire c' g'" and "ob_good b" and "ob_space b (n + k)"
  obtains b' where "w (c, b, g) = Some (c', b', g')" and "ob_good b'" and "ob_data b' = ob_data b @ wire" and "ob_space b' k"
  using assms unfolding writes_def by blast

lemma writes_nothing: "writes n Some c g [] c g"
  unfolding writes_def by (auto intro: ob_space_mono)

lemma writes_then:
  assumes "writes n w c g wire c1 g1" and "writes n' w' c1 g1 wire' c2 g2"
  shows "writes (n + n') (\<lambda>s. w s \<bind> w') c g (wire @ wire') c2 g2"
  unfolding writes_def
proof (intro allI impI)
  fix b k assume b: "ob_good b" "ob_space b (n + n' + k)"
  then obtain b1 where b1: "w (c, b, g) = Some (c1, b1, g1)" "ob_good b1" "ob_data b1 = ob_data b @ wire" "ob_space b1 (n' + k)"
    using writesD [OF assms(1), of b "n' + k"] by (metis add.assoc)
  then obtain b2 where "w' (c1, b1, g1) = Some (c2, b2, g2)" "ob_good b2" "ob_data b2 = ob_data b1 @ wire'" "ob_space b2 k"
    using writesD [OF assms(2) b1(2,4)] by blast
  then show "\<exists>b'. w (c, b, g) \<bind> w' = Some (c2, b', g2) \<and> ob_good b' \<and> ob_data b' = ob_data b @ wire @ wire' \<and> ob_space b' k"
    using b1 by simp
qed

definition append_raw :: "heap \<Rightarrow> u8 list \<Rightarrow> decode_context \<times> overlay_buffer \<times> mesh \<Rightarrow> (decode_context \<times> overlay_buffer \<times> mesh) run" where
  "append_raw h vs s = (case s of (c, b, g) \<Rightarrow> do { b \<leftarrow> ob_append_block (blocks h) b vs; Some (c, b, g) })"

lemma writes_raw:
  assumes "malloc_total (blocks h)" and "vs \<noteq> []" and "length vs \<le> n"
  shows "writes n (append_raw h vs) c g vs c g"
  unfolding writes_def
proof (intro allI impI)
  fix b k assume b: "ob_good b" "ob_space b (n + k)"
  have "ob_space b (length vs + k)" by (rule ob_space_mono [OF b(2)]) (use assms(3) in simp)
  from append_one [OF assms(1) b(1) this assms(2)] obtain b' where "ob_append_block (blocks h) b vs = Some b'" "ob_good b'"
      "ob_data b' = ob_data b @ vs" "ob_space b' k" .
  then show "\<exists>b'. append_raw h vs (c, b, g) = Some (c, b', g) \<and> ob_good b' \<and> ob_data b' = ob_data b @ vs \<and> ob_space b' k"
    by (simp add: append_raw_def)
qed

text \<open>\<open>reads\<close>: reading \<open>wire\<close>, whatever follows, succeeds and gives a state that \<open>P\<close> relates to the old one.\<close>

definition reads :: "(mdp_header \<Rightarrow> (bool \<times> mdp_header) run) \<Rightarrow> mdp_header \<Rightarrow> u8 list \<Rightarrow> mdp_header \<Rightarrow> bool" where
  "reads f s wire s' \<longleftrightarrow> (\<forall>r ys. ob_good r \<longrightarrow> ob_rest r = wire @ ys \<longrightarrow>
     (\<exists>r'. f (s\<lparr>mh_buffer := r\<rparr>) = Some (True, s'\<lparr>mh_buffer := r'\<rparr>) \<and> ob_good r' \<and> ob_rest r' = ys))"

lemma readsD:
  assumes "reads f s wire s'" and "ob_good r" and "ob_rest r = wire @ ys"
  obtains r' where "f (s\<lparr>mh_buffer := r\<rparr>) = Some (True, s'\<lparr>mh_buffer := r'\<rparr>)" and "ob_good r'" and "ob_rest r' = ys"
  using assms unfolding reads_def by blast

lemma reads_then:
  assumes "reads f s wire s1" and "reads f' s1 wire' s2"
  shows "reads (\<lambda>s. and_then (f s) f') s (wire @ wire') s2"
  unfolding reads_def
proof (intro allI impI)
  fix r ys assume r: "ob_good r" "ob_rest r = (wire @ wire') @ ys"
  then obtain r1 where r1: "f (s\<lparr>mh_buffer := r\<rparr>) = Some (True, s1\<lparr>mh_buffer := r1\<rparr>)" "ob_good r1" "ob_rest r1 = wire' @ ys"
    using readsD [OF assms(1) r(1), of "wire' @ ys"] by (metis append.assoc)
  from readsD [OF assms(2) r1(2,3)] obtain r2 where "f' (s1\<lparr>mh_buffer := r1\<rparr>) = Some (True, s2\<lparr>mh_buffer := r2\<rparr>)"
      "ob_good r2" "ob_rest r2 = ys" .
  then show "\<exists>r'. and_then (f (s\<lparr>mh_buffer := r\<rparr>)) f' = Some (True, s2\<lparr>mh_buffer := r'\<rparr>) \<and> ob_good r' \<and> ob_rest r' = ys"
    using r1(1) by (intro exI [of _ r2]) (simp add: and_then_def)
qed

text \<open>An address on both sides.\<close>

lemma address_write_read:
  assumes "malloc_total (blocks h)" and tA: "table_ok (tree gA) (subs gA)" and tB: "table_ok (tree gB) (subs gB)"
    and agree: "contexts_agree gA cA gB cB" and known: "knows gB gA a"
  obtains wire gA' x where "writes 33 (append_address h (Some a)) cA gA wire (cA\<lparr>previous := Some a\<rparr>) gA'"
    and "same_table gA gA'" and "same_sid gA a gB x"
    and "contexts_agree gA' (cA\<lparr>previous := Some a\<rparr>) gB (cB\<lparr>previous := Some x\<rparr>)"
    and "\<And>h' now r ys out. ob_good r \<Longrightarrow> ob_rest r = wire @ ys \<Longrightarrow>
      \<exists>r'. overlay_address_parse h' now (Some cB) r (Some out) gB = Some (0, Some (cB\<lparr>previous := Some x\<rparr>), r', Some (Some x), gB)
        \<and> ob_good r' \<and> ob_rest r' = ys"
proof -
  obtain code where code: "address_code gA (Some cA) a = Some code" using address_code_defined agree by blast
  obtain x where x: "same_sid gA a gB x" using known by (auto simp: knows_def)
  have a: "a < length (subs gA)" using x by (simp add: same_sid_def)
  define gA' where "gA' = (if code = None \<and> send_full (sub gA a) then set_sub a ((sub gA a)\<lparr>send_full := False\<rparr>) gA else gA)"
  have st: "same_table gA gA'" using same_table_refl [of gA] same_table_send_full [of gA a False] by (simp add: gA'_def)
  have "writes 33 (append_address h (Some a)) cA gA (address_bytes (Some cA) (sub gA a) code) (cA\<lparr>previous := Some a\<rparr>) gA'"
    unfolding writes_def
  proof (intro allI impI)
    fix b k assume b: "ob_good b" "ob_space b (33 + k)"
    obtain b' g' where "overlay_address_append h (Some cA) b (Some a) gA = Some (map_option (\<lambda>c. c\<lparr>previous := Some a\<rparr>) (Some cA), b', g')"
        "ob_good b'" "ob_data b' = ob_data b @ address_bytes (Some cA) (sub gA a) code" "ob_space b' k" "g' = gA'"
      unfolding gA'_def by (rule overlay_address_append_ok [OF assms(1) b tA a code])
    then show "\<exists>b'. append_address h (Some a) (cA, b, gA) = Some (cA\<lparr>previous := Some a\<rparr>, b', gA') \<and> ob_good b'
        \<and> ob_data b' = ob_data b @ address_bytes (Some cA) (sub gA a) code \<and> ob_space b' k"
      by (simp add: append_address_def)
  qed
  moreover have "contexts_agree gA' (cA\<lparr>previous := Some a\<rparr>) gB (cB\<lparr>previous := Some x\<rparr>)"
    by (rule same_table_agree [OF st contexts_agree_previous [OF agree x]])
  moreover have "\<exists>r'. overlay_address_parse h' now (Some cB) r (Some out) gB = Some (0, Some (cB\<lparr>previous := Some x\<rparr>), r', Some (Some x), gB)
      \<and> ob_good r' \<and> ob_rest r' = ys"
    if r: "ob_good r" "ob_rest r = address_bytes (Some cA) (sub gA a) code @ ys" for h' now r ys out
  proof -
    obtain y r' where y: "overlay_address_parse h' now (Some cB) r (Some out) gB = Some (0, Some (cB\<lparr>previous := Some y\<rparr>), r', Some (Some y), gB)"
        "ob_good r'" "ob_rest r' = ys" "same_sid gA a gB y"
      by (rule overlay_address_parse_ok [OF agree tB known code r])
    have "y = x"
      using y(4) x nth_eq_iff_index_eq [OF table_ok_distinct [OF tB], of y x] by (simp add: same_sid_def)
    then show ?thesis using y(1-3) by auto
  qed
  ultimately show ?thesis using that st x by blast
qed

text \<open>The parts of the writer, in the order of the parts of the parser.\<close>

definition write_source :: "heap \<Rightarrow> nat option \<Rightarrow> decode_context \<times> overlay_buffer \<times> mesh \<Rightarrow> (decode_context \<times> overlay_buffer \<times> mesh) run" where
  "write_source h src s = (if src = sender (fst s) then Some s else append_address h src s)"

definition write_target :: "heap \<Rightarrow> bool \<Rightarrow> u8 list option \<Rightarrow> nat option \<Rightarrow> nat option \<Rightarrow> decode_context \<times> overlay_buffer \<times> mesh
    \<Rightarrow> (decode_context \<times> overlay_buffer \<times> mesh) run" where
  "write_target h one broadcast nh dst s =
     (if dst = None then if one then Some s else (case broadcast of None \<Rightarrow> None | Some vs \<Rightarrow> append_raw h vs s)
      else append_address h dst s \<bind> (if one then Some else append_address h nh))"

definition write_byte_if :: "heap \<Rightarrow> bool \<Rightarrow> u8 \<Rightarrow> decode_context \<times> overlay_buffer \<times> mesh \<Rightarrow> (decode_context \<times> overlay_buffer \<times> mesh) run" where
  "write_byte_if h p v s = (if p then append_raw h [v] s else Some s)"

lemma tail_part:
  "(if one then Some b else ob_append_byte (blocks h) b v1) \<bind> (\<lambda>b. (if p2 then ob_append_byte (blocks h) b v2 else Some b)
     \<bind> (\<lambda>b. (if p3 then ob_append_byte (blocks h) b v3 else Some b) \<bind> (\<lambda>b. Some (0, c, b, g))))
   = map_option (Pair 0) (write_byte_if h (\<not> one) v1 (c, b, g) \<bind> write_byte_if h p2 v2 \<bind> write_byte_if h p3 v3)"
  by (cases one; cases p2; cases p3) (simp_all add: write_byte_if_def append_raw_def ob_append_byte_def split: bind_splits)

lemma target_part:
  "broadcast \<noteq> Some [] \<Longrightarrow>
   (if dst = None then if one then Some (c, b, g) else overlay_broadcast_append h b broadcast \<bind> (\<lambda>b. Some (c, b, g))
    else append_address h dst (c, b, g) \<bind> (\<lambda>(c, b, g). if one then Some (c, b, g) else append_address h nh (c, b, g)))
   = write_target h one broadcast nh dst (c, b, g)"
  by (cases broadcast; cases one)
    (simp_all add: write_target_def overlay_broadcast_append_def append_raw_def ob_append_bytes_def case_prod_beta')

lemma flags_parts:
  "has (frame_flags c ty mods w t broadcast nh dst src) PAYLOAD_FLAG_SENDER_SAME \<longleftrightarrow> src = sender c"
  "has (frame_flags c ty mods w t broadcast nh dst src) PAYLOAD_FLAG_TO_BROADCAST \<longleftrightarrow> dst = None"
  "has (frame_flags c ty mods w t broadcast nh dst src) PAYLOAD_FLAG_ONE_HOP \<longleftrightarrow> one_hop t broadcast nh dst"
  "has (frame_flags c ty mods w t broadcast nh dst src) PAYLOAD_FLAG_LEGACY_TYPE \<longleftrightarrow> ty \<noteq> OF_TYPE_DATA"
  unfolding has_flag bit_frame_flags by auto

lemma case_eta: "(\<lambda>(c, b, g). f (c, b, g)) = f"
  by auto

lemma map_option_bind: "map_option f (x \<bind> y) = x \<bind> (\<lambda>v. map_option f (y v))"
  by (cases x) simp_all

lemma build_header_parts:
  assumes "t \<le> PAYLOAD_TTL_MAX" and "broadcast \<noteq> Some []"
  shows "overlay_frame_build_header h pv c b q ty mods w t seq broadcast nh dst src g =
    map_option (Pair 0) (append_raw h [of_nat (frame_flags c ty mods w t broadcast nh dst src)] (c, b, g)
      \<bind> write_source h src \<bind> write_target h (one_hop t broadcast nh dst) broadcast nh dst
      \<bind> write_byte_if h (\<not> one_hop t broadcast nh dst) (of_nat (t OR push_bit 5 (q AND 3)))
      \<bind> write_byte_if h (ty \<noteq> OF_TYPE_DATA) (of_nat ty) \<bind> write_byte_if h (pv \<ge> 1) (of_int seq))"
proof -
  define flags where "flags = frame_flags c ty mods w t broadcast nh dst src"
  have src: "(if src = sender c then Some (c, b, g) else append_address h src (c, b, g)) = write_source h src (c, b, g)" for b
    by (simp add: write_source_def)
  note parts = flags_parts [of c ty mods w t broadcast nh dst src, folded flags_def]
  have "overlay_frame_build_header h pv c b q ty mods w t seq broadcast nh dst src g =
      ob_append_byte (blocks h) b (of_nat flags) \<bind> (\<lambda>b. write_source h src (c, b, g) \<bind>
        (\<lambda>(c, b, g). write_target h (one_hop t broadcast nh dst) broadcast nh dst (c, b, g) \<bind> (\<lambda>(c, b, g).
          map_option (Pair 0) (write_byte_if h (\<not> one_hop t broadcast nh dst) (of_nat (t OR push_bit 5 (q AND 3))) (c, b, g) \<bind>
          write_byte_if h (ty \<noteq> OF_TYPE_DATA) (of_nat ty) \<bind> write_byte_if h (pv \<ge> 1) (of_int seq)))))"
    using leD [OF assms(1)]
    unfolding overlay_frame_build_header_def Let_def flags_def [symmetric] parts target_part [OF assms(2)] src tail_part
    by (simp only: if_False)
  also have "\<dots> = map_option (Pair 0) (append_raw h [of_nat flags] (c, b, g)
      \<bind> write_source h src \<bind> write_target h (one_hop t broadcast nh dst) broadcast nh dst
      \<bind> write_byte_if h (\<not> one_hop t broadcast nh dst) (of_nat (t OR push_bit 5 (q AND 3)))
      \<bind> write_byte_if h (ty \<noteq> OF_TYPE_DATA) (of_nat ty) \<bind> write_byte_if h (pv \<ge> 1) (of_int seq))"
    by (simp only: append_raw_def ob_append_byte_def map_option_bind case_prod_beta' bind_assoc bind.bind_lunit prod.sel prod.collapse)
  finally show ?thesis unfolding flags_def .
qed

text \<open>Reading one address, as a part of the parser.\<close>

definition reads_address :: "u8 list \<Rightarrow> decode_context \<Rightarrow> mesh \<Rightarrow> nat \<Rightarrow> bool" where
  "reads_address wire cB gB x \<longleftrightarrow> (\<forall>h now r ys old s. ob_good r \<longrightarrow> ob_rest r = wire @ ys \<longrightarrow> mh_context s = cB \<longrightarrow> mh_mesh s = gB \<longrightarrow>
     (\<exists>r'. parse_address h now old (s\<lparr>mh_buffer := r\<rparr>) = Some (True, Some x, s\<lparr>mh_context := cB\<lparr>previous := Some x\<rparr>, mh_buffer := r'\<rparr>)
       \<and> ob_good r' \<and> ob_rest r' = ys))"

lemma reads_addressD:
  assumes "reads_address wire cB gB x" and "ob_good r" and "ob_rest r = wire @ ys" and "mh_context s = cB" and "mh_mesh s = gB"
  obtains r' where "parse_address h now old (s\<lparr>mh_buffer := r\<rparr>) = Some (True, Some x, s\<lparr>mh_context := cB\<lparr>previous := Some x\<rparr>, mh_buffer := r'\<rparr>)"
    and "ob_good r'" and "ob_rest r' = ys"
  using assms unfolding reads_address_def by blast

lemma address_stage:
  assumes "malloc_total (blocks h)" and "table_ok (tree gA) (subs gA)" and "table_ok (tree gB) (subs gB)"
    and "contexts_agree gA cA gB cB" and "knows gB gA a"
  obtains wire gA' x where "writes 33 (append_address h (Some a)) cA gA wire (cA\<lparr>previous := Some a\<rparr>) gA'"
    and "same_table gA gA'" and "same_sid gA a gB x"
    and "contexts_agree gA' (cA\<lparr>previous := Some a\<rparr>) gB (cB\<lparr>previous := Some x\<rparr>)" and "reads_address wire cB gB x"
proof -
  obtain wire gA' x where w: "writes 33 (append_address h (Some a)) cA gA wire (cA\<lparr>previous := Some a\<rparr>) gA'" "same_table gA gA'"
      "same_sid gA a gB x" "contexts_agree gA' (cA\<lparr>previous := Some a\<rparr>) gB (cB\<lparr>previous := Some x\<rparr>)"
    and rd: "\<And>h' now r ys out. ob_good r \<Longrightarrow> ob_rest r = wire @ ys \<Longrightarrow>
      \<exists>r'. overlay_address_parse h' now (Some cB) r (Some out) gB = Some (0, Some (cB\<lparr>previous := Some x\<rparr>), r', Some (Some x), gB)
        \<and> ob_good r' \<and> ob_rest r' = ys"
    by (rule address_write_read [OF assms]) blast
  have "reads_address wire cB gB x"
    unfolding reads_address_def
  proof (intro allI impI)
    fix h :: heap and now r ys old and s :: mdp_header
    assume a: "ob_good r" "ob_rest r = wire @ ys" "mh_context s = cB" "mh_mesh s = gB"
    from rd [OF a(1,2)] obtain r' where
      "overlay_address_parse h now (Some cB) r (Some old) gB = Some (0, Some (cB\<lparr>previous := Some x\<rparr>), r', Some (Some x), gB)"
      "ob_good r'" "ob_rest r' = ys" by blast
    then show "\<exists>r'. parse_address h now old (s\<lparr>mh_buffer := r\<rparr>) = Some (True, Some x, s\<lparr>mh_context := cB\<lparr>previous := Some x\<rparr>, mh_buffer := r'\<rparr>)
        \<and> ob_good r' \<and> ob_rest r' = ys"
      using a(3,4) by (intro exI [of _ r']) (cases s, simp add: parse_address_def)
  qed
  then show ?thesis using that w by blast
qed

text \<open>The source.\<close>

lemma source_stage:
  assumes "malloc_total (blocks h)" and "table_ok (tree gA) (subs gA)" and "table_ok (tree gB) (subs gB)"
    and agree: "contexts_agree gA cA gB cB" and "knows gB gA a" and s: "mh_context s = cB" "mh_mesh s = gB"
    and fl: "has flags PAYLOAD_FLAG_SENDER_SAME \<longleftrightarrow> Some a = sender cA"
  obtains wire cA' gA' x p f pv where "writes 33 (write_source h (Some a)) cA gA wire cA' gA'" and "same_table gA gA'"
    and "same_sid gA a gB x" and "contexts_agree gA' cA' gB (cB\<lparr>previous := pv\<rparr>)"
    and "reads (parse_source h' now flags) s wire
      (s\<lparr>mh_process := p, mh_forward := f, mh_context := cB\<lparr>previous := pv\<rparr>, mh_frame := (mh_frame s)\<lparr>source := Some x\<rparr>\<rparr>)"
proof (cases "sender cA = Some a")
  case True
  then obtain x where x: "sender cB = Some x" "same_sid gA a gB x" using agree by (auto simp: contexts_agree_def)
  have "writes 33 (write_source h (Some a)) cA gA [] cA gA"
    using writes_nothing [of 33 cA gA] True by (simp add: writes_def write_source_def)
  moreover have "contexts_agree gA cA gB (cB\<lparr>previous := previous cB\<rparr>)" using agree by simp
  moreover have "reads (parse_source h' now flags) s [] (s\<lparr>mh_process := mh_process s, mh_forward := mh_forward s,
      mh_context := cB\<lparr>previous := previous cB\<rparr>, mh_frame := (mh_frame s)\<lparr>source := Some x\<rparr>\<rparr>)"
    unfolding reads_def using fl True x s by (cases s) (auto simp: parse_source_def Let_def)
  ultimately show ?thesis using that same_table_refl x(2) by blast
next
  case False
  obtain wire gA' x where w: "writes 33 (append_address h (Some a)) cA gA wire (cA\<lparr>previous := Some a\<rparr>) gA'" "same_table gA gA'"
      "same_sid gA a gB x" "contexts_agree gA' (cA\<lparr>previous := Some a\<rparr>) gB (cB\<lparr>previous := Some x\<rparr>)" "reads_address wire cB gB x"
    by (rule address_stage [OF assms(1-5)])
  let ?keep = "reachable (sub gB x) \<noteq> REACHABLE_SELF"
  let ?s' = "s\<lparr>mh_process := mh_process s \<and> ?keep, mh_forward := mh_forward s \<and> ?keep, mh_context := cB\<lparr>previous := Some x\<rparr>,
     mh_frame := (mh_frame s)\<lparr>source := Some x\<rparr>\<rparr>"
  have "writes 33 (write_source h (Some a)) cA gA wire (cA\<lparr>previous := Some a\<rparr>) gA'"
    using w(1) False by (simp add: writes_def write_source_def eq_commute)
  moreover have "reads (parse_source h' now flags) s wire ?s'"
    unfolding reads_def
  proof (intro allI impI)
    fix r ys assume "ob_good r" "ob_rest r = wire @ ys"
    from reads_addressD [OF w(5) this s] obtain r' where
      "parse_address h' now (source (mh_frame s)) (s\<lparr>mh_buffer := r\<rparr>) = Some (True, Some x, s\<lparr>mh_context := cB\<lparr>previous := Some x\<rparr>, mh_buffer := r'\<rparr>)"
      "ob_good r'" "ob_rest r' = ys" .
    then show "\<exists>r'. parse_source h' now flags (s\<lparr>mh_buffer := r\<rparr>) = Some (True, ?s'\<lparr>mh_buffer := r'\<rparr>) \<and> ob_good r' \<and> ob_rest r' = ys"
      using fl False s(2) by (intro exI [of _ r']) (cases s, auto simp: parse_source_def not_self_def Let_def)
  qed
  ultimately show ?thesis using that w(2-4) by blast
qed

text \<open>The destination, the next hop and the broadcast id.\<close>

definition target_matches :: "mesh \<Rightarrow> nat option \<Rightarrow> nat option \<Rightarrow> bool \<Rightarrow> u8 list option \<Rightarrow> mesh \<Rightarrow> overlay_frame \<Rightarrow> nat option \<Rightarrow> bool" where
  "target_matches gA dst nh one broadcast gB f nexthop \<longleftrightarrow> (case dst of
     None \<Rightarrow> frame_destination f = None \<and> (\<not> one \<longrightarrow> broadcast = Some (broadcast_id f))
   | Some d \<Rightarrow> (\<exists>y. frame_destination f = Some y \<and> same_sid gA d gB y)
       \<and> (\<not> one \<longrightarrow> (\<exists>n y. nh = Some n \<and> nexthop = Some y \<and> same_sid gA n gB y)))"

text \<open>What the writer and the reader are left with after the addresses.\<close>

definition target_done :: "mesh \<Rightarrow> decode_context \<Rightarrow> mesh \<Rightarrow> decode_context \<Rightarrow> mdp_header \<Rightarrow> mdp_header \<Rightarrow> bool" where
  "target_done gA' cA' gB cB s s' \<longleftrightarrow> contexts_agree gA' cA' (mh_mesh s') (mh_context s')
     \<and> (\<exists>pv. mh_context s' = cB\<lparr>previous := pv\<rparr>) \<and> (\<exists>l. mh_mesh s' = gB\<lparr>bpilist := l\<rparr>)
     \<and> source (mh_frame s') = source (mh_frame s)"

lemma contexts_agree_bpilist [simp]: "contexts_agree gA cA (gB\<lparr>bpilist := l\<rparr>) cB = contexts_agree gA cA gB cB"
  by (simp add: contexts_agree_def same_sid_def)

lemma target_stage_broadcast:
  assumes m: "malloc_total (blocks h)" and agree: "contexts_agree gA cA gB cB" and s: "mh_context s = cB" "mh_mesh s = gB"
    and fl: "has flags PAYLOAD_FLAG_TO_BROADCAST" "\<not> has flags PAYLOAD_FLAG_ONE_HOP" and vs: "length vs = BROADCAST_LEN"
  obtains s' where "writes 66 (write_target h False (Some vs) nh None) cA gA vs cA gA"
    and "reads (parse_target h' now flags) s vs s'"
    and "target_matches gA None nh False (Some vs) gB (mh_frame s') (mh_nexthop s')" and "target_done gA cA gB cB s s'"
proof -
  have ne: "vs \<noteq> []" using vs by (auto simp: BROADCAST_LEN_def)
  have w: "writes 66 (write_target h False (Some vs) nh None) cA gA vs cA gA"
    using writes_raw [OF m ne, of 66 cA gA] vs by (simp add: writes_def write_target_def BROADCAST_LEN_def)
  obtain dropped g where dc: "overlay_broadcast_drop_check vs gB = (dropped, g)" by fastforce
  define s' where "s' = s\<lparr>mh_process := mh_process s \<and> \<not> dropped,
    mh_forward := mh_forward s \<and> \<not> dropped \<and> link_state_should_forward_broadcast now (sender cB) g,
    mh_frame := (mh_frame s)\<lparr>broadcast_id := vs, frame_destination := None\<rparr>, mh_mesh := g\<rparr>"
  have g: "\<exists>l. g = gB\<lparr>bpilist := l\<rparr>"
    using dc by (auto simp: overlay_broadcast_drop_check_def split: if_splits intro: exI [of _ "bpilist gB"])
  have rd: "reads (parse_target h' now flags) s vs s'"
    unfolding reads_def
  proof (intro allI impI)
    fix r ys assume r: "ob_good r" "ob_rest r = vs @ ys"
    from ob_get_bytes_rest [OF r] obtain r' where "ob_get_bytes r BROADCAST_LEN = Some (Some vs, r')" "ob_good r'" "ob_rest r' = ys"
      unfolding vs .
    then show "\<exists>r'. parse_target h' now flags (s\<lparr>mh_buffer := r\<rparr>) = Some (True, s'\<lparr>mh_buffer := r'\<rparr>) \<and> ob_good r' \<and> ob_rest r' = ys"
      using fl s dc by (intro exI [of _ r']) (cases s, auto simp: parse_target_def parse_broadcast_def overlay_broadcast_parse_def s'_def Let_def)
  qed
  have "target_done gA cA gB cB s s'" using g agree s(1) unfolding target_done_def
    by (auto simp: s'_def intro: exI [of _ "previous cB"])
  moreover have "target_matches gA None nh False (Some vs) gB (mh_frame s') (mh_nexthop s')" by (simp add: target_matches_def s'_def)
  ultimately show ?thesis using that [OF w rd] by blast
qed

lemma target_stage_everyone:
  assumes agree: "contexts_agree gA cA gB cB" and s: "mh_context s = cB" "mh_mesh s = gB"
    and fl: "has flags PAYLOAD_FLAG_TO_BROADCAST" "has flags PAYLOAD_FLAG_ONE_HOP"
  obtains s' where "writes 66 (write_target h True broadcast nh None) cA gA [] cA gA"
    and "reads (parse_target h' now flags) s [] s'"
    and "target_matches gA None nh True broadcast gB (mh_frame s') (mh_nexthop s')" and "target_done gA cA gB cB s s'"
proof -
  define s' where "s' = s\<lparr>mh_frame := (mh_frame s)\<lparr>frame_destination := None\<rparr>\<rparr>"
  have w: "writes 66 (write_target h True broadcast nh None) cA gA [] cA gA"
    using writes_nothing [of 66 cA gA] by (simp add: writes_def write_target_def)
  have rd: "reads (parse_target h' now flags) s [] s'"
    unfolding reads_def s'_def using fl by (cases s) (auto simp: parse_target_def)
  have "target_done gA cA gB cB s s'" unfolding target_done_def using agree s
    by (auto simp: s'_def intro: exI [of _ "previous cB"] exI [of _ "bpilist gB"])
  moreover have "target_matches gA None nh True broadcast gB (mh_frame s') (mh_nexthop s')" by (simp add: target_matches_def s'_def)
  ultimately show ?thesis using that [OF w rd] by blast
qed

lemma target_stage_one:
  assumes m: "malloc_total (blocks h)" and tA: "table_ok (tree gA) (subs gA)" and tB: "table_ok (tree gB) (subs gB)"
    and agree: "contexts_agree gA cA gB cB" and d: "knows gB gA d" and n: "\<not> one \<Longrightarrow> \<exists>n. nh = Some n \<and> knows gB gA n"
    and s: "mh_context s = cB" "mh_mesh s = gB"
    and fl: "\<not> has flags PAYLOAD_FLAG_TO_BROADCAST" "has flags PAYLOAD_FLAG_ONE_HOP \<longleftrightarrow> one"
  obtains wire cA' gA' s' where "writes 66 (write_target h one broadcast nh (Some d)) cA gA wire cA' gA'" and "same_table gA gA'"
    and "reads (parse_target h' now flags) s wire s'"
    and "target_matches gA (Some d) nh one broadcast gB (mh_frame s') (mh_nexthop s')" and "target_done gA' cA' gB cB s s'"
proof -
  obtain wire gA1 x where w: "writes 33 (append_address h (Some d)) cA gA wire (cA\<lparr>previous := Some d\<rparr>) gA1" "same_table gA gA1"
      "same_sid gA d gB x" "contexts_agree gA1 (cA\<lparr>previous := Some d\<rparr>) gB (cB\<lparr>previous := Some x\<rparr>)" "reads_address wire cB gB x"
    by (rule address_stage [OF m tA tB agree d])
  let ?self = "reachable (sub gB x) = REACHABLE_SELF"
  define s1 where "s1 = s\<lparr>mh_process := mh_process s \<and> ?self, mh_context := cB\<lparr>previous := Some x\<rparr>,
    mh_frame := (mh_frame s)\<lparr>frame_destination := Some x\<rparr>\<rparr>"
  have first: "\<exists>r'. parse_address h' now (frame_destination (mh_frame s)) (s\<lparr>mh_buffer := r\<rparr>)
      = Some (True, Some x, s\<lparr>mh_context := cB\<lparr>previous := Some x\<rparr>, mh_buffer := r'\<rparr>) \<and> ob_good r' \<and> ob_rest r' = ys"
    if "ob_good r" "ob_rest r = wire @ ys" for r ys
    using reads_addressD [OF w(5) that s] by blast
  show ?thesis
  proof (cases one)
    case True
    have "writes (33 + 33) (\<lambda>s. append_address h (Some d) s \<bind> Some) cA gA (wire @ []) (cA\<lparr>previous := Some d\<rparr>) gA1"
      by (rule writes_then [OF w(1) writes_nothing])
    then have wr: "writes 66 (write_target h one broadcast nh (Some d)) cA gA wire (cA\<lparr>previous := Some d\<rparr>) gA1"
      using True by (simp add: writes_def write_target_def)
    have rd: "reads (parse_target h' now flags) s wire s1"
      unfolding reads_def
    proof (intro allI impI)
      fix r ys assume "ob_good r" "ob_rest r = wire @ ys"
      from first [OF this] obtain r' where "parse_address h' now (frame_destination (mh_frame s)) (s\<lparr>mh_buffer := r\<rparr>)
        = Some (True, Some x, s\<lparr>mh_context := cB\<lparr>previous := Some x\<rparr>, mh_buffer := r'\<rparr>)" "ob_good r'" "ob_rest r' = ys" by blast
      then show "\<exists>r'. parse_target h' now flags (s\<lparr>mh_buffer := r\<rparr>) = Some (True, s1\<lparr>mh_buffer := r'\<rparr>) \<and> ob_good r' \<and> ob_rest r' = ys"
        using fl True s(2) by (intro exI [of _ r']) (cases s, auto simp: parse_target_def s1_def not_self_def Let_def)
    qed
    have "target_done gA1 (cA\<lparr>previous := Some d\<rparr>) gB cB s s1" unfolding target_done_def using w(4) s
      by (auto simp: s1_def intro: exI [of _ "Some x"] exI [of _ "bpilist gB"])
    moreover have "target_matches gA (Some d) nh one broadcast gB (mh_frame s1) (mh_nexthop s1)"
      using True w(3) by (simp add: target_matches_def s1_def)
    ultimately show ?thesis using that [OF wr w(2) rd] by blast
  next
    case False
    then obtain n where n: "nh = Some n" "knows gB gA n" using n by blast
    have n1: "knows gB gA1 n" using n(2) same_table_knows [OF w(2)] by simp
    obtain wire2 gA2 y where v: "writes 33 (append_address h (Some n)) (cA\<lparr>previous := Some d\<rparr>) gA1 wire2 (cA\<lparr>previous := Some d\<rparr>\<lparr>previous := Some n\<rparr>) gA2"
        "same_table gA1 gA2" "same_sid gA1 n gB y"
        "contexts_agree gA2 (cA\<lparr>previous := Some d\<rparr>\<lparr>previous := Some n\<rparr>) gB (cB\<lparr>previous := Some x\<rparr>\<lparr>previous := Some y\<rparr>)"
        "reads_address wire2 (cB\<lparr>previous := Some x\<rparr>) gB y"
      by (rule address_stage [OF m same_table_ok [OF w(2) tA] tB w(4) n1])
    have "writes (33 + 33) (\<lambda>s. append_address h (Some d) s \<bind> append_address h (Some n)) cA gA (wire @ wire2) (cA\<lparr>previous := Some n\<rparr>) gA2"
      using writes_then [OF w(1) v(1)] by simp
    then have wr: "writes 66 (write_target h one broadcast nh (Some d)) cA gA (wire @ wire2) (cA\<lparr>previous := Some n\<rparr>) gA2"
      using False n(1) by (simp add: writes_def write_target_def)
    have st: "same_table gA gA2" using w(2) v(2) by (auto simp: same_table_def)
    define s2 where "s2 = s1\<lparr>mh_nexthop := Some y, mh_context := cB\<lparr>previous := Some y\<rparr>,
      mh_forward := mh_forward s \<and> reachable (sub gB y) = REACHABLE_SELF\<rparr>"
    have rd: "reads (parse_target h' now flags) s (wire @ wire2) s2"
      unfolding reads_def
    proof (intro allI impI)
      fix r ys assume r: "ob_good r" "ob_rest r = (wire @ wire2) @ ys"
      from first [of r "wire2 @ ys"] r obtain r1 where r1: "parse_address h' now (frame_destination (mh_frame s)) (s\<lparr>mh_buffer := r\<rparr>)
        = Some (True, Some x, s\<lparr>mh_context := cB\<lparr>previous := Some x\<rparr>, mh_buffer := r1\<rparr>)" "ob_good r1" "ob_rest r1 = wire2 @ ys" by auto
      have s1: "mh_context s1 = cB\<lparr>previous := Some x\<rparr>" "mh_mesh s1 = gB" using s by (simp_all add: s1_def)
      from reads_addressD [OF v(5) r1(2,3) s1] obtain r2 where r2: "parse_address h' now (mh_nexthop s) (s1\<lparr>mh_buffer := r1\<rparr>)
        = Some (True, Some y, s1\<lparr>mh_context := cB\<lparr>previous := Some x\<rparr>\<lparr>previous := Some y\<rparr>, mh_buffer := r2\<rparr>)" "ob_good r2" "ob_rest r2 = ys" .
      show "\<exists>r'. parse_target h' now flags (s\<lparr>mh_buffer := r\<rparr>) = Some (True, s2\<lparr>mh_buffer := r'\<rparr>) \<and> ob_good r' \<and> ob_rest r' = ys"
        using fl False s(2) r1(1) r2
        by (intro exI [of _ r2]) (cases s, auto simp: parse_target_def s2_def s1_def not_self_def Let_def)
    qed
    have "target_done gA2 (cA\<lparr>previous := Some n\<rparr>) gB cB s s2" unfolding target_done_def using v(4) s
      by (auto simp: s2_def s1_def intro: exI [of _ "Some y"] exI [of _ "bpilist gB"])
    moreover have "target_matches gA (Some d) nh one broadcast gB (mh_frame s2) (mh_nexthop s2)"
      using n(1) w(3) v(3) same_table_sid [OF w(2)] by (simp add: target_matches_def s2_def s1_def)
    ultimately show ?thesis using that [OF wr st rd] by blast
  qed
qed

text \<open>The last fields.\<close>

lemma writes_byte_if: "malloc_total (blocks h) \<Longrightarrow> writes 1 (write_byte_if h p v) c g (if p then [v] else []) c g"
  using writes_raw [of h "[v]" 1 c g] writes_nothing [of 1 c g] by (simp add: writes_def write_byte_if_def)

lemma readsI_byte:
  assumes "\<And>r r'. ob_get r = Some (uint v, r') \<Longrightarrow> f (s\<lparr>mh_buffer := r\<rparr>) = Some (True, s'\<lparr>mh_buffer := r'\<rparr>)"
  shows "reads f s [v] s'"
  unfolding reads_def
proof (intro allI impI)
  fix r ys assume "ob_good r" "ob_rest r = [v] @ ys"
  then obtain r' where "ob_get r = Some (uint v, r')" "ob_good r'" "ob_rest r' = ys" using ob_get_rest [of r v ys] by auto
  then show "\<exists>r'. f (s\<lparr>mh_buffer := r\<rparr>) = Some (True, s'\<lparr>mh_buffer := r'\<rparr>) \<and> ob_good r' \<and> ob_rest r' = ys"
    using assms by blast
qed

lemma readsI_nothing: "(\<And>r. f (s\<lparr>mh_buffer := r\<rparr>) = Some (True, s'\<lparr>mh_buffer := r\<rparr>)) \<Longrightarrow> reads f s [] s'"
  unfolding reads_def by auto

lemma reads_ttl:
  assumes "t \<le> PAYLOAD_TTL_MAX" and fl: "has flags PAYLOAD_FLAG_ONE_HOP \<longleftrightarrow> one"
  shows "reads (parse_ttl flags) s (if \<not> one then [of_nat (t OR push_bit 5 (q AND 3))] else [])
    (s\<lparr>mh_frame := (mh_frame s)\<lparr>ttl := (if one then 1 else t) - 1, frame_queue := (if one then frame_queue (mh_frame s) else q AND 3)\<rparr>,
       mh_forward := mh_forward s \<and> (if one then 1 else t) - 1 \<noteq> 0\<rparr>)"
proof (cases one)
  case True
  then show ?thesis using fl by (cases s) (simp add: readsI_nothing parse_ttl_def)
next
  case False
  have t: "t < 32" using assms(1) by (simp add: PAYLOAD_TTL_MAX_def)
  note q = ttl_qos [OF t, of q]
  have u: "uint (of_nat (t OR push_bit 5 (q AND 3)) :: u8) = int (t OR push_bit 5 (q AND 3))" by (rule uint_byte [OF q(3)])
  have "reads (parse_ttl flags) s [of_nat (t OR push_bit 5 (q AND 3))]
    (s\<lparr>mh_frame := (mh_frame s)\<lparr>ttl := t - 1, frame_queue := q AND 3\<rparr>, mh_forward := mh_forward s \<and> t - 1 \<noteq> 0\<rparr>)"
  proof (rule readsI_byte)
    fix r r' assume "ob_get r = Some (uint (of_nat (t OR push_bit 5 (q AND 3)) :: u8), r')"
    then have "ob_get r = Some (int (t OR push_bit 5 (q AND 3)), r')" unfolding u .
    then show "parse_ttl flags (s\<lparr>mh_buffer := r\<rparr>) = Some (True, s\<lparr>mh_frame := (mh_frame s)\<lparr>ttl := t - 1, frame_queue := q AND 3\<rparr>,
        mh_forward := mh_forward s \<and> t - 1 \<noteq> 0\<rparr>\<lparr>mh_buffer := r'\<rparr>)"
      using fl False q(1,2) by (cases s; cases "mh_frame s") (simp add: parse_ttl_def Let_def del: push_bit_and)
  qed
  then show ?thesis using False by simp
qed

lemma reads_type:
  assumes "ty < 256" and fl: "has flags PAYLOAD_FLAG_LEGACY_TYPE \<longleftrightarrow> ty \<noteq> OF_TYPE_DATA"
  shows "reads (parse_type flags) s (if ty \<noteq> OF_TYPE_DATA then [of_nat ty] else []) (s\<lparr>mh_frame := (mh_frame s)\<lparr>frame_type := ty\<rparr>\<rparr>)"
proof (cases "ty = OF_TYPE_DATA")
  case True
  then show ?thesis using fl by (cases s) (simp add: readsI_nothing parse_type_def)
next
  case False
  have "reads (parse_type flags) s [of_nat ty] (s\<lparr>mh_frame := (mh_frame s)\<lparr>frame_type := ty\<rparr>\<rparr>)"
    by (rule readsI_byte) (use fl False in \<open>cases s, simp add: parse_type_def uint_byte [OF assms(1)]\<close>)
  then show ?thesis using False by simp
qed

definition seq_defined :: "mesh \<Rightarrow> nat option \<Rightarrow> int \<Rightarrow> bool" where
  "seq_defined g a seq \<longleftrightarrow> (\<forall>n. neighbour_of g a = Some n \<longrightarrow> duplicate_window seq n \<noteq> None)"

lemma reads_seq:
  assumes "0 \<le> seq" and "seq < 256" and def: "seq_defined (mh_mesh s) (sender (mh_context s)) seq"
  obtains s' where "reads parse_seq s (if ctx_packet_version (mh_context s) \<ge> 1 then [of_int seq] else []) s'"
    and "mh_frame s' = mh_frame s" and "mh_nexthop s' = mh_nexthop s" and "mh_context s' = mh_context s"
    and "\<exists>ns. mh_mesh s' = (mh_mesh s)\<lparr>neighbours := ns\<rparr>"
proof (cases "ctx_packet_version (mh_context s) \<ge> 1")
  case False
  show ?thesis by (rule that [of s]) (use False in \<open>auto simp: parse_seq_def intro!: readsI_nothing exI [of _ "neighbours (mh_mesh s)"]\<close>)
next
  case True
  have u: "uint (of_int seq :: u8) = seq" using assms(1,2) by (simp add: uint_word_of_int)
  have "\<exists>dup g. link_received_duplicate (sender (mh_context s)) seq (mh_mesh s) = Some (dup, g) \<and> (\<exists>ns. g = (mh_mesh s)\<lparr>neighbours := ns\<rparr>)"
  proof (cases "neighbour_of (mh_mesh s) (sender (mh_context s))")
    case None
    have "mh_mesh s = (mh_mesh s)\<lparr>neighbours := neighbours (mh_mesh s)\<rparr>" by simp
    then show ?thesis using None unfolding link_received_duplicate_def by (simp only: option.case) blast
  next
    case (Some n)
    then obtain dup n' where "duplicate_window seq n = Some (dup, n')" using def by (auto simp: seq_defined_def)
    then show ?thesis using Some unfolding link_received_duplicate_def set_neighbour_def by simp blast
  qed
  then obtain dup g where lr: "link_received_duplicate (sender (mh_context s)) seq (mh_mesh s) = Some (dup, g)"
      "\<exists>ns. g = (mh_mesh s)\<lparr>neighbours := ns\<rparr>" by blast
  let ?s' = "s\<lparr>mh_mesh := g, mh_process := mh_process s \<and> \<not> dup, mh_forward := mh_forward s \<and> \<not> dup\<rparr>"
  have "reads parse_seq s [of_int seq] ?s'"
    by (rule readsI_byte) (use True lr(1) assms(1) in \<open>cases s, auto simp: parse_seq_def u Let_def\<close>)
  then show ?thesis using that [of ?s'] True lr(2) by simp
qed

section \<open>The whole header\<close>

text \<open>A frame header that can be written: the subscribers it names are known to the reader, and its fields fit.\<close>

definition header_fits :: "mesh \<Rightarrow> mesh \<Rightarrow> nat \<Rightarrow> nat \<Rightarrow> int \<Rightarrow> u8 list option \<Rightarrow> nat option \<Rightarrow> nat option \<Rightarrow> nat \<Rightarrow> bool" where
  "header_fits gA gB ty t seq broadcast nh dst a \<longleftrightarrow>
     knows gB gA a \<and> (\<forall>d. dst = Some d \<longrightarrow> knows gB gA d)
     \<and> (dst \<noteq> None \<and> \<not> one_hop t broadcast nh dst \<longrightarrow> (\<exists>n. nh = Some n \<and> knows gB gA n))
     \<and> (dst = None \<and> \<not> one_hop t broadcast nh dst \<longrightarrow> broadcast \<noteq> None)
     \<and> (\<forall>vs. broadcast = Some vs \<longrightarrow> length vs = BROADCAST_LEN)
     \<and> t \<le> PAYLOAD_TTL_MAX \<and> ty < 256 \<and> 0 \<le> seq \<and> seq < 256"

text \<open>What the reader makes of it: the time to live is one less, and 0 for a frame sent over one hop.\<close>

definition header_matches :: "mesh \<Rightarrow> nat \<Rightarrow> nat \<Rightarrow> nat \<Rightarrow> nat \<Rightarrow> u8 list option \<Rightarrow> nat option \<Rightarrow> nat option \<Rightarrow> nat \<Rightarrow> mesh \<Rightarrow> mdp_header \<Rightarrow> bool" where
  "header_matches gA flags q ty t broadcast nh dst a gB s \<longleftrightarrow>
     (\<exists>x. source (mh_frame s) = Some x \<and> same_sid gA a gB x)
     \<and> target_matches gA dst nh (one_hop t broadcast nh dst) broadcast gB (mh_frame s) (mh_nexthop s)
     \<and> ttl (mh_frame s) = (if one_hop t broadcast nh dst then 0 else t - 1)
     \<and> (\<not> one_hop t broadcast nh dst \<longrightarrow> frame_queue (mh_frame s) = q AND 3)
     \<and> frame_type (mh_frame s) = ty \<and> modifiers (mh_frame s) = flags"

lemma target_stage:
  assumes m: "malloc_total (blocks h)" and tA: "table_ok (tree gA) (subs gA)" and tB: "table_ok (tree gB) (subs gB)"
    and agree: "contexts_agree gA cA gB cB" and s: "mh_context s = cB" "mh_mesh s = gB"
    and fl: "has flags PAYLOAD_FLAG_TO_BROADCAST \<longleftrightarrow> dst = None" "has flags PAYLOAD_FLAG_ONE_HOP \<longleftrightarrow> one"
    and fits: "header_fits gA gB ty t seq broadcast nh dst a" and one: "one = one_hop t broadcast nh dst"
  obtains wire cA' gA' s' where "writes 66 (write_target h one broadcast nh dst) cA gA wire cA' gA'" and "same_table gA gA'"
    and "reads (parse_target h' now flags) s wire s'"
    and "target_matches gA dst nh one broadcast gB (mh_frame s') (mh_nexthop s')" and "target_done gA' cA' gB cB s s'"
proof (cases dst)
  case (Some d)
  have d: "knows gB gA d" and n: "\<not> one \<Longrightarrow> \<exists>n. nh = Some n \<and> knows gB gA n"
    using fits Some by (auto simp: header_fits_def one)
  have fl': "\<not> has flags PAYLOAD_FLAG_TO_BROADCAST" using fl(1) Some by simp
  show ?thesis by (rule target_stage_one [OF m tA tB agree d n s fl' fl(2)]) (use that Some in blast)+
next
  case None
  then have bc: "has flags PAYLOAD_FLAG_TO_BROADCAST" using fl(1) by simp
  show ?thesis
  proof (cases one)
    case True
    then have "has flags PAYLOAD_FLAG_ONE_HOP" using fl(2) by simp
    from target_stage_everyone [OF agree s bc this] obtain s' where "writes 66 (write_target h True broadcast nh None) cA gA [] cA gA"
      "reads (parse_target h' now flags) s [] s'" "target_matches gA None nh True broadcast gB (mh_frame s') (mh_nexthop s')"
      "target_done gA cA gB cB s s'" by blast
    then show ?thesis using that [of "[]" cA gA s'] same_table_refl None True by simp
  next
    case False
    obtain vs where vs: "broadcast = Some vs" "length vs = BROADCAST_LEN" using fits None False by (auto simp: header_fits_def one)
    from target_stage_broadcast [OF m agree s bc _ vs(2)] fl(2) False obtain s' where
      "writes 66 (write_target h False (Some vs) nh None) cA gA vs cA gA" "reads (parse_target h' now flags) s vs s'"
      "target_matches gA None nh False (Some vs) gB (mh_frame s') (mh_nexthop s')" "target_done gA cA gB cB s s'" by blast
    then show ?thesis using that [of vs cA gA s'] same_table_refl None False vs(1) by simp
  qed
qed

text \<open>All that is written, and all that is read of it after the flags.\<close>

lemma header_stages:
  assumes m: "malloc_total (blocks h)" and tA: "table_ok (tree gA) (subs gA)" and tB: "table_ok (tree gB) (subs gB)"
    and agree: "contexts_agree gA cA gB cB" and s0: "mh_context s0 = cB" "mh_mesh s0 = gB"
    and fits: "header_fits gA gB ty t seq broadcast nh dst a" and pv: "ctx_packet_version cB = pv"
    and def: "seq_defined gB (sender cB) seq" and flags: "flags = frame_flags cA ty mods w t broadcast nh dst (Some a)"
  obtains wire cA' gA' s' where
    "writes 102 (\<lambda>s. write_source h (Some a) s \<bind> write_target h (one_hop t broadcast nh dst) broadcast nh dst
       \<bind> write_byte_if h (\<not> one_hop t broadcast nh dst) (of_nat (t OR push_bit 5 (q AND 3)))
       \<bind> write_byte_if h (ty \<noteq> OF_TYPE_DATA) (of_nat ty) \<bind> write_byte_if h (pv \<ge> 1) (of_int seq)) cA gA wire cA' gA'"
    and "reads (\<lambda>s. and_then (and_then (and_then (and_then (parse_source h' now flags s) (parse_target h' now flags))
       (parse_ttl flags)) (parse_type flags)) parse_seq) s0 wire s'"
    and "contexts_agree gA' cA' (mh_mesh s') (mh_context s')"
    and "header_matches gA flags q ty t broadcast nh dst a gB (snd (parse_last flags s'))"
proof -
  define one where "one = one_hop t broadcast nh dst"
  note fl = flags_parts [of cA ty mods w t broadcast nh dst "Some a", folded flags one_def]
  have small: "t \<le> PAYLOAD_TTL_MAX" "ty < 256" "0 \<le> seq" "seq < 256" and ka: "knows gB gA a" using fits by (auto simp: header_fits_def)
  obtain w1 cA1 gA1 x p f pr where st1: "writes 33 (write_source h (Some a)) cA gA w1 cA1 gA1" "same_table gA gA1" "same_sid gA a gB x"
      "contexts_agree gA1 cA1 gB (cB\<lparr>previous := pr\<rparr>)"
      "reads (parse_source h' now flags) s0 w1 (s0\<lparr>mh_process := p, mh_forward := f, mh_context := cB\<lparr>previous := pr\<rparr>, mh_frame := (mh_frame s0)\<lparr>source := Some x\<rparr>\<rparr>)"
    by (rule source_stage [OF m tA tB agree ka s0 fl(1)])
  define s1 where "s1 = s0\<lparr>mh_process := p, mh_forward := f, mh_context := cB\<lparr>previous := pr\<rparr>, mh_frame := (mh_frame s0)\<lparr>source := Some x\<rparr>\<rparr>"
  have s1: "mh_context s1 = cB\<lparr>previous := pr\<rparr>" "mh_mesh s1 = gB" using s0 by (simp_all add: s1_def)
  have fits1: "header_fits gA1 gB ty t seq broadcast nh dst a" using fits unfolding header_fits_def same_table_knows [OF st1(2)] .
  obtain w2 cA2 gA2 s2 where st2: "writes 66 (write_target h one broadcast nh dst) cA1 gA1 w2 cA2 gA2" "same_table gA1 gA2"
      "reads (parse_target h' now flags) s1 w2 s2" "target_matches gA1 dst nh one broadcast gB (mh_frame s2) (mh_nexthop s2)"
      "target_done gA2 cA2 gB (cB\<lparr>previous := pr\<rparr>) s1 s2"
    by (rule target_stage [OF m same_table_ok [OF st1(2) tA] tB st1(4) s1 fl(2,3) fits1 one_def])
  obtain pr2 l where s2: "mh_context s2 = cB\<lparr>previous := pr2\<rparr>" "mh_mesh s2 = gB\<lparr>bpilist := l\<rparr>" "source (mh_frame s2) = Some x"
      "contexts_agree gA2 cA2 (mh_mesh s2) (mh_context s2)"
    using st2(5) by (auto simp: target_done_def s1_def)
  define s3 where "s3 = s2\<lparr>mh_frame := (mh_frame s2)\<lparr>ttl := (if one then 1 else t) - 1, frame_queue := (if one then frame_queue (mh_frame s2) else q AND 3)\<rparr>,
       mh_forward := mh_forward s2 \<and> (if one then 1 else t) - 1 \<noteq> 0\<rparr>"
  define s4 where "s4 = s3\<lparr>mh_frame := (mh_frame s3)\<lparr>frame_type := ty\<rparr>\<rparr>"
  have s4: "mh_context s4 = mh_context s2" "mh_mesh s4 = mh_mesh s2" by (simp_all add: s4_def s3_def)
  have "seq_defined (mh_mesh s4) (sender (mh_context s4)) seq" using def by (simp add: s4 s2 seq_defined_def neighbour_of_def)
  from reads_seq [OF small(3,4) this] obtain s5 where
    s5: "reads parse_seq s4 (if ctx_packet_version (mh_context s4) \<ge> 1 then [of_int seq] else []) s5" "mh_frame s5 = mh_frame s4"
      "mh_nexthop s5 = mh_nexthop s4" "mh_context s5 = mh_context s4" "\<exists>ns. mh_mesh s5 = (mh_mesh s4)\<lparr>neighbours := ns\<rparr>" by blast
  note wr = writes_then [OF writes_then [OF writes_then [OF writes_then [OF st1(1) st2(1)] writes_byte_if [OF m, of "\<not> one" "of_nat (t OR push_bit 5 (q AND 3))"]]
      writes_byte_if [OF m, of "ty \<noteq> OF_TYPE_DATA" "of_nat ty"]] writes_byte_if [OF m, of "pv \<ge> 1" "of_int seq"]]
  have vers: "(ctx_packet_version (mh_context s4) \<ge> 1) = (pv \<ge> 1)" using pv by (simp add: s4 s2)
  note rd = reads_then [OF reads_then [OF reads_then [OF reads_then [OF st1(5) [folded s1_def] st2(3)]
      reads_ttl [OF small(1) fl(3), of s2 q, folded s3_def]] reads_type [OF small(2) fl(4), of s3, folded s4_def]] s5(1) [unfolded vers]]
  have "contexts_agree gA2 cA2 (mh_mesh s5) (mh_context s5)"
    using s2(4) s5(4,5) s4 by (auto simp: contexts_agree_def same_sid_def)
  moreover have "header_matches gA flags q ty t broadcast nh dst a gB (snd (parse_last flags s5))"
    using st1(3) st2(4) s2(3) s5(2,3) unfolding header_matches_def one_def [symmetric] target_matches_def same_table_sid [OF st1(2)]
    by (auto simp: parse_last_def Let_def s4_def s3_def split: option.splits)
  ultimately show ?thesis using that wr rd unfolding one_def by simp
qed



end
