(* ===== verification/Frame_Decision.thy ===== *)
theory Frame_Decision imports Overlay_Frame
begin

text \<open>
  What the receiver of a frame does with it: \<^verbatim>\<open>parseMdpPacketHeader\<close> of
  \<^verbatim>\<open>overlay_packetformats.c\<close> decides from the header whether the frame is processed and whether it
  is forwarded.  The lemmas follow the stages of the parser, for arbitrary bytes.
\<close>

section \<open>What is processed and what is forwarded\<close>

text \<open>Parsing addresses may add subscribers, but what is known of the others for routing stays.\<close>

definition gentle :: "mesh \<Rightarrow> mesh \<Rightarrow> bool" where
  "gentle g g' \<longleftrightarrow> tree g' = tree g \<and> my_subscriber g' = my_subscriber g \<and> length (subs g') = length (subs g)
     \<and> (\<forall>a < length (subs g). sid (sub g' a) = sid (sub g a) \<and> abbreviate_len (sub g' a) = abbreviate_len (sub g a)
          \<and> reachable (sub g' a) = reachable (sub g a))"

lemma gentle_refl [simp]: "gentle g g"
  by (simp add: gentle_def)

lemma gentle_trans: "gentle g g' \<Longrightarrow> gentle g' g'' \<Longrightarrow> gentle g g''"
  by (simp add: gentle_def)

lemma gentle_set_sub:
  "sid x = sid (sub g a) \<Longrightarrow> abbreviate_len x = abbreviate_len (sub g a) \<Longrightarrow> reachable x = reachable (sub g a) \<Longrightarrow> gentle g (set_sub a x g)"
  by (cases "a < length (subs g)") (auto simp: gentle_def set_sub_def nth_list_update list_update_beyond)

lemma gentle_fields [simp]:
  "gentle g (g'\<lparr>links := l\<rparr>) = gentle g g'" "gentle g (g'\<lparr>queue := q\<rparr>) = gentle g g'" "gentle g (g'\<lparr>bpilist := bl\<rparr>) = gentle g g'"
  "gentle g (g'\<lparr>neighbours := ns\<rparr>) = gentle g g'"
  by (simp_all add: gentle_def)

lemma gentle_update_alarm: "update_alarm t g = Some g' \<Longrightarrow> gentle g g'"
  by (auto simp: update_alarm_def on_queue_def split: if_splits)

lemma gentle_link_explained:
  assumes "link_explained h now a g = Some g'"
  shows "gentle g g'"
proof -
  obtain i g1 where i: "get_link_state h a g = Some (i, g1)" "update_alarm (now + 5) (g1\<lparr>links := (links g1)[i := (links g1 ! i)\<lparr>next_update := now + 5\<rparr>]\<rparr>) = Some g'"
    using assms by (auto simp: link_explained_def split: bind_splits)
  have "gentle g g1"
  proof (cases "link_state (sub g a)")
    case None
    let ?g = "g\<lparr>links := links g @ [zero_link_state\<lparr>ls_route_version := route_version g - 1\<rparr>]\<rparr>"
    have "g1 = set_sub a ((sub ?g a)\<lparr>link_state := Some (length (links g))\<rparr>) ?g"
      using i(1) None by (auto simp: get_link_state_def Let_def split: bind_splits)
    moreover have "gentle g ?g" by simp
    ultimately show ?thesis using gentle_trans [OF _ gentle_set_sub, of g ?g] by simp
  next
    case (Some x)
    then show ?thesis using i(1) by (simp add: get_link_state_def)
  qed
  then show ?thesis using gentle_update_alarm [OF i(2)] by (auto intro: gentle_trans simp: gentle_def)
qed

text \<open>The parts of a context that addresses are resolved with.\<close>

definition same_codes :: "decode_context \<Rightarrow> decode_context \<Rightarrow> bool" where
  "same_codes c c' \<longleftrightarrow> sender c' = sender c \<and> previous c' = previous c \<and> point_to_point_device c' = point_to_point_device c
     \<and> header_flag c' = header_flag c"

lemma same_codes_on_explain: "on_explain f c = Some c' \<Longrightarrow> same_codes c c'"
  by (auto simp: on_explain_def same_codes_def split: bind_splits)

lemma same_codes_start:
  "start_response h c = Some (ok, c') \<Longrightarrow> same_codes c c'" "start_explain h c = Some (ok, c') \<Longrightarrow> same_codes c c'"
  by (auto simp: start_response_def start_explain_def same_codes_def split: if_splits option.splits bind_splits)

lemma same_codes_trans: "same_codes c c' \<Longrightarrow> same_codes c' c'' \<Longrightarrow> same_codes c c''"
  by (simp add: same_codes_def)

lemma gentle_add_explain_response:
  assumes "add_explain_response h now a (c, g) = Some (stop, c', g')"
  shows "gentle g g' \<and> same_codes c c'"
proof (cases "now - last_explained (sub g a) < 500")
  case True
  then show ?thesis using assms by (simp add: add_explain_response_def same_codes_def)
next
  case False
  define g1 where "g1 = set_sub a ((sub g a)\<lparr>last_explained := now\<rparr>) g"
  define g2 where "g2 = (if reachable (sub g1 a) = REACHABLE_SELF then set_sub a ((sub g1 a)\<lparr>send_full := True\<rparr>) g1 else g1)"
  have g1: "gentle g g1" unfolding g1_def by (rule gentle_set_sub) simp_all
  have g2: "gentle g g2" unfolding g2_def using gentle_trans [OF g1 gentle_set_sub] g1 by simp
  obtain ok c1 where c1: "start_response h c = Some (ok, c1)"
    using assms False by (auto simp: add_explain_response_def Let_def split: bind_splits)
  note sc = same_codes_start(1) [OF c1]
  show ?thesis
  proof (cases "ok \<and> \<not> (reachable (sub g1 a) = REACHABLE_SELF \<and> my_subscriber g1 = Some a)")
    case False
    then show ?thesis using assms \<open>\<not> now - last_explained (sub g a) < 500\<close> c1 g1 sc
      by (auto simp: add_explain_response_def Let_def g1_def [symmetric] same_codes_def split: if_splits bind_splits)
  next
    case True
    obtain c2 where c2: "on_explain (\<lambda>b. ob_append_byte (blocks h) (ob_checkpoint b) (of_nat SID_SIZE)
        \<bind> (\<lambda>b. ob_append_bytes (blocks h) b (sid (sub g2 a)))) c1 = Some c2"
      and rest: "c' = c2 \<and> link_explained h now a g2 = Some g' \<or> g' = g2 \<and> on_explain (\<lambda>b. Some (ob_rewind b)) c2 = Some c'"
      using assms \<open>\<not> now - last_explained (sub g a) < 500\<close> c1 True
      by (auto simp: add_explain_response_def Let_def g1_def [symmetric] g2_def [symmetric] split: if_splits bind_splits)
    note sc2 = same_codes_trans [OF sc same_codes_on_explain [OF c2]]
    show ?thesis using rest
    proof (elim disjE conjE)
      assume "c' = c2" "link_explained h now a g2 = Some g'"
      then show ?thesis using gentle_trans [OF g2 gentle_link_explained] sc2 by blast
    next
      assume "g' = g2" "on_explain (\<lambda>b. Some (ob_rewind b)) c2 = Some c'"
      then show ?thesis using g2 same_codes_trans [OF sc2 same_codes_on_explain] by blast
    qed
  qed
qed

lemma walk_tree_inv:
  assumes "\<And>a s stop s'. I s \<Longrightarrow> callback a s = Some (stop, s') \<Longrightarrow> I s'"
    and "I s" and "walk_tree callback t pos start end s = Some (stop, s')"
  shows "I s'"
proof -
  have "visit_list callback as s = Some (stop, s') \<Longrightarrow> I s \<Longrightarrow> I s'" for as
    by (induction as arbitrary: s) (auto split: bind_splits if_splits dest: assms(1))
  then show ?thesis using assms(2,3) unfolding walk_tree_order by blast
qed

definition index_ok :: "mesh \<Rightarrow> nat option \<Rightarrow> bool" where
  "index_ok g v \<longleftrightarrow> (\<forall>a. v = Some a \<longrightarrow> a < length (subs g))"

definition codes_ok :: "mesh \<Rightarrow> decode_context \<Rightarrow> bool" where
  "codes_ok g c \<longleftrightarrow> table_ok (tree g) (subs g) \<and> index_ok g (my_subscriber g) \<and> index_ok g (sender c) \<and> index_ok g (previous c)
     \<and> index_ok g (point_to_point_device c)"

definition keeps :: "mesh \<Rightarrow> mesh \<Rightarrow> bool" where
  "keeps g g' \<longleftrightarrow> length (subs g) \<le> length (subs g') \<and> my_subscriber g' = my_subscriber g
     \<and> (\<forall>a < length (subs g). reachable (sub g' a) = reachable (sub g a))"

lemma keeps_refl [simp]: "keeps g g"
  by (simp add: keeps_def)

lemma keeps_trans: "keeps g g' \<Longrightarrow> keeps g' g'' \<Longrightarrow> keeps g g''"
  by (simp add: keeps_def)

lemma gentle_keeps: "gentle g g' \<Longrightarrow> keeps g g'"
  by (simp add: gentle_def keeps_def)

lemma keeps_index: "keeps g g' \<Longrightarrow> index_ok g v \<Longrightarrow> index_ok g' v"
  by (auto simp: keeps_def index_ok_def)

lemma gentle_codes: "gentle g g' \<Longrightarrow> same_codes c c' \<Longrightarrow> codes_ok g c \<Longrightarrow> codes_ok g' c'"
proof -
  assume g: "gentle g g'" and c: "same_codes c c'" and ok: "codes_ok g c"
  have "table_ok (tree g') (subs g')"
    using g ok wf_slot_same [of "subs g" "[]" "Tree_Node (tree g)" "subs g'"]
    unfolding gentle_def codes_ok_def table_ok_def by (simp del: wf_slot.simps addrs.simps)
  then show ?thesis using g c ok by (simp add: gentle_def codes_ok_def index_ok_def same_codes_def)
qed

lemma ob_load_length: "ob_load b n = Some vs \<Longrightarrow> length vs = n"
  by (auto simp: ob_load_def memread_def split: option.splits if_splits)

lemma extends_reachable: "extends A ss ss' \<Longrightarrow> a < length ss \<Longrightarrow> reachable (ss' ! a) = reachable (ss ! a)"
  unfolding extends_def by (metis forget_abbrev_def subscriber.ext_inject subscriber.surjective subscriber.update_convs(2))

text \<open>What parsing one address keeps.\<close>

definition parse_keeps :: "decode_context \<Rightarrow> mesh \<Rightarrow> decode_context option \<Rightarrow> nat option option \<Rightarrow> mesh \<Rightarrow> bool" where
  "parse_keeps c g c' out g' \<longleftrightarrow> (\<exists>c1 v. c' = Some c1 \<and> out = Some v \<and> codes_ok g' c1 \<and> index_ok g' v \<and> keeps g g'
     \<and> sender c1 = sender c \<and> (header_flag c \<longrightarrow> header_flag c1))"

lemma gentle_walk:
  assumes "walk_tree (add_explain_response h now) slot pos start stp (c, g) = Some (stop, c', g')"
  shows "gentle g g' \<and> same_codes c c'"
proof -
  have step: "(\<lambda>(c1, g1). gentle g g1 \<and> same_codes c c1) s'"
    if "(\<lambda>(c1, g1). gentle g g1 \<and> same_codes c c1) s" "add_explain_response h now a s = Some (r, s')" for a s r s'
    using that gentle_trans same_codes_trans gentle_add_explain_response by (cases s; cases s') (simp, blast)
  have "(\<lambda>(c1, g1). gentle g g1 \<and> same_codes c c1) (c', g')"
    by (rule walk_tree_inv [OF step _ assms]) (simp_all add: same_codes_def)
  then show ?thesis by simp
qed

lemma find_subscr_buffer_unresolved:
  assumes len: "0 < len" "len \<le> int SID_SIZE" and sidp: "ob_get_bytes_ptr b (nat len) = Some (Some sidp, b1)"
    and f: "find_subscriber (nodes h) (tree g) (subs g) sidp (nat len) True = (None, root, ss)"
    and c2: "start_explain h (c\<lparr>header_flag := True\<rparr>) = Some (okk, c2)"
    and r: "find_subscr_buffer h now (Some c) b len (Some v) g = Some (ret, c', b', out, g')"
  shows "\<not> okk \<and> c' = Some c2 \<and> out = Some None \<and> g' = g\<lparr>tree := root, subs := ss\<rparr>
     \<or> (\<exists>stop c3 c4. walk_tree (add_explain_response h now) (Tree_Node root) 0 (Some (sidp, nat len)) (Some (sidp, nat len))
           (c2, g\<lparr>tree := root, subs := ss\<rparr>) = Some (stop, c3, g') \<and> same_codes c3 c4 \<and> c' = Some c4 \<and> out = Some None)"
proof -
  define explain where "explain = (\<lambda>p. ob_append_byte (blocks h) p (of_int len) \<bind> (\<lambda>p. ob_append_bytes (blocks h) p sidp))"
  define w where "w = walk_tree (add_explain_response h now) (Tree_Node root) 0 (Some (sidp, nat len)) (Some (sidp, nat len))
           (c2, g\<lparr>tree := root, subs := ss\<rparr>)"
  have "(if \<not> okk then Some (- 1, Some c2, b1, Some None, g\<lparr>tree := root, subs := ss\<rparr>)
      else w \<bind> (\<lambda>(_, c, g). on_explain explain c \<bind> (\<lambda>c. Some (0, Some c, b1, Some None, g)))) = Some (ret, c', b', out, g')"
    unfolding r [symmetric] using len sidp f c2 by (simp add: find_subscr_buffer_def w_def explain_def del: walk_tree.simps)
  then show ?thesis unfolding w_def [symmetric] by (auto split: if_splits bind_splits) (metis same_codes_on_explain)
qed

lemma find_subscr_buffer_keeps:
  assumes ok: "codes_ok g c" "index_ok g v"
    and "find_subscr_buffer h now (Some c) b len (Some v) g = Some (ret, c', b', out, g')"
  shows "parse_keeps c g c' out g'"
proof -
  have big: "len \<le> 0 \<or> len > int SID_SIZE \<Longrightarrow> c' = Some c \<and> out = Some v \<and> g' = g"
    using assms(3) by (auto simp: find_subscr_buffer_def)
  have "\<not> (len \<le> 0 \<or> len > int SID_SIZE) \<Longrightarrow> ob_get_bytes_ptr b (nat len) \<noteq> None"
    using assms(3) by (cases "ob_get_bytes_ptr b (nat len)") (simp_all add: find_subscr_buffer_def)
  then obtain idp b1 where idp: "\<not> (len \<le> 0 \<or> len > int SID_SIZE) \<Longrightarrow> ob_get_bytes_ptr b (nat len) = Some (idp, b1)"
    by (metis option.exhaust prod.exhaust)
  show ?thesis
  proof (cases "(len \<le> 0 \<or> len > int SID_SIZE) \<or> idp = None")
    case True
    then have "c' = Some c \<and> out = Some v \<and> g' = g" using big idp assms(3) by (auto simp: find_subscr_buffer_def split: if_splits)
    then show ?thesis using ok by (simp add: parse_keeps_def)
  next
    case False
    then obtain sidp where sidp: "idp = Some sidp" by auto
    have len: "length sidp = nat len" "0 < nat len" "nat len \<le> SID_SIZE"
      using idp False sidp by (auto simp: ob_get_bytes_ptr_def split: if_splits bind_splits dest: ob_load_length)
    have n: "0 < len" "len \<le> int SID_SIZE" "ob_get_bytes_ptr b (nat len) = Some (Some sidp, b1)" using False idp sidp by auto
    obtain r root ss where f: "find_subscriber (nodes h) (tree g) (subs g) sidp (nat len) True = (r, root, ss)" by (metis prod_cases3)
    define g1 where "g1 = g\<lparr>tree := root, subs := ss\<rparr>"
    have "table_ok (tree g) (subs g)" using ok by (simp add: codes_ok_def)
    note fs = find_subscriber_ok [OF this f len(2,3,1)]
    have k: "keeps g g1" using fs(2) extends_reachable [OF fs(2)] by (auto simp: keeps_def g1_def extends_def)
    have c1: "codes_ok g1 c" using ok(1) fs(1) keeps_index [OF k] by (simp add: codes_ok_def g1_def index_ok_def) (meson extends_def fs(2) less_le_trans)
    show ?thesis
    proof (cases r)
      case (Some a)
      then have "c' = Some (c\<lparr>previous := Some a\<rparr>)" "out = Some (Some a)" "g' = g1"
        using assms(3) False idp sidp f by (auto simp: find_subscr_buffer_def g1_def)
      moreover have "index_ok g1 (Some a)" using fs(3) [OF Some] by (simp add: index_ok_def g1_def)
      ultimately show ?thesis using c1 k by (simp add: parse_keeps_def codes_ok_def)
    next
      case None
      obtain okk c2 where c2: "start_explain h (c\<lparr>header_flag := True\<rparr>) = Some (okk, c2)"
        using assms(3) False idp sidp f None by (auto simp: find_subscr_buffer_def Let_def split: bind_splits)
      have sc: "same_codes (c\<lparr>header_flag := True\<rparr>) c2" by (rule same_codes_start(2) [OF c2])
      have c1': "codes_ok g1 (c\<lparr>header_flag := True\<rparr>)" using c1 by (simp add: codes_ok_def)
      consider "\<not> okk" "c' = Some c2" "out = Some None" "g' = g1"
        | stop c3 c4 where "walk_tree (add_explain_response h now) (Tree_Node root) 0 (Some (sidp, nat len)) (Some (sidp, nat len)) (c2, g1)
            = Some (stop, c3, g')" "same_codes c3 c4" "c' = Some c4" "out = Some None"
        using find_subscr_buffer_unresolved [OF n f [unfolded None] c2 assms(3), folded g1_def]
        by (elim disjE exE conjE) blast+
      then show ?thesis
      proof cases
        case 1
        then show ?thesis using gentle_codes [OF gentle_refl sc c1'] sc k by (simp add: parse_keeps_def index_ok_def same_codes_def)
      next
        case 2
        note w = gentle_walk [OF 2(1)]
        have "gentle g1 g'" "same_codes (c\<lparr>header_flag := True\<rparr>) c4"
          using w same_codes_trans [OF sc same_codes_trans [OF _ 2(2)]] by blast+
        then show ?thesis using gentle_codes [OF _ _ c1'] keeps_trans [OF k gentle_keeps] 2(3,4)
          by (simp add: parse_keeps_def index_ok_def same_codes_def)
      qed
    qed
  qed
qed

lemma overlay_address_parse_keeps:
  assumes ok: "codes_ok g c" "index_ok g v"
    and p: "overlay_address_parse h now (Some c) b (Some v) g = Some (ret, c', b', out, g')"
  shows "parse_keeps c g c' out g'"
proof -
  obtain len b1 where get: "ob_get b = Some (len, b1)" using p by (cases "ob_get b") (auto simp: overlay_address_parse_def)
  show ?thesis
  proof (cases "0 \<le> len \<and> len \<notin> {uint OA_CODE_P2P_YOU, uint OA_CODE_P2P_ME, uint OA_CODE_SELF, uint OA_CODE_PREVIOUS}")
    case True
    then have "find_subscr_buffer h now (Some c) b1 len (Some v) g = Some (ret, c', b', out, g')"
      using p get by (simp add: overlay_address_parse_def split: if_splits)
    then show ?thesis by (rule find_subscr_buffer_keeps [OF ok])
  next
    case False
    have "\<exists>c1 v'. c' = Some c1 \<and> out = Some v' \<and> g' = g \<and> sender c1 = sender c \<and> (header_flag c \<longrightarrow> header_flag c1)
       \<and> point_to_point_device c1 = point_to_point_device c
       \<and> previous c1 \<in> {previous c, my_subscriber g, point_to_point_device c, sender c}
       \<and> v' \<in> {v, my_subscriber g, point_to_point_device c, sender c, previous c}"
      using p get False
      by (auto simp: overlay_address_parse_def store_def split: if_splits bind_splits option.splits
          dest!: same_codes_start(2) same_codes_on_explain simp: same_codes_def)
    then show ?thesis using ok by (auto simp: parse_keeps_def codes_ok_def)
  qed
qed

lemma parse_address_keeps:
  assumes "codes_ok (mh_mesh s) (mh_context s)" and "index_ok (mh_mesh s) v" and "parse_address h now v s = Some (ok, v', s')"
  shows "codes_ok (mh_mesh s') (mh_context s')" and "index_ok (mh_mesh s') v'" and "keeps (mh_mesh s) (mh_mesh s')"
    and "header_flag (mh_context s) \<longrightarrow> header_flag (mh_context s')" and "mh_frame s' = mh_frame s" and "mh_nexthop s' = mh_nexthop s"
    and "mh_process s' = mh_process s" and "mh_forward s' = mh_forward s"
proof -
  obtain ret c b out g where p: "overlay_address_parse h now (Some (mh_context s)) (mh_buffer s) (Some v) (mh_mesh s) = Some (ret, Some c, b, Some out, g)"
      "v' = out" "s' = s\<lparr>mh_context := c, mh_buffer := b, mh_mesh := g\<rparr>"
    using assms(3) by (auto simp: parse_address_def split: bind_splits)
  from overlay_address_parse_keeps [OF assms(1,2) p(1)] p(2,3)
  show "codes_ok (mh_mesh s') (mh_context s')" "index_ok (mh_mesh s') v'" "keeps (mh_mesh s) (mh_mesh s')"
    "header_flag (mh_context s) \<longrightarrow> header_flag (mh_context s')" "mh_frame s' = mh_frame s" "mh_nexthop s' = mh_nexthop s"
    "mh_process s' = mh_process s" "mh_forward s' = mh_forward s"
    by (auto simp: parse_keeps_def)
qed

text \<open>What holds after the source, and after the target, of a header that is to be used.\<close>

definition self :: "mdp_header \<Rightarrow> nat option \<Rightarrow> bool" where
  "self s v \<longleftrightarrow> (\<exists>a. v = Some a \<and> reachable (sub (mh_mesh s) a) = REACHABLE_SELF)"

definition source_inv :: "mdp_header \<Rightarrow> bool" where
  "source_inv s \<longleftrightarrow> codes_ok (mh_mesh s) (mh_context s) \<and> index_ok (mh_mesh s) (frame_destination (mh_frame s)) \<and> index_ok (mh_mesh s) (mh_nexthop s)
     \<and> (mh_process s \<or> mh_forward s \<longrightarrow> source (mh_frame s) \<noteq> None \<or> header_flag (mh_context s))"

definition target_inv :: "nat \<Rightarrow> mdp_header \<Rightarrow> bool" where
  "target_inv flags s \<longleftrightarrow> (mh_process s \<or> mh_forward s \<longrightarrow> source (mh_frame s) \<noteq> None \<or> header_flag (mh_context s))
     \<and> (mh_process s \<longrightarrow> frame_destination (mh_frame s) = None \<or> self s (frame_destination (mh_frame s)))
     \<and> (mh_forward s \<longrightarrow> frame_destination (mh_frame s) = None \<or> has flags PAYLOAD_FLAG_ONE_HOP \<or> self s (mh_nexthop s))"

lemma not_self: "\<not> not_self s v \<longleftrightarrow> self s v"
  by (auto simp: not_self_def self_def split: option.splits)

lemma parse_source_inv:
  assumes "codes_ok (mh_mesh s) (mh_context s)" and "index_ok (mh_mesh s) (source (mh_frame s))"
    and "index_ok (mh_mesh s) (frame_destination (mh_frame s))" and "index_ok (mh_mesh s) (mh_nexthop s)"
    and "parse_source h now flags s = Some (True, s')"
  shows "source_inv s'"
proof (cases "has flags PAYLOAD_FLAG_SENDER_SAME")
  case True
  then show ?thesis using assms
    by (cases "sender (mh_context s)") (auto simp: parse_source_def source_inv_def codes_ok_def Let_def)
next
  case False
  then obtain v s1 where p: "parse_address h now (source (mh_frame s)) s = Some (True, v, s1)"
    and s': "s' = (let s = s1\<lparr>mh_frame := (mh_frame s1)\<lparr>source := v\<rparr>\<rparr>
       in if v = None \<or> \<not> not_self s v then s\<lparr>mh_process := False, mh_forward := False\<rparr> else s)"
    using assms(5) by (auto simp: parse_source_def Let_def split: bind_splits if_splits)
  note k = parse_address_keeps [OF assms(1,2) p]
  show ?thesis using k keeps_index [OF k(3)] assms(3,4) by (auto simp: s' source_inv_def Let_def)
qed

lemma parse_target_inv:
  assumes "source_inv s" and "parse_target h now flags s = Some (True, s')"
  shows "target_inv flags s'"
proof (cases "has flags PAYLOAD_FLAG_TO_BROADCAST")
  case True
  then show ?thesis using assms
    by (auto simp: parse_target_def parse_broadcast_def target_inv_def source_inv_def Let_def split: if_splits bind_splits option.splits prod.splits)
next
  case False
  obtain v s1 where p: "parse_address h now (frame_destination (mh_frame s)) s = Some (True, v, s1)"
    using assms(2) False by (auto simp: parse_target_def Let_def split: bind_splits if_splits)
  define s2 where "s2 = s1\<lparr>mh_frame := (mh_frame s1)\<lparr>frame_destination := v\<rparr>\<rparr>"
  define s3 where "s3 = (if not_self s2 v then s2\<lparr>mh_process := False\<rparr> else s2)"
  have inv: "codes_ok (mh_mesh s) (mh_context s)" "index_ok (mh_mesh s) (frame_destination (mh_frame s))" "index_ok (mh_mesh s) (mh_nexthop s)"
    using assms(1) by (simp_all add: source_inv_def)
  note k = parse_address_keeps [OF inv(1,2) p]
  have s3: "mh_mesh s3 = mh_mesh s1" "mh_context s3 = mh_context s1" "mh_nexthop s3 = mh_nexthop s" "frame_destination (mh_frame s3) = v"
      "source (mh_frame s3) = source (mh_frame s)" "mh_forward s3 = mh_forward s" "mh_process s3 \<longrightarrow> mh_process s \<and> self s3 v"
    using k(5-8) not_self [of s2 v] by (auto simp: s3_def s2_def self_def)
  have src: "mh_process s3 \<or> mh_forward s3 \<longrightarrow> source (mh_frame s3) \<noteq> None \<or> header_flag (mh_context s3)"
    using assms(1) s3 k(4) by (auto simp: source_inv_def)
  show ?thesis
  proof (cases "has flags PAYLOAD_FLAG_ONE_HOP")
    case True
    then have "s' = s3" using assms(2) False p
      by (cases "not_self s2 v") (simp_all add: parse_target_def s3_def s2_def [symmetric] Let_def)
    then show ?thesis using True src s3 by (auto simp: target_inv_def)
  next
    case many: False
    have "parse_address h now (mh_nexthop s3) s3 \<bind> (\<lambda>(ok, v, s). let s = s\<lparr>mh_nexthop := v\<rparr>
        in Some (ok, if ok \<and> not_self s v then s\<lparr>mh_forward := False\<rparr> else s)) = Some (True, s')"
      using assms(2) False many p by (cases "not_self s2 v") (simp_all add: parse_target_def s3_def s2_def [symmetric] Let_def)
    then obtain n s4 where q: "parse_address h now (mh_nexthop s3) s3 = Some (True, n, s4)"
      and s': "s' = (let s = s4\<lparr>mh_nexthop := n\<rparr> in if not_self s n then s\<lparr>mh_forward := False\<rparr> else s)"
      by (auto simp: Let_def split: bind_splits)
    have inv3: "codes_ok (mh_mesh s3) (mh_context s3)" "index_ok (mh_mesh s3) (mh_nexthop s3)"
      using k(1) keeps_index [OF k(3) inv(3)] s3 by simp_all
    note k4 = parse_address_keeps [OF inv3 q]
    have "self s4 v" if "self s3 v"
      using that k(2) k4(3) s3(1) by (auto simp: self_def keeps_def index_ok_def)
    then show ?thesis using s3 src k4(4-8) not_self [of "s4\<lparr>mh_nexthop := n\<rparr>" n]
      by (auto simp: s' target_inv_def self_def Let_def)
  qed
qed

definition ttl_inv :: "nat \<Rightarrow> mdp_header \<Rightarrow> bool" where
  "ttl_inv flags s \<longleftrightarrow> target_inv flags s \<and> (mh_forward s \<longrightarrow> 0 < ttl (mh_frame s) \<and> \<not> has flags PAYLOAD_FLAG_ONE_HOP)"

definition same_parse :: "mdp_header \<Rightarrow> mdp_header \<Rightarrow> bool" where
  "same_parse s s' \<longleftrightarrow> mh_context s' = mh_context s \<and> subs (mh_mesh s') = subs (mh_mesh s) \<and> mh_nexthop s' = mh_nexthop s
     \<and> source (mh_frame s') = source (mh_frame s) \<and> frame_destination (mh_frame s') = frame_destination (mh_frame s)
     \<and> (mh_process s' \<longrightarrow> mh_process s) \<and> (mh_forward s' \<longrightarrow> mh_forward s)"

lemma target_inv_mono: "target_inv flags s \<Longrightarrow> same_parse s s' \<Longrightarrow> target_inv flags s'"
  unfolding target_inv_def same_parse_def self_def sub_def
  by (elim conjE) (intro conjI; simp)

lemma parse_ttl_same: "parse_ttl flags s = Some (True, s') \<Longrightarrow> same_parse s s' \<and> (mh_forward s' \<longrightarrow> 0 < ttl (mh_frame s'))"
  by (cases "ob_get (mh_buffer s)") (auto simp: parse_ttl_def same_parse_def Let_def split: if_splits)

lemma parse_ttl_one_hop: "has flags PAYLOAD_FLAG_ONE_HOP \<Longrightarrow> parse_ttl flags s = Some (True, s') \<Longrightarrow> \<not> mh_forward s'"
  by (auto simp: parse_ttl_def Let_def)

lemma parse_ttl_inv: "target_inv flags s \<Longrightarrow> parse_ttl flags s = Some (True, s') \<Longrightarrow> ttl_inv flags s'"
  unfolding ttl_inv_def using parse_ttl_same parse_ttl_one_hop target_inv_mono by blast

lemma ttl_inv_mono: "ttl_inv flags s \<Longrightarrow> same_parse s s' \<Longrightarrow> ttl (mh_frame s') = ttl (mh_frame s) \<Longrightarrow> ttl_inv flags s'"
  unfolding ttl_inv_def using target_inv_mono [of flags s s'] by (auto simp: same_parse_def)

lemma parse_type_same: "parse_type flags s = Some (True, s') \<Longrightarrow> same_parse s s' \<and> ttl (mh_frame s') = ttl (mh_frame s)"
  by (cases "ob_get (mh_buffer s)") (auto simp: parse_type_def same_parse_def Let_def split: if_splits)

lemma link_received_duplicate_subs: "link_received_duplicate a seq g = Some (dup, g') \<Longrightarrow> subs g' = subs g"
  by (auto simp: link_received_duplicate_def set_neighbour_def split: option.splits bind_splits)

lemma parse_seq_same:
  assumes "parse_seq s = Some (True, s')"
  shows "same_parse s s' \<and> ttl (mh_frame s') = ttl (mh_frame s)"
proof (cases "ctx_packet_version (mh_context s) \<ge> 1")
  case True
  then obtain seq b dup g where "ob_get (mh_buffer s) = Some (seq, b)" "link_received_duplicate (sender (mh_context s)) seq (mh_mesh s) = Some (dup, g)"
    and "s' = (let s = s\<lparr>mh_buffer := b, mh_mesh := g\<rparr> in if dup then s\<lparr>mh_process := False, mh_forward := False\<rparr> else s)"
    using assms by (auto simp: parse_seq_def Let_def split: if_splits bind_splits)
  then show ?thesis using link_received_duplicate_subs by (simp add: same_parse_def Let_def)
qed (use assms in \<open>simp add: parse_seq_def same_parse_def\<close>)

lemma and_then_True: "and_then r f = Some (True, s') \<longleftrightarrow> (\<exists>s. r = Some (True, s) \<and> f s = Some (True, s'))"
  by (auto simp: and_then_def split: bind_splits if_splits)

lemma parse_stages:
  assumes "parseMdpPacketHeader h now c f b n g = Some (ret, s)" and "0 \<le> ret"
  obtains flags b1 s5 where "and_then (and_then (and_then (and_then (parse_source h now flags
       \<lparr>mh_process = True, mh_forward = True, mh_context = c, mh_frame = f, mh_buffer = b1, mh_nexthop = n, mh_mesh = g\<rparr>)
       (parse_target h now flags)) (parse_ttl flags)) (parse_type flags)) parse_seq = Some (True, s5)"
    and "parse_last flags s5 = (ret, s)"
proof -
  obtain fl b1 where get: "ob_get b = Some (fl, b1)" using assms(1) by (cases "ob_get b") (auto simp: parseMdpPacketHeader_def)
  define r where "r = and_then (and_then (and_then (and_then (parse_source h now (nat fl)
       \<lparr>mh_process = True, mh_forward = True, mh_context = c, mh_frame = f, mh_buffer = b1, mh_nexthop = n, mh_mesh = g\<rparr>)
       (parse_target h now (nat fl))) (parse_ttl (nat fl))) (parse_type (nat fl))) parse_seq"
  have "0 \<le> fl" using assms get by (cases "fl < 0") (auto simp: parseMdpPacketHeader_def)
  then have "r \<bind> (\<lambda>(ok, s). Some (if ok then parse_last (nat fl) s else (- 1, s))) = Some (ret, s)"
    using assms(1) get by (simp add: parseMdpPacketHeader_def r_def Let_def)
  then obtain s5 where "r = Some (True, s5)" "parse_last (nat fl) s5 = (ret, s)"
    using assms(2) by (auto split: bind_splits if_splits)
  then show ?thesis using that unfolding r_def by blast
qed

lemma parse_last_decision:
  assumes "ttl_inv flags s'" and "parse_last flags s' = (ret, s)"
  shows "same_parse s' s" and "ttl_inv flags s" and "mh_process s \<or> mh_forward s \<longrightarrow> \<not> header_flag (mh_context s)"
    and "ret = (if mh_forward s then HEADER_FORWARD else 0) + (if mh_process s then HEADER_PROCESS else 0)"
proof -
  have s: "s = snd (parse_last flags s')" "ret = fst (parse_last flags s')" using assms(2) by simp_all
  show sp: "same_parse s' s" by (simp add: s same_parse_def parse_last_def Let_def)
  have "ttl (mh_frame s) = ttl (mh_frame s')" by (simp add: s parse_last_def Let_def)
  then show "ttl_inv flags s" by (rule ttl_inv_mono [OF assms(1) sp])
  show "mh_process s \<or> mh_forward s \<longrightarrow> \<not> header_flag (mh_context s)" by (simp add: s parse_last_def Let_def)
  show "ret = (if mh_forward s then HEADER_FORWARD else 0) + (if mh_process s then HEADER_PROCESS else 0)"
    unfolding s by (simp add: parse_last_def Let_def)
qed

text \<open>
  C28: Whatever bytes a packet holds, the parser of frame headers lets a frame be processed or forwarded only
  when every address was understood and the source is known.  It is processed only when it is for everyone
  or for one of our own identities, and forwarded only when time to live is left and, unless it is for
  everyone, we are its next hop.
\<close>

theorem parseMdpPacketHeader_decision:
  assumes "codes_ok g c" and "index_ok g (source f)" and "index_ok g (frame_destination f)" and "index_ok g n"
    and "parseMdpPacketHeader h now c f b n g = Some (ret, s)" and "0 \<le> ret"
  shows "ret \<in> {0, HEADER_PROCESS, HEADER_FORWARD, HEADER_PROCESS + HEADER_FORWARD}
     \<and> (ret \<noteq> 0 \<longrightarrow> \<not> header_flag (mh_context s) \<and> source (mh_frame s) \<noteq> None)
     \<and> (ret \<in> {HEADER_PROCESS, HEADER_PROCESS + HEADER_FORWARD} \<longrightarrow> (\<forall>d. frame_destination (mh_frame s) = Some d \<longrightarrow>
          reachable (sub (mh_mesh s) d) = REACHABLE_SELF))
     \<and> (ret \<in> {HEADER_FORWARD, HEADER_PROCESS + HEADER_FORWARD} \<longrightarrow> 0 < ttl (mh_frame s)
          \<and> (frame_destination (mh_frame s) \<noteq> None \<longrightarrow> (\<exists>a. mh_nexthop s = Some a \<and> reachable (sub (mh_mesh s) a) = REACHABLE_SELF)))"
proof -
  obtain flags b1 s5 where st: "and_then (and_then (and_then (and_then (parse_source h now flags
       \<lparr>mh_process = True, mh_forward = True, mh_context = c, mh_frame = f, mh_buffer = b1, mh_nexthop = n, mh_mesh = g\<rparr>)
       (parse_target h now flags)) (parse_ttl flags)) (parse_type flags)) parse_seq = Some (True, s5)"
    and last: "parse_last flags s5 = (ret, s)"
    by (rule parse_stages [OF assms(5,6)])
  define s0 where "s0 = \<lparr>mh_process = True, mh_forward = True, mh_context = c, mh_frame = f, mh_buffer = b1, mh_nexthop = n, mh_mesh = g\<rparr>"
  obtain s1 s2 s3 s4 where st: "parse_source h now flags s0 = Some (True, s1)" "parse_target h now flags s1 = Some (True, s2)"
      "parse_ttl flags s2 = Some (True, s3)" "parse_type flags s3 = Some (True, s4)" "parse_seq s4 = Some (True, s5)"
    using st unfolding and_then_True s0_def by blast
  have "source_inv s1" by (rule parse_source_inv [OF _ _ _ _ st(1)]) (use assms(1-4) in \<open>simp_all add: s0_def\<close>)
  then have "ttl_inv flags s3" by (rule parse_ttl_inv [OF parse_target_inv [OF _ st(2)] st(3)])
  then have "ttl_inv flags s5" using parse_type_same [OF st(4)] parse_seq_same [OF st(5)] ttl_inv_mono by blast
  note d = parse_last_decision [OF this last]
  note inv = d(2) [unfolded ttl_inv_def target_inv_def self_def]
  show ?thesis using d(3,4) inv by (cases "mh_forward s"; cases "mh_process s") (auto simp: HEADER_PROCESS_def HEADER_FORWARD_def)
qed

theorem parseMdpPacketHeader_decision_witness:
  "\<exists>s. parseMdpPacketHeader sample_heap 1000 (zero_context\<lparr>sender := Some 1\<rparr>) zero_frame
       (zero_buffer\<lparr>bytes := Some [3, 1, 2, 3, 4, 5, 6, 7, 8, 5], allocSize := 10, sizeLimit := 10\<rparr>) None sample_mesh
       = Some (HEADER_PROCESS + HEADER_FORWARD, s) \<and> \<not> header_flag (mh_context s) \<and> source (mh_frame s) \<noteq> None \<and> 0 < ttl (mh_frame s)"
proof -
  let ?b = "zero_buffer\<lparr>bytes := Some [3, 1, 2, 3, 4, 5, 6, 7, 8, 5], allocSize := 10, sizeLimit := 10\<rparr>"
  let ?c = "zero_context\<lparr>sender := Some 1\<rparr>"
  have g: "tree sample_mesh = sample_root" "subs sample_mesh = sample_subs" "neighbours sample_mesh = [new_neighbour 1000 1]"
      "my_subscriber sample_mesh = Some 0" "bpilist sample_mesh = replicate MAX_BPIS (replicate BROADCAST_LEN 0)"
    by (simp_all add: sample_mesh_def bare_mesh_def new_destination_def sample_heap_def)
  have ok: "codes_ok sample_mesh ?c" using sample_table_ok by (simp add: codes_ok_def index_ok_def g zero_context_def sample_subs_def)
  have b: "ob_good ?b" "ob_rest ?b = 3 # [1, 2, 3, 4, 5, 6, 7, 8] @ [5]"
    by (simp_all add: ob_good_def ob_wf_def ob_rest_def ob_unlimitsize_def zero_buffer_def SIZE_MAX_def)
  obtain b1 where b1: "ob_get ?b = Some (3, b1)" "ob_good b1" "ob_rest b1 = [1, 2, 3, 4, 5, 6, 7, 8] @ [5]"
    by (rule ob_get_rest [OF b]) simp
  obtain b2 where b2: "ob_get_bytes b1 8 = Some (Some [1, 2, 3, 4, 5, 6, 7, 8], b2)" "ob_good b2" "ob_rest b2 = [5]"
    by (rule ob_get_bytes_rest [OF b1(2,3)]) (simp add: eval_nat_numeral)
  obtain b3 where b3: "ob_get b2 = Some (5, b3)" by (rule ob_get_rest [OF b2(2,3)]) simp
  have d: "\<not> fst (overlay_broadcast_drop_check [1, 2, 3, 4, 5, 6, 7, 8] sample_mesh)"
    using bpi_hash_less by (simp add: overlay_broadcast_drop_check_def g BROADCAST_LEN_def eval_nat_numeral)
  have n: "neighbours (snd (overlay_broadcast_drop_check [1, 2, 3, 4, 5, 6, 7, 8] sample_mesh)) = neighbours sample_mesh"
    by (simp add: overlay_broadcast_drop_check_def)
  have "\<exists>s. parseMdpPacketHeader sample_heap 1000 ?c zero_frame ?b None sample_mesh = Some (HEADER_PROCESS + HEADER_FORWARD, s)"
    using b1(1) b2(1) b3 d n
    by (simp add: parseMdpPacketHeader_def and_then_def parse_source_def parse_target_def parse_broadcast_def parse_ttl_def
      parse_type_def parse_seq_def parse_last_def zero_context_def zero_frame_def has_def PAYLOAD_FLAG_SENDER_SAME_def
      PAYLOAD_FLAG_TO_BROADCAST_def PAYLOAD_FLAG_ONE_HOP_def PAYLOAD_FLAG_LEGACY_TYPE_def overlay_broadcast_parse_def BROADCAST_LEN_def
      Let_def case_prod_unfold HEADER_PROCESS_def HEADER_FORWARD_def link_state_should_forward_broadcast_def neighbour_of_def find_neighbour_def g(3) new_neighbour_def)
  then obtain s where s: "parseMdpPacketHeader sample_heap 1000 ?c zero_frame ?b None sample_mesh = Some (HEADER_PROCESS + HEADER_FORWARD, s)" ..
  then show ?thesis
    using parseMdpPacketHeader_decision [OF ok _ _ _ s] by (simp add: zero_frame_def index_ok_def HEADER_PROCESS_def HEADER_FORWARD_def)
qed

end
