(* ===== verification/Tx_Queue.thy ===== *)
theory Tx_Queue
  imports Frame_Decision
begin

text \<open>
  The transmission queues of \<^verbatim>\<open>overlay_queue.c\<close>: enqueuing a frame, working out when the next packet may be
  sent, filling a packet from a queue and removing the frames that were acknowledged, with the copy of a
  broadcast that \<^verbatim>\<open>overlay_olsr.c\<close> sends.  A queue is the list of its frames; its \<^verbatim>\<open>length\<close> is the length of
  the list.  The loops over a queue go over that list and give the frames that stay, so
  \<open>overlay_queue_remove\<close> only has to release what the frame holds.
\<close>

section \<open>Constants and packets\<close>

definition OQ_ISOCHRONOUS_VOICE :: nat where "OQ_ISOCHRONOUS_VOICE = 0"
definition OQ_MESH_MANAGEMENT :: nat where "OQ_MESH_MANAGEMENT = 1"
definition OQ_ISOCHRONOUS_VIDEO :: nat where "OQ_ISOCHRONOUS_VIDEO = 2"
definition OQ_ORDINARY :: nat where "OQ_ORDINARY = 3"
definition OQ_OPPORTUNISTIC :: nat where "OQ_OPPORTUNISTIC = 4"
definition OQ_MAX :: nat where "OQ_MAX = 5"
definition SMALL_PACKET_SIZE :: nat where "SMALL_PACKET_SIZE = 400"
definition PACKET_FORMAT_NUMBER :: u8 where "PACKET_FORMAT_NUMBER = 123"

record outgoing_packet =
  out_dest :: "nat option"
  out_seq :: int
  out_version :: int
  header_length :: nat
  out_buffer :: "overlay_buffer option"
  out_context :: decode_context

definition zero_packet :: outgoing_packet where
  "zero_packet = \<lparr>out_dest = None, out_seq = 0, out_version = 0, header_length = 0, out_buffer = None, out_context = zero_context\<rparr>"

definition overlay_queue_init :: "mesh \<Rightarrow> mesh" where
  "overlay_queue_init g =
     (let tx = map (\<lambda>q. q\<lparr>maxLength := 100, latencyTarget := 1000, small_packet_grace_interval := 5\<rparr>) (overlay_tx g);
          tx = tx[OQ_ISOCHRONOUS_VOICE := (tx ! OQ_ISOCHRONOUS_VOICE)\<lparr>maxLength := 20, latencyTarget := 200\<rparr>];
          tx = tx[OQ_ISOCHRONOUS_VIDEO := (tx ! OQ_ISOCHRONOUS_VIDEO)\<lparr>latencyTarget := 200\<rparr>];
          tx = tx[OQ_OPPORTUNISTIC := (tx ! OQ_OPPORTUNISTIC)\<lparr>small_packet_grace_interval := 20\<rparr>]
      in g\<lparr>overlay_tx := tx\<rparr>)"

definition overlay_queue_remove :: "overlay_frame \<Rightarrow> mesh \<Rightarrow> mesh" where
  "overlay_queue_remove f g = fold (\<lambda>pd. release_destination_ref (pd_destination pd)) (rev (destinations f)) g"

definition overlay_queue_remaining :: "int \<Rightarrow> mesh \<Rightarrow> int" where
  "overlay_queue_remaining q g =
     (if q < 0 \<or> q \<ge> int OQ_MAX then - 1
      else maxLength (overlay_tx g ! nat q) - int (length (frames (overlay_tx g ! nat q))))"

section \<open>When to send\<close>

definition overlay_queue_schedule_next :: "int \<Rightarrow> mesh \<Rightarrow> mesh run" where
  "overlay_queue_schedule_next next_allowed_packet g =
     (let e = alarms (queue g) NEXT_PACKET in
      if alarm e = 0 \<or> next_allowed_packet < alarm e
      then on_queue (\<lambda>q.
        let q = set_alarm NEXT_PACKET ((alarms q NEXT_PACKET)\<lparr>has_function := True\<rparr>) q;
            q = unschedule NEXT_PACKET q;
            q = set_alarm NEXT_PACKET ((alarms q NEXT_PACKET)\<lparr>alarm := next_allowed_packet,
                  deadline := next_allowed_packet + 15\<rparr>) q
        in schedule NEXT_PACKET q) g
      else Some g)"

definition radio_link_is_busy :: "mesh \<Rightarrow> nat \<Rightarrow> bool" where
  "radio_link_is_busy g i = radio_tx_packet (interfaces g ! i)"

definition next_allowed :: "int \<Rightarrow> packet_destination \<Rightarrow> int \<times> mesh \<Rightarrow> int \<times> mesh" where
  "next_allowed now pd s = (case s of (t, g) \<Rightarrow>
     let d = dests g ! pd_destination pd in
     if radio_link_is_busy g (dest_interface d) then (t, g)
     else (let (next, l) = limit_next_allowed now (transfer_limit d);
               until = transmit_time pd + resend_delay d;
               next = (if transmit_time pd \<noteq> 0 \<and> next < until then until else next)
           in (if t = 0 \<or> next < t then next else t, set_dest (pd_destination pd) (d\<lparr>transfer_limit := l\<rparr>) g)))"

definition queue_time :: "overlay_frame \<Rightarrow> overlay_buffer \<Rightarrow> overlay_txqueue \<Rightarrow> int \<Rightarrow> int" where
  "queue_time f pay q t =
     (let t = (if t < delay_until f then delay_until f else t);
          t = (if t < enqueued_at f then enqueued_at f else t);
          grace = enqueued_at f + small_packet_grace_interval q
      in if ob_position pay < SMALL_PACKET_SIZE \<and> t < grace then grace else t)"

definition overlay_calc_queue_time :: "int \<Rightarrow> overlay_frame \<Rightarrow> mesh \<Rightarrow> mesh run" where
  "overlay_calc_queue_time now f g =
     (let (t, g) = fold (next_allowed now) (destinations f) (0, g) in
      if (if destinations f \<noteq> [] then t = 0 else frame_destination f = None) then Some g
      else do {
        pay \<leftarrow> payload f;
        overlay_queue_schedule_next (queue_time f pay (overlay_tx g ! frame_queue f) t) g })"

section \<open>Enqueuing\<close>

text \<open>
  The copy for the OLSR plugin: the header that is sent with \<^verbatim>\<open>frame->payload->sizeLimit\<close> bytes of the payload
  behind it, or nothing.
\<close>

definition olsr_send :: "heap \<Rightarrow> overlay_frame \<Rightarrow> mesh \<Rightarrow> (u8 list option \<times> mesh) run" where
  "olsr_send h f g =
     (if olsr_fd g < 0 \<or> frame_destination f \<noteq> None then Some (None, g)
      else case ob_new (blocks h) of
             None \<Rightarrow> Some (None, g)
           | Some b \<Rightarrow> do {
               b \<leftarrow> ob_append_byte (blocks h) b PACKET_FORMAT_NUMBER;
               b \<leftarrow> ob_append_byte (blocks h) b (of_nat (ttl f));
               (c, b, g) \<leftarrow> append_address h (my_subscriber g) (zero_context, b, g);
               (c, b, g) \<leftarrow> append_address h (source f) (c, b, g);
               b \<leftarrow> overlay_broadcast_append h b (Some (broadcast_id f));
               b \<leftarrow> ob_append_byte (blocks h) b (of_nat (modifiers f));
               _ \<leftarrow> payload f;
               vs \<leftarrow> ob_load (b\<lparr>position := 0\<rparr>) (position b);
               Some (Some vs, g) })"

definition push_frame :: "overlay_frame \<Rightarrow> mesh \<Rightarrow> mesh" where
  "push_frame f g =
     (let q = overlay_tx g ! frame_queue f
      in g\<lparr>overlay_tx := (overlay_tx g)[frame_queue f := q\<lparr>frames := frames q @ [f]\<rparr>]\<rparr>)"

text \<open>A frame for everyone gets its destinations when it is enqueued.\<close>

definition broadcast_destinations :: "heap \<Rightarrow> int \<Rightarrow> overlay_frame \<Rightarrow> mesh \<Rightarrow> (overlay_frame \<times> mesh) run" where
  "broadcast_destinations h now p g =
     (if destinations p = [] \<and> frame_destination p = None
      then do { (_, g) \<leftarrow> olsr_send h p g; link_add_destinations now p g }
      else Some (p, g))"

text \<open>The end of the queue; \<open>fresh\<close> frames came without destinations and may be sent again.\<close>

definition append_frame :: "int \<Rightarrow> bool \<Rightarrow> overlay_frame \<Rightarrow> mesh \<Rightarrow> mesh run" where
  "append_frame now fresh p g =
     (let p = (if fresh \<and> resend p = 0 then p\<lparr>resend := 1\<rparr> else p);
          p = p\<lparr>destinations := map (\<lambda>pd. pd\<lparr>sent_sequence := - 1\<rparr>) (destinations p), enqueued_at := now, mdp_sequence := - 1\<rparr>;
          g = push_frame p g;
          g = (if frame_queue p = OQ_ISOCHRONOUS_VOICE then g\<lparr>rhizome_voice_timeout := now + 1000\<rparr> else g)
      in overlay_calc_queue_time now p g)"

text \<open>
  A result of -1 leaves the frame to the caller, 0 means it was queued or, with nowhere to send it, freed.
\<close>

definition overlay_payload_enqueue :: "heap \<Rightarrow> int \<Rightarrow> overlay_frame \<Rightarrow> mesh \<Rightarrow> (int \<times> mesh) run" where
  "overlay_payload_enqueue h now p g = do {
     c_assert (frame_queue p < OQ_MAX);
     pay \<leftarrow> payload p;
     if ob_overrun pay then Some (- 1, g)
     else do {
       c_assert (ob_position pay < MDP_MTU);
       if int (length (frames (overlay_tx g ! frame_queue p))) \<ge> maxLength (overlay_tx g ! frame_queue p) then Some (- 1, g)
       else do {
         let p = (if frame_packet_version p \<le> 0 then p\<lparr>frame_packet_version := 1\<rparr> else p);
         (p', g) \<leftarrow> broadcast_destinations h now p g;
         if destinations p' = [] \<and> frame_destination p' = None then Some (0, g)
         else do { g \<leftarrow> append_frame now (destinations p = []) p' g; Some (0, g) } } } }"

section \<open>Filling a packet\<close>

definition overlay_init_packet :: "heap \<Rightarrow> outgoing_packet \<Rightarrow> int \<Rightarrow> nat \<Rightarrow> mesh \<Rightarrow> (int \<times> outgoing_packet \<times> mesh) run" where
  "overlay_init_packet h p version d g =
     (let i = dest_interface (dests g ! d);
          p = p\<lparr>out_context := (out_context p)\<lparr>ctx_interface := Some i\<rparr>\<rparr>
      in case ob_new (blocks h) of
           None \<Rightarrow> Some (- 1, p\<lparr>out_buffer := None\<rparr>, g)
         | Some b \<Rightarrow>
             (let p = p\<lparr>out_version := version, out_context := (out_context p)\<lparr>ctx_packet_version := version\<rparr>, out_dest := Some d\<rparr>;
                  g = add_destination_ref d g;
                  x = dests g ! d;
                  seq = (if sequence_number x < 0 then - 1 else (sequence_number x + 1) AND 0xFFFF);
                  g = (if sequence_number x < 0 then g else set_dest d (x\<lparr>sequence_number := seq\<rparr>) g);
                  p = p\<lparr>out_seq := seq\<rparr>
              in do {
                b \<leftarrow> ob_limitsize b (mtu (interfaces g ! i));
                (ret, c, b, g) \<leftarrow> overlay_packet_init_header h version (encapsulation x) (out_context p) b (unicast x) i seq g;
                let p = p\<lparr>out_context := c\<rparr>;
                Some (if ret = - 1 then (- 1, p\<lparr>out_buffer := None\<rparr>, g)
                      else (0, p\<lparr>out_buffer := Some b, header_length := ob_position b\<rparr>, g)) }))"

definition remove_destination :: "overlay_frame \<Rightarrow> nat \<Rightarrow> mesh \<Rightarrow> overlay_frame \<times> mesh" where
  "remove_destination f i g =
     (let ds = destinations f;
          g = release_destination_ref (pd_destination (ds ! i)) g;
          n = length ds - 1
      in (f\<lparr>destinations := take n (if i < n then ds[i := ds ! n] else ds)\<rparr>, g))"

definition degrade :: "mesh \<Rightarrow> packet_destination \<Rightarrow> overlay_frame \<Rightarrow> overlay_frame" where
  "degrade g pd f =
     (case pd_next_hop pd of
        Some nh \<Rightarrow> if frame_packet_version f > max_packet_version (sub g nh)
                  then f\<lparr>frame_packet_version := max_packet_version (sub g nh)\<rparr> else f
      | None \<Rightarrow> f)"

text \<open>Starting a packet to a destination: whether it worked.\<close>

definition start_packet :: "heap \<Rightarrow> int \<Rightarrow> nat \<Rightarrow> overlay_frame \<Rightarrow> outgoing_packet \<Rightarrow> mesh \<Rightarrow> (bool \<times> outgoing_packet \<times> mesh) run" where
  "start_packet h now d f p g =
     (let x = dests g ! d in
      if radio_link_is_busy g (dest_interface x) then Some (False, p, g)
      else (let (r, l) = limit_is_allowed now (transfer_limit x);
                g = set_dest d (x\<lparr>transfer_limit := l\<rparr>) g
            in if r \<noteq> 0 then Some (False, p, g)
               else do {
                 g \<leftarrow> (if source_full f
                       then do { m \<leftarrow> my_subscriber g; Some (set_sub m ((sub g m)\<lparr>send_full := True\<rparr>) g) }
                       else Some g);
                 (ret, p, g) \<leftarrow> overlay_init_packet h p (frame_packet_version f) d g;
                 Some (ret \<noteq> - 1, p, g) }))"

text \<open>The loop over the destinations of a frame, from the last: the index of the one to send to now.\<close>

fun choose_destination :: "heap \<Rightarrow> int \<Rightarrow> nat \<Rightarrow> overlay_frame \<Rightarrow> outgoing_packet \<Rightarrow> mesh
    \<Rightarrow> (nat option \<times> overlay_frame \<times> outgoing_packet \<times> mesh) run" where
  "choose_destination h now 0 f p g = Some (None, f, p, g)"
| "choose_destination h now (Suc i) f p g =
     (let pd = destinations f ! i; d = pd_destination pd; x = dests g ! d in
      if state (interfaces g ! dest_interface x) \<noteq> INTERFACE_STATE_UP
      then (let (f, g) = remove_destination f i g in choose_destination h now i f p g)
      else (let f = degrade g pd f in
        if transmit_time pd \<noteq> 0 \<and> transmit_time pd + resend_delay x > now
        then choose_destination h now i f p g
        else if out_buffer p \<noteq> None
        then (if frame_packet_version f = out_version p \<and> Some d = out_dest p then Some (Some i, f, p, g)
              else choose_destination h now i f p g)
        else do {
          (ok, p, g) \<leftarrow> start_packet h now d f p g;
          if ok then Some (Some i, f\<lparr>destinations := (destinations f)[i := pd\<lparr>sent_sequence := sequence_number (dests g ! d)\<rparr>]\<rparr>, p, g)
          else choose_destination h now i f p g }))"

text \<open>The hook that a frame may have: \<open>send_hook\<close> is the context of \<^verbatim>\<open>neighbour_link_sent\<close>, which always gives 0.\<close>

definition neighbour_link_sent :: "int \<Rightarrow> nat \<Rightarrow> mesh \<Rightarrow> mesh" where
  "neighbour_link_sent seq s g =
     (case find_neighbour (neighbours g) s of
        None \<Rightarrow> g
      | Some n \<Rightarrow> set_neighbour (n\<lparr>last_update_seq := seq\<rparr>) g)"

text \<open>What is left of a frame in its queue: \<^const>\<open>None\<close> when it was removed.\<close>

type_synonym stuffed = "overlay_frame option \<times> outgoing_packet \<times> mesh"

definition skip_frame :: "int \<Rightarrow> overlay_frame \<Rightarrow> outgoing_packet \<Rightarrow> mesh \<Rightarrow> stuffed run" where
  "skip_frame now f p g = do { g \<leftarrow> overlay_calc_queue_time now f g; Some (Some f, p, g) }"

definition drop_frame :: "overlay_frame \<Rightarrow> outgoing_packet \<Rightarrow> mesh \<Rightarrow> stuffed run" where
  "drop_frame f p g = Some (None, p, overlay_queue_remove f g)"

definition must_wait :: "int \<Rightarrow> overlay_frame \<Rightarrow> outgoing_packet \<Rightarrow> mesh \<Rightarrow> bool run" where
  "must_wait now f p g =
     (if delay_until f > now then Some True
      else case out_buffer p of
             None \<Rightarrow> Some False
           | Some b \<Rightarrow> do {
               d \<leftarrow> out_dest p;
               if encapsulation (dests g ! d) = ENCAP_SINGLE then Some True
               else do {
                 pay \<leftarrow> payload f;
                 left \<leftarrow> ob_remaining b;
                 Some (ob_limit pay > left) } })"

definition send_frame :: "heap \<Rightarrow> int \<Rightarrow> nat \<Rightarrow> overlay_frame \<Rightarrow> outgoing_packet \<Rightarrow> mesh \<Rightarrow> stuffed run" where
  "send_frame h now i f p g = do {
     let g = (case send_hook f of None \<Rightarrow> g | Some s \<Rightarrow> neighbour_link_sent (out_seq p) s g);
     let will_retransmit = (\<not> (frame_packet_version f < 1 \<or> resend f \<le> 0 \<or> out_seq p = - 1));
     d \<leftarrow> out_dest p;
     b \<leftarrow> out_buffer p;
     (ret, c, b, g) \<leftarrow> overlay_frame_append_payload h (out_context p) (encapsulation (dests g ! d)) f
       (pd_next_hop (destinations f ! i)) b will_retransmit g;
     let p = p\<lparr>out_context := c, out_buffer := Some b\<rparr>;
     if ret \<noteq> 0 then skip_frame now (f\<lparr>delay_until := now + 5\<rparr>) p g
     else do {
       let pd = destinations f ! i;
       let pd = pd\<lparr>sent_sequence := sequence_number (dests g ! pd_destination pd), transmit_time := now\<rparr>;
       let f = f\<lparr>transmit_count := transmit_count f + 1, destinations := (destinations f)[i := pd]\<rparr>;
       if will_retransmit then skip_frame now f p g
       else (let (f, g) = remove_destination f i g
             in if destinations f = [] then drop_frame f p g else skip_frame now f p g) } }"

definition number_frame :: "overlay_frame \<Rightarrow> mesh \<Rightarrow> bool \<times> overlay_frame \<times> mesh" where
  "number_frame f g =
     (if mdp_sequence f = - 1
      then (let seq = (mdp_seq g + 1) AND 0xFFFF in (True, f\<lparr>mdp_sequence := seq\<rparr>, g\<lparr>mdp_seq := seq\<rparr>))
      else ((mdp_seq g - mdp_sequence f) AND 0xFFFF < 64, f, g))"

text \<open>A frame for one subscriber gets its destinations when it is about to be sent.\<close>

definition frame_destinations :: "int \<Rightarrow> overlay_frame \<Rightarrow> mesh \<Rightarrow> (overlay_frame \<times> mesh) run" where
  "frame_destinations now f g =
     (if destinations f = [] \<and> frame_destination f \<noteq> None
      then do {
        (f, g) \<leftarrow> link_add_destinations now f g;
        Some (f\<lparr>destinations := map (\<lambda>pd. pd\<lparr>sent_sequence := - 1\<rparr>) (destinations f)\<rparr>, g) }
      else Some (f, g))"

definition try_frame :: "heap \<Rightarrow> int \<Rightarrow> overlay_frame \<Rightarrow> outgoing_packet \<Rightarrow> mesh \<Rightarrow> stuffed run" where
  "try_frame h now f p g = do {
     (i, f, p, g) \<leftarrow> choose_destination h now (length (destinations f)) f p g;
     if destinations f = [] then drop_frame f p g
     else case i of
            None \<Rightarrow> skip_frame now f p g
          | Some i \<Rightarrow> send_frame h now i f p g }"

definition stuff_frame :: "heap \<Rightarrow> int \<Rightarrow> int \<Rightarrow> overlay_frame \<Rightarrow> outgoing_packet \<Rightarrow> mesh \<Rightarrow> stuffed run" where
  "stuff_frame h now latency f p g =
     (if enqueued_at f + latency < now then drop_frame f p g
      else do {
        wait \<leftarrow> must_wait now f p g;
        if wait then skip_frame now f p g
        else do {
          (f, g) \<leftarrow> frame_destinations now f g;
          let (ok, f, g) = number_frame f g;
          if ok then try_frame h now f p g else drop_frame f p g } })"

fun stuff_frames :: "heap \<Rightarrow> int \<Rightarrow> int \<Rightarrow> overlay_frame list \<Rightarrow> outgoing_packet \<Rightarrow> mesh
    \<Rightarrow> (overlay_frame list \<times> outgoing_packet \<times> mesh) run" where
  "stuff_frames h now latency [] p g = Some ([], p, g)"
| "stuff_frames h now latency (f # fs) p g = do {
     (r, p, g) \<leftarrow> stuff_frame h now latency f p g;
     (fs, p, g) \<leftarrow> stuff_frames h now latency fs p g;
     Some (case r of None \<Rightarrow> fs | Some f \<Rightarrow> f # fs, p, g) }"

definition set_frames :: "nat \<Rightarrow> overlay_frame list \<Rightarrow> mesh \<Rightarrow> mesh" where
  "set_frames q fs g = g\<lparr>overlay_tx := (overlay_tx g)[q := (overlay_tx g ! q)\<lparr>frames := fs\<rparr>]\<rparr>"

definition overlay_stuff_packet :: "heap \<Rightarrow> int \<Rightarrow> nat \<Rightarrow> outgoing_packet \<Rightarrow> mesh \<Rightarrow> (outgoing_packet \<times> mesh) run" where
  "overlay_stuff_packet h now q p g = do {
     (fs, p, g) \<leftarrow> stuff_frames h now (latencyTarget (overlay_tx g ! q)) (frames (overlay_tx g ! q)) p g;
     Some (p, set_frames q fs g) }"

section \<open>Acknowledgements\<close>

fun last_sent_to :: "nat \<Rightarrow> nat \<Rightarrow> packet_destination list \<Rightarrow> nat option" where
  "last_sent_to d 0 pds = None"
| "last_sent_to d (Suc j) pds = (if pd_destination (pds ! j) = d then Some j else last_sent_to d j pds)"

definition is_acked :: "u32 \<Rightarrow> int \<Rightarrow> bool" where
  "is_acked acks seq_delta \<longleftrightarrow> seq_delta = 0 \<or> seq_delta \<le> 32 \<and> bit acks (nat (seq_delta - 1))"

definition smaller_rtt :: "int \<Rightarrow> int \<Rightarrow> int" where
  "smaller_rtt this_rtt r = (let this_rtt = (if this_rtt < 10 then 10 else this_rtt) in if r = 0 \<or> this_rtt < r then this_rtt else r)"

definition ack_frame :: "int \<Rightarrow> nat \<Rightarrow> nat \<Rightarrow> u32 \<Rightarrow> int \<Rightarrow> overlay_frame \<Rightarrow> int \<Rightarrow> mesh \<Rightarrow> (overlay_frame option \<times> int \<times> mesh) run" where
  "ack_frame now nb d acks ack_seq f r g =
     (case last_sent_to d (length (destinations f)) (destinations f) of
        None \<Rightarrow> Some (Some f, r, g)
      | Some j \<Rightarrow>
          (let pd = destinations f ! j; seq_delta = (ack_seq - sent_sequence pd) AND 0xFF in
           if sent_sequence pd \<ge> 0 \<and> (pd_next_hop pd = Some nb \<or> frame_destination f = None)
           then if is_acked acks seq_delta
                then (let r = smaller_rtt (now - transmit_time pd) r in
                      if frame_destination f \<noteq> None \<or> length (destinations f) \<le> 1
                      then Some (None, r, overlay_queue_remove f g)
                      else (let (f, g) = remove_destination f j g in Some (Some f, r, g)))
                else if seq_delta < 128 \<and> frame_destination f \<noteq> None \<and> delay_until f > now
                then (let f = f\<lparr>delay_until := now\<rparr> in do { g \<leftarrow> overlay_calc_queue_time now f g; Some (Some f, r, g) })
                else Some (Some f, r, g)
           else Some (Some f, r, g)))"

fun ack_frames :: "int \<Rightarrow> nat \<Rightarrow> nat \<Rightarrow> u32 \<Rightarrow> int \<Rightarrow> overlay_frame list \<Rightarrow> int \<Rightarrow> mesh \<Rightarrow> (overlay_frame list \<times> int \<times> mesh) run" where
  "ack_frames now nb d acks ack_seq [] r g = Some ([], r, g)"
| "ack_frames now nb d acks ack_seq (f # fs) r g = do {
     (x, r, g) \<leftarrow> ack_frame now nb d acks ack_seq f r g;
     (fs, r, g) \<leftarrow> ack_frames now nb d acks ack_seq fs r g;
     Some (case x of None \<Rightarrow> fs | Some f \<Rightarrow> f # fs, r, g) }"

fun ack_queues :: "int \<Rightarrow> nat \<Rightarrow> nat \<Rightarrow> u32 \<Rightarrow> int \<Rightarrow> nat list \<Rightarrow> int \<Rightarrow> mesh \<Rightarrow> (int \<times> mesh) run" where
  "ack_queues now nb d acks ack_seq [] r g = Some (r, g)"
| "ack_queues now nb d acks ack_seq (q # qs) r g = do {
     (fs, r, g) \<leftarrow> ack_frames now nb d acks ack_seq (frames (overlay_tx g ! q)) r g;
     ack_queues now nb d acks ack_seq qs r (set_frames q fs g) }"

definition update_rtt :: "int \<Rightarrow> network_destination \<Rightarrow> network_destination" where
  "update_rtt r x =
     (if r = 0 then x
      else (let x = (if min_rtt x = 0 \<or> r < min_rtt x
                     then (let x = x\<lparr>min_rtt := r\<rparr>; delay = r * 2 + 40
                           in if delay < resend_delay x then x\<lparr>resend_delay := delay\<rparr> else x)
                     else x)
            in if max_rtt x = 0 \<or> r > max_rtt x then x\<lparr>max_rtt := r\<rparr> else x))"

definition overlay_queue_ack :: "int \<Rightarrow> nat \<Rightarrow> nat \<Rightarrow> u32 \<Rightarrow> int \<Rightarrow> mesh \<Rightarrow> mesh run" where
  "overlay_queue_ack now nb d acks ack_seq g = do {
     (r, g) \<leftarrow> ack_queues now nb d acks ack_seq [0..<OQ_MAX] 0 g;
     Some (set_dest d (update_rtt r (dests g ! d)) g) }"

section \<open>What the queue leaves alone\<close>

text \<open>
  Filling packets changes destinations only in their rate limit, sequence number and reference count,
  subscribers only in \<open>send_full\<close> and neighbours only in \<open>last_update_seq\<close>.
\<close>

definition same_net :: "mesh \<Rightarrow> mesh \<Rightarrow> bool" where
  "same_net g g' \<longleftrightarrow> map (\<lambda>s. s\<lparr>send_full := False\<rparr>) (subs g') = map (\<lambda>s. s\<lparr>send_full := False\<rparr>) (subs g)
     \<and> (\<lambda>n. (nb_subscriber n, out_links n)) ` set (neighbours g') \<subseteq> (\<lambda>n. (nb_subscriber n, out_links n)) ` set (neighbours g)
     \<and> interfaces g' = interfaces g \<and> directory_service g' = directory_service g \<and> my_subscriber g' = my_subscriber g
     \<and> overlay_tx g' = overlay_tx g
     \<and> map (\<lambda>x. (dest_interface x, encapsulation x)) (dests g') = map (\<lambda>x. (dest_interface x, encapsulation x)) (dests g)"

lemma same_net_refl [simp]: "same_net g g"
  by (simp add: same_net_def)

lemma same_net_trans: "same_net g g1 \<Longrightarrow> same_net g1 g2 \<Longrightarrow> same_net g g2"
  unfolding same_net_def by (elim conjE) (intro conjI; (erule (1) subset_trans)?; simp)

lemma map_update_same: "f y = f (xs ! i) \<Longrightarrow> map f (xs[i := y]) = map f xs"
  by (cases "i < length xs") (simp_all add: map_update list_update_same_conv list_update_beyond)

lemma same_net_lengths: "same_net g g' \<Longrightarrow> length (subs g') = length (subs g)" "same_net g g' \<Longrightarrow> length (dests g') = length (dests g)"
  unfolding same_net_def using map_eq_imp_length_eq by blast+

lemma same_net_set_dest:
  "dest_interface x = dest_interface (dests g ! d) \<Longrightarrow> encapsulation x = encapsulation (dests g ! d) \<Longrightarrow> same_net g (set_dest d x g)"
  unfolding same_net_def set_dest_def
  by (simp add: map_update_same [where f = "\<lambda>x. (dest_interface x, encapsulation x)"])

lemma same_net_set_sub: "s\<lparr>send_full := False\<rparr> = (sub g a)\<lparr>send_full := False\<rparr> \<Longrightarrow> same_net g (set_sub a s g)"
  unfolding same_net_def set_sub_def by (simp add: map_update_same [where f = "\<lambda>s. s\<lparr>send_full := False\<rparr>"])

lemma same_net_refs [simp]: "same_net g (add_destination_ref d g)" "same_net g (release_destination_ref d g)"
  by (simp_all add: add_destination_ref_def release_destination_ref_def same_net_set_dest)

lemma same_net_link_sent: "same_net g (neighbour_link_sent seq s g)"
proof (cases "find_neighbour (neighbours g) s")
  case (Some n)
  then have "n \<in> set (neighbours g)" by (auto simp: find_neighbour_def find_Some_iff)
  then show ?thesis using Some by (auto simp: neighbour_link_sent_def set_neighbour_def same_net_def)
qed (simp add: neighbour_link_sent_def)

text \<open>The reference counts, and which destinations are freed.\<close>

definition counts :: "mesh \<Rightarrow> (int \<times> bool) list" where
  "counts g = map (\<lambda>x. (ref_count x, freed x)) (dests g)"

lemma counts_set_dest: "ref_count x = ref_count (dests g ! d) \<Longrightarrow> freed x = freed (dests g ! d) \<Longrightarrow> counts (set_dest d x g) = counts g"
  unfolding counts_def set_dest_def by (simp add: map_update_same [where f = "\<lambda>x. (ref_count x, freed x)"])

lemma refs_ok_counts: "counts g' = counts g \<Longrightarrow> refs_ok R g' = refs_ok R g"
proof -
  assume "counts g' = counts g"
  then have l: "length (dests g') = length (dests g)"
    and n: "\<And>d. d < length (dests g) \<Longrightarrow> ref_count (dests g' ! d) = ref_count (dests g ! d) \<and> freed (dests g' ! d) = freed (dests g ! d)"
    unfolding counts_def by (auto dest: map_eq_imp_length_eq simp: list_eq_iff_nth_eq)
  show ?thesis unfolding refs_ok_def l using n by auto
qed

text \<open>An operation on the mesh that leaves both alone.\<close>

definition quiet :: "mesh \<Rightarrow> mesh \<Rightarrow> bool" where
  "quiet g g' \<longleftrightarrow> same_net g g' \<and> counts g' = counts g"

lemma quiet_refl [simp]: "quiet g g"
  by (simp add: quiet_def)

lemma quiet_trans: "quiet g g1 \<Longrightarrow> quiet g1 g2 \<Longrightarrow> quiet g g2"
  unfolding quiet_def using same_net_trans by auto

lemma quiet_set_dest:
  "dest_interface x = dest_interface (dests g ! d) \<Longrightarrow> encapsulation x = encapsulation (dests g ! d) \<Longrightarrow>
   ref_count x = ref_count (dests g ! d) \<Longrightarrow> freed x = freed (dests g ! d) \<Longrightarrow> quiet g (set_dest d x g)"
  by (simp add: quiet_def same_net_set_dest counts_set_dest)

lemma quiet_set_sub: "s\<lparr>send_full := False\<rparr> = (sub g a)\<lparr>send_full := False\<rparr> \<Longrightarrow> quiet g (set_sub a s g)"
  using same_net_set_sub unfolding quiet_def counts_def by (simp add: set_sub_def)

lemma quiet_fields: "subs g' = subs g \<Longrightarrow> neighbours g' = neighbours g \<Longrightarrow> interfaces g' = interfaces g \<Longrightarrow>
   directory_service g' = directory_service g \<Longrightarrow> my_subscriber g' = my_subscriber g \<Longrightarrow> overlay_tx g' = overlay_tx g \<Longrightarrow>
   dests g' = dests g \<Longrightarrow> quiet g g'"
  by (simp add: quiet_def same_net_def counts_def)

lemma quiet_link_sent: "quiet g (neighbour_link_sent seq s g)"
  using same_net_link_sent unfolding quiet_def counts_def
  by (auto simp: neighbour_link_sent_def set_neighbour_def split: option.splits)

lemma quiet_schedule_next: "overlay_queue_schedule_next t g = Some g' \<Longrightarrow> quiet g g'"
  by (auto simp: overlay_queue_schedule_next_def on_queue_def Let_def intro!: quiet_fields split: if_splits)

lemma quiet_next_allowed: "quiet g (snd (fold (next_allowed now) pds (t, g)))"
proof (induction pds arbitrary: t g)
  case (Cons pd pds)
  obtain t1 g1 where n: "next_allowed now pd (t, g) = (t1, g1)" by fastforce
  then have "quiet g g1" by (auto simp: next_allowed_def Let_def case_prod_unfold intro!: quiet_set_dest split: if_splits)
  then show ?case using Cons.IH [of g1 t1] quiet_trans by (simp add: n)
qed simp

lemma quiet_calc_queue_time: "overlay_calc_queue_time now f g = Some g' \<Longrightarrow> quiet g g'"
  using quiet_next_allowed [of g now "destinations f" 0]
  by (auto simp: overlay_calc_queue_time_def Let_def case_prod_unfold split: if_splits bind_splits
      dest: quiet_schedule_next quiet_trans)

lemma quiet_append_address: "append_address h a (c, b, g) = Some (c', b', g') \<Longrightarrow> quiet g g'"
  by (auto simp: append_address_def overlay_address_append_def Let_def intro!: quiet_set_sub split: bind_splits option.splits if_splits)

lemma quiet_build_header:
  assumes "overlay_frame_build_header h v c b q ty mods w t seq bc nh dst src g = Some (ret, c', b', g')"
  shows "quiet g g'"
proof (cases "t > PAYLOAD_TTL_MAX")
  case False
  define flags where "flags = frame_flags c ty mods w t bc nh dst src"
  note eq = assms [unfolded overlay_frame_build_header_def Let_def flags_def [symmetric] if_not_P [OF False]]
  obtain b0 s1 where s: "(if has flags PAYLOAD_FLAG_SENDER_SAME then Some (c, b0, g) else append_address h src (c, b0, g)) = Some s1"
    and eq2: "(case s1 of (c1, b1, g1) \<Rightarrow> (if has flags PAYLOAD_FLAG_TO_BROADCAST
           then if has flags PAYLOAD_FLAG_ONE_HOP then Some (c1, b1, g1)
                else do { buff \<leftarrow> overlay_broadcast_append h b1 bc; Some (c1, buff, g1) }
           else do {
             (c, buff, g) \<leftarrow> append_address h dst (c1, b1, g1);
             if has flags PAYLOAD_FLAG_ONE_HOP then Some (c, buff, g)
             else append_address h nh (c, buff, g) }) \<bind> (\<lambda>(c, buff, g). do {
        buff \<leftarrow> (if has flags PAYLOAD_FLAG_ONE_HOP then Some buff
                 else ob_append_byte (blocks h) buff (of_nat (t OR push_bit 5 (q AND 3))));
        buff \<leftarrow> (if has flags PAYLOAD_FLAG_LEGACY_TYPE then ob_append_byte (blocks h) buff (of_nat ty) else Some buff);
        buff \<leftarrow> (if v \<ge> 1 then ob_append_byte (blocks h) buff (of_int seq) else Some buff);
        Some (0, c, buff, g) })) = Some (ret, c', b', g')"
    using eq by (elim run_bindE) blast
  obtain c1 b1 g1 where s1: "s1 = (c1, b1, g1)" by (cases s1)
  obtain s2 where t: "(if has flags PAYLOAD_FLAG_TO_BROADCAST
           then if has flags PAYLOAD_FLAG_ONE_HOP then Some (c1, b1, g1)
                else do { buff \<leftarrow> overlay_broadcast_append h b1 bc; Some (c1, buff, g1) }
           else do {
             (c, buff, g) \<leftarrow> append_address h dst (c1, b1, g1);
             if has flags PAYLOAD_FLAG_ONE_HOP then Some (c, buff, g)
             else append_address h nh (c, buff, g) }) = Some s2" and "snd (snd s2) = g'"
    using eq2 unfolding s1 prod.case by (rule run_bindE) (auto split: bind_splits)
  then obtain c2 b2 where s2: "s2 = (c2, b2, g')" by (cases s2) auto
  have "quiet g g1" using s s1 by (auto dest: quiet_append_address split: if_splits)
  moreover have "quiet g1 g'"
  proof (cases "has flags PAYLOAD_FLAG_TO_BROADCAST")
    case False
    then obtain c3 b3 g3 where a: "append_address h dst (c1, b1, g1) = Some (c3, b3, g3)"
      and "(c2, b2, g') = (c3, b3, g3) \<or> append_address h nh (c3, b3, g3) = Some (c2, b2, g')"
      using t s2 by (auto split: bind_splits if_splits)
    then show ?thesis using quiet_append_address [OF a] quiet_append_address [of h nh c3 b3 g3] quiet_trans by auto
  qed (use t s2 in \<open>auto split: if_splits bind_splits\<close>)
  ultimately show ?thesis using quiet_trans by blast
qed (use assms in \<open>simp add: overlay_frame_build_header_def\<close>)

lemma quiet_append_payload: "overlay_frame_append_payload h c e f nh b w g = Some (ret, c', b', g') \<Longrightarrow> quiet g g'"
  by (auto simp: overlay_frame_append_payload_def split: bind_splits if_splits dest: quiet_build_header)

lemma init_header_result:
  assumes "overlay_packet_init_header h v e c b u i seq g = Some (ret, c', b', g')"
  shows "quiet g g'" and "v \<in> {0, 1} \<Longrightarrow> e \<in> {ENCAP_OVERLAY, ENCAP_SINGLE} \<Longrightarrow> ret = 0"
proof -
  have "g' = g \<or> (\<exists>c b c1 b1. append_address h (my_subscriber g) (c, b, g) = Some (c1, b1, g'))"
    using assms unfolding overlay_packet_init_header_def by (auto simp: Let_def split: if_splits bind_splits)
  then show "quiet g g'" using quiet_append_address by auto
  show "v \<in> {0, 1} \<Longrightarrow> e \<in> {ENCAP_OVERLAY, ENCAP_SINGLE} \<Longrightarrow> ret = 0"
    using assms unfolding overlay_packet_init_header_def SUPPORTED_PACKET_VERSION_def by (auto simp: Let_def split: if_splits bind_splits)
qed

section \<open>References held by frames and packets\<close>

text \<open>
  What the routing tables must promise about the destinations they name: that they exist and that the
  tables hold \<open>K\<close> references, some of them.  Versions and encapsulations are those a packet can have.
\<close>

definition sub_ok :: "(nat \<Rightarrow> int) \<Rightarrow> nat \<Rightarrow> nat \<Rightarrow> subscriber \<Rightarrow> bool" where
  "sub_ok K ns nd s \<longleftrightarrow> 0 \<le> max_packet_version s \<and> (\<forall>d. destination s = Some d \<longrightarrow> d < nd \<and> 0 < K d)
     \<and> (\<forall>a. next_hop s = Some a \<longrightarrow> a < ns)"

definition out_ok :: "(nat \<Rightarrow> int) \<Rightarrow> nat \<Rightarrow> nat \<Rightarrow> nat \<times> link_out list \<Rightarrow> bool" where
  "out_ok K ns nd n \<longleftrightarrow> fst n < ns \<and> (\<forall>l \<in> set (snd n). out_destination l < nd \<and> 0 < K (out_destination l))"

definition net_ok :: "(nat \<Rightarrow> int) \<Rightarrow> mesh \<Rightarrow> bool" where
  "net_ok K g \<longleftrightarrow> (\<forall>s \<in> set (subs g). sub_ok K (length (subs g)) (length (dests g)) s)
     \<and> (\<forall>n \<in> set (neighbours g). out_ok K (length (subs g)) (length (dests g)) (nb_subscriber n, out_links n))
     \<and> (\<forall>a. directory_service g = Some a \<longrightarrow> a < length (subs g))
     \<and> (\<forall>x \<in> set (dests g). encapsulation x \<in> {ENCAP_OVERLAY, ENCAP_SINGLE})"

definition good_frame :: "mesh \<Rightarrow> overlay_frame \<Rightarrow> bool" where
  "good_frame g f \<longleftrightarrow> length (destinations f) \<le> MAX_PACKET_DESTINATIONS \<and> frame_packet_version f \<in> {0, 1}
     \<and> (\<forall>pd \<in> set (destinations f). pd_destination pd < length (dests g) \<and> (\<forall>a. pd_next_hop pd = Some a \<longrightarrow> a < length (subs g)))
     \<and> (\<forall>a. frame_destination f = Some a \<longrightarrow> a < length (subs g))"

definition frame_refs :: "overlay_frame \<Rightarrow> nat \<Rightarrow> int" where
  "frame_refs f d = int (count_list (map pd_destination (destinations f)) d)"

definition packet_refs :: "outgoing_packet \<Rightarrow> nat \<Rightarrow> int" where
  "packet_refs p d = (if out_dest p = Some d then 1 else 0)"

definition good_packet :: "mesh \<Rightarrow> outgoing_packet \<Rightarrow> bool" where
  "good_packet g p \<longleftrightarrow> (out_dest p = None \<longleftrightarrow> out_buffer p = None) \<and> (\<forall>d. out_dest p = Some d \<longrightarrow> d < length (dests g))"

lemma same_netD:
  assumes "same_net g g'"
  shows "(\<lambda>s. s\<lparr>send_full := False\<rparr>) ` set (subs g') = (\<lambda>s. s\<lparr>send_full := False\<rparr>) ` set (subs g)"
    and "(\<lambda>n. (nb_subscriber n, out_links n)) ` set (neighbours g') \<subseteq> (\<lambda>n. (nb_subscriber n, out_links n)) ` set (neighbours g)"
    and "directory_service g' = directory_service g" and "overlay_tx g' = overlay_tx g"
    and "(\<lambda>x. (dest_interface x, encapsulation x)) ` set (dests g') = (\<lambda>x. (dest_interface x, encapsulation x)) ` set (dests g)"
proof -
  note same = assms [unfolded same_net_def]
  show "(\<lambda>s. s\<lparr>send_full := False\<rparr>) ` set (subs g') = (\<lambda>s. s\<lparr>send_full := False\<rparr>) ` set (subs g)"
    using arg_cong [OF same [THEN conjunct1], of set] by (simp only: set_map)
  show "(\<lambda>x. (dest_interface x, encapsulation x)) ` set (dests g') = (\<lambda>x. (dest_interface x, encapsulation x)) ` set (dests g)"
    using arg_cong [OF same [THEN conjunct2, THEN conjunct2, THEN conjunct2, THEN conjunct2, THEN conjunct2, THEN conjunct2], of set]
    by (simp only: set_map)
qed (use assms in \<open>simp_all only: same_net_def\<close>)

lemma sub_ok_send_full: "sub_ok K ns nd (s\<lparr>send_full := False\<rparr>) = sub_ok K ns nd s"
  by (simp add: sub_ok_def)

lemma net_ok_same:
  assumes "same_net g g'" and ok: "net_ok K g"
  shows "net_ok K g'"
proof -
  note l = same_net_lengths [OF assms(1)] and same = same_netD [OF assms(1)]
  note ok = ok [unfolded net_ok_def]
  have "sub_ok K (length (subs g)) (length (dests g)) s" if "s \<in> set (subs g')" for s
  proof -
    have "s\<lparr>send_full := False\<rparr> \<in> (\<lambda>s. s\<lparr>send_full := False\<rparr>) ` set (subs g)" unfolding same(1) [symmetric] using that by (rule imageI)
    then obtain s' where "s\<lparr>send_full := False\<rparr> = s'\<lparr>send_full := False\<rparr>" and "s' \<in> set (subs g)" by (rule imageE)
    then show ?thesis using ok sub_ok_send_full by metis
  qed
  moreover have "out_ok K (length (subs g)) (length (dests g)) (nb_subscriber n, out_links n)" if "n \<in> set (neighbours g')" for n
  proof -
    have "(nb_subscriber n, out_links n) \<in> (\<lambda>n. (nb_subscriber n, out_links n)) ` set (neighbours g)" using same(2) that by blast
    then obtain n' where "(nb_subscriber n, out_links n) = (nb_subscriber n', out_links n')" and "n' \<in> set (neighbours g)" by (rule imageE)
    then show ?thesis using ok by simp
  qed
  moreover have "encapsulation x \<in> {ENCAP_OVERLAY, ENCAP_SINGLE}" if "x \<in> set (dests g')" for x
  proof -
    have "(dest_interface x, encapsulation x) \<in> (\<lambda>x. (dest_interface x, encapsulation x)) ` set (dests g)"
      unfolding same(5) [symmetric] using that by (rule imageI)
    then obtain x' where "(dest_interface x, encapsulation x) = (dest_interface x', encapsulation x')" and "x' \<in> set (dests g)" by (rule imageE)
    then show ?thesis using ok by simp
  qed
  ultimately show ?thesis using ok unfolding net_ok_def l same(3) by simp
qed

lemma good_frame_same: "same_net g g' \<Longrightarrow> good_frame g' f = good_frame g f"
  unfolding good_frame_def by (simp add: same_net_lengths)

lemma good_packet_same: "same_net g g' \<Longrightarrow> good_packet g' p = good_packet g p"
  unfolding good_packet_def by (simp add: same_net_lengths)

lemma frame_refs_pos: "pd \<in> set (destinations f) \<Longrightarrow> 0 < frame_refs f (pd_destination pd)"
  using count_list_0_iff [of "map pd_destination (destinations f)" "pd_destination pd"] by (simp add: frame_refs_def)

lemma frame_refs_nonneg [simp]: "0 \<le> frame_refs f d" "0 \<le> packet_refs p d"
  by (simp_all add: frame_refs_def packet_refs_def)

text \<open>What a queue pass may change of a frame is everything but its core.\<close>

definition core :: "overlay_frame \<Rightarrow> overlay_frame" where
  "core f = f\<lparr>destinations := [], mdp_sequence := 0, frame_packet_version := 0, delay_until := 0, transmit_count := 0\<rparr>"

lemma core_simps [simp]:
  "core (f\<lparr>destinations := ds\<rparr>) = core f" "core (f\<lparr>mdp_sequence := m\<rparr>) = core f" "core (f\<lparr>frame_packet_version := v\<rparr>) = core f"
  "core (f\<lparr>delay_until := t\<rparr>) = core f" "core (f\<lparr>transmit_count := n\<rparr>) = core f"
  by (cases f; simp add: core_def)+

lemma coreD: "core f' = core f \<Longrightarrow> enqueued_at f' = enqueued_at f \<and> frame_destination f' = frame_destination f \<and> payload f' = payload f
   \<and> frame_queue f' = frame_queue f \<and> source_full f' = source_full f"
  by (cases f; cases f') (simp add: core_def)

text \<open>Releasing references that are held.\<close>

lemma release_refs:
  assumes "refs_ok R g" and "d < length (dests g)" and "0 < R d"
  shows "refs_ok (\<lambda>x. R x - (if x = d then 1 else 0)) (release_destination_ref d g)"
  by (rule refs_ok_cong [OF release_destination_ref_ok [OF assms]]) simp

lemma add_refs:
  assumes "refs_ok R g" and "d < length (dests g)" and "0 < R d"
  shows "refs_ok (\<lambda>x. R x + (if x = d then 1 else 0)) (add_destination_ref d g)"
  by (rule refs_ok_cong [OF add_destination_ref_ok [OF assms(1,2)]]) (use assms in \<open>auto simp: refs_ok_def\<close>)

lemma fold_release:
  assumes "refs_ok (\<lambda>d. S d + int (count_list (map pd_destination pds) d)) g" and "\<forall>d. 0 \<le> S d" and "\<forall>pd \<in> set pds. pd_destination pd < length (dests g)"
  shows "refs_ok S (fold (\<lambda>pd. release_destination_ref (pd_destination pd)) pds g)
     \<and> same_net g (fold (\<lambda>pd. release_destination_ref (pd_destination pd)) pds g)"
  using assms
proof (induction pds arbitrary: g)
  case (Cons pd pds)
  let ?g = "release_destination_ref (pd_destination pd) g"
  have "0 < S (pd_destination pd) + int (count_list (map pd_destination (pd # pds)) (pd_destination pd))"
    using Cons.prems(2) by (simp add: add_nonneg_pos)
  then have "refs_ok (\<lambda>d. S d + int (count_list (map pd_destination pds) d)) ?g"
    by (intro refs_ok_cong [OF release_refs [OF Cons.prems(1)]]) (use Cons.prems(3) in auto)
  from Cons.IH [OF this Cons.prems(2)] show ?case
    using Cons.prems(3) same_net_lengths(2) [of g ?g] same_net_trans [of g ?g] by simp
qed simp

lemma queue_remove_refs:
  assumes "refs_ok (\<lambda>d. S d + frame_refs f d) g" and "\<forall>d. 0 \<le> S d" and "good_frame g f"
  shows "refs_ok S (overlay_queue_remove f g)" and "same_net g (overlay_queue_remove f g)"
  using fold_release [of S "rev (destinations f)" g] assms
  by (simp_all add: overlay_queue_remove_def frame_refs_def good_frame_def rev_map [symmetric] del: rev_map)

lemma count_swap_remove:
  assumes "i < length xs"
  shows "count_list (take (length xs - 1) (if i < length xs - 1 then xs[i := xs ! (length xs - 1)] else xs)) y + (if y = xs ! i then 1 else 0)
     = count_list xs y"
proof -
  obtain ys z where xs: "xs = ys @ [z]" using assms by (cases xs rule: rev_cases) auto
  show ?thesis
  proof (cases "i < length ys")
    case True
    then obtain as b bs where "ys = as @ b # bs" "length as = i" by (metis id_take_nth_drop length_take min.absorb4)
    then show ?thesis by (auto simp: xs list_update_append nth_append)
  next
    case False
    then have "i = length ys" using assms by (simp add: xs)
    then show ?thesis by (simp add: xs)
  qed
qed

lemma remove_destination_refs:
  assumes "remove_destination f i g = (f', g')" and i: "i < length (destinations f)"
    and refs: "refs_ok (\<lambda>d. S d + frame_refs f d) g" and S: "\<forall>d. 0 \<le> S d" and good: "good_frame g f"
  shows "refs_ok (\<lambda>d. S d + frame_refs f' d) g'" and "same_net g g'" and "good_frame g' f'" and "core f' = core f"
    and "length (destinations f') = length (destinations f) - 1"
proof -
  let ?ds = "destinations f" let ?n = "length ?ds - 1" let ?d = "pd_destination (?ds ! i)"
  let ?new = "take ?n (if i < ?n then ?ds[i := ?ds ! ?n] else ?ds)"
  have f': "f' = f\<lparr>destinations := ?new\<rparr>" and g': "g' = release_destination_ref ?d g"
    using assms(1) unfolding remove_destination_def Let_def prod.inject by (rule conjE, simp only:)+
  have "frame_refs f' x = frame_refs f x - (if x = ?d then 1 else 0)" for x
    using count_swap_remove [of i "map pd_destination ?ds" x] i
    by (simp add: frame_refs_def f' take_map map_update [symmetric] if_distrib split: if_splits)
  moreover have "0 < S ?d + frame_refs f ?d" using S frame_refs_pos [of "?ds ! i" f] i by (simp add: add_nonneg_pos)
  ultimately show "refs_ok (\<lambda>d. S d + frame_refs f' d) g'"
    unfolding g' by (intro refs_ok_cong [OF release_refs [OF refs]]) (use good i in \<open>auto simp: good_frame_def\<close>)
  show "same_net g g'" by (simp add: g')
  have "?ds ! ?n \<in> set ?ds" using i by simp
  then have "set ?new \<subseteq> set ?ds"
    by (intro subset_trans [OF set_take_subset]) (auto dest: set_update_subset_insert [THEN subsetD])
  then show "good_frame g' f'" using good by (auto simp: good_frame_def f' same_net_lengths [OF \<open>same_net g g'\<close>])
  show "core f' = core f" by (simp add: f')
  show "length (destinations f') = length ?ds - 1" by (simp add: f')
qed

end
