(* ===== verification/Queue_Times.thy ===== *)
theory Queue_Times
  imports Tx_Queue
begin

text \<open>
  When the next packet is sent: a frame that can be sent somewhere always has the alarm \<^verbatim>\<open>next_packet\<close> waiting for it,
  no later than the frame allows.
\<close>

section \<open>The earliest time for a destination\<close>

definition send_time :: "int \<Rightarrow> mesh \<Rightarrow> packet_destination \<Rightarrow> int" where
  "send_time now g pd =
     (let x = dests g ! pd_destination pd; next = fst (limit_next_allowed now (transfer_limit x)) in
      if transmit_time pd = 0 then next else max next (transmit_time pd + resend_delay x))"

lemma limit_next_allowed_again: "fst (limit_next_allowed now (snd (limit_next_allowed now s))) = fst (limit_next_allowed now s)"
  by (auto simp: limit_next_allowed_def update_limit_state_def Let_def)

lemma limit_next_allowed_from: "0 \<le> burst_size s \<Longrightarrow> now \<le> fst (limit_next_allowed now s)"
  by (auto simp: limit_next_allowed_def update_limit_state_def Let_def)

text \<open>Asking the limiter changes none of the answers it gives at the same time.\<close>

definition same_answers :: "int \<Rightarrow> mesh \<Rightarrow> mesh \<Rightarrow> bool" where
  "same_answers now g g' \<longleftrightarrow> interfaces g' = interfaces g \<and> overlay_tx g' = overlay_tx g \<and> queue g' = queue g
     \<and> map (\<lambda>x. (dest_interface x, resend_delay x, fst (limit_next_allowed now (transfer_limit x)))) (dests g')
       = map (\<lambda>x. (dest_interface x, resend_delay x, fst (limit_next_allowed now (transfer_limit x)))) (dests g)"

lemma same_answersD:
  assumes "same_answers now g g'" and "d < length (dests g)"
  shows "d < length (dests g')" "dest_interface (dests g' ! d) = dest_interface (dests g ! d)"
    "resend_delay (dests g' ! d) = resend_delay (dests g ! d)"
    "fst (limit_next_allowed now (transfer_limit (dests g' ! d))) = fst (limit_next_allowed now (transfer_limit (dests g ! d)))"
proof -
  let ?f = "\<lambda>x. (dest_interface x, resend_delay x, fst (limit_next_allowed now (transfer_limit x)))"
  have eq: "map ?f (dests g') = map ?f (dests g)" using assms(1) by (simp add: same_answers_def)
  then show l: "d < length (dests g')" using map_eq_imp_length_eq [OF eq] assms(2) by simp
  have "?f (dests g' ! d) = ?f (dests g ! d)" using arg_cong [OF eq, of "\<lambda>xs. xs ! d"] l assms(2) by simp
  then show "dest_interface (dests g' ! d) = dest_interface (dests g ! d)" "resend_delay (dests g' ! d) = resend_delay (dests g ! d)"
    "fst (limit_next_allowed now (transfer_limit (dests g' ! d))) = fst (limit_next_allowed now (transfer_limit (dests g ! d)))" by simp_all
qed

lemma same_answers_trans: "same_answers now g g1 \<Longrightarrow> same_answers now g1 g2 \<Longrightarrow> same_answers now g g2"
  unfolding same_answers_def by (elim conjE) (intro conjI; simp)

lemma next_allowed_step:
  "next_allowed now pd (t, g) = (let x = dests g ! pd_destination pd; n = send_time now g pd in
     if radio_link_is_busy g (dest_interface x) then (t, g)
     else (if t = 0 \<or> n < t then n else t,
           set_dest (pd_destination pd) (x\<lparr>transfer_limit := snd (limit_next_allowed now (transfer_limit x))\<rparr>) g))"
  by (auto simp: next_allowed_def send_time_def Let_def max_def split: prod.splits)

lemma same_answers_set_dest:
  "same_answers now g (set_dest d ((dests g ! d)\<lparr>transfer_limit := snd (limit_next_allowed now (transfer_limit (dests g ! d)))\<rparr>) g)"
  unfolding same_answers_def set_dest_def
  by (simp add: map_update_same [where f = "\<lambda>x. (dest_interface x, resend_delay x, fst (limit_next_allowed now (transfer_limit x)))"]
      limit_next_allowed_again)

lemma next_allowed_same: "next_allowed now pd (t, g) = (t', g') \<Longrightarrow> same_answers now g g'"
  using same_answers_set_dest [of now g "pd_destination pd"]
  by (auto simp: next_allowed_step Let_def same_answers_def split: if_splits)

text \<open>The loop finds the earliest time of all the destinations whose radio is not busy.\<close>

definition idle :: "mesh \<Rightarrow> packet_destination \<Rightarrow> bool" where
  "idle g pd \<longleftrightarrow> \<not> radio_link_is_busy g (dest_interface (dests g ! pd_destination pd))"

lemma same_answers_idle:
  assumes "same_answers now g g'" and "pd_destination pd < length (dests g)"
  shows "idle g' pd = idle g pd" "send_time now g' pd = send_time now g pd"
  using same_answersD [OF assms] assms(1) by (simp_all add: idle_def radio_link_is_busy_def send_time_def same_answers_def Let_def)

lemma fold_next_allowed:
  assumes "fold (next_allowed now) pds (t, g) = (t', g')" and "0 \<le> t"
    and "\<forall>pd \<in> set pds. pd_destination pd < length (dests g) \<and> 0 < send_time now g pd"
  shows "same_answers now g g' \<and> 0 \<le> t' \<and> (0 < t \<longrightarrow> 0 < t' \<and> t' \<le> t) \<and> (\<forall>pd \<in> set pds. idle g pd \<longrightarrow> 0 < t' \<and> t' \<le> send_time now g pd)"
  using assms
proof (induction pds arbitrary: t g)
  case (Cons pd pds)
  obtain t1 g1 where s: "next_allowed now pd (t, g) = (t1, g1)" by fastforce
  note same = next_allowed_same [OF s]
  have in1: "\<forall>x \<in> set pds. pd_destination x < length (dests g1) \<and> 0 < send_time now g1 x \<and> idle g1 x = idle g x \<and> send_time now g1 x = send_time now g x"
    using Cons.prems(3) same_answersD(1) [OF same] same_answers_idle [OF same] by simp
  have t1: "0 \<le> t1" "0 < t \<longrightarrow> 0 < t1 \<and> t1 \<le> t" "idle g pd \<longrightarrow> 0 < t1 \<and> t1 \<le> send_time now g pd"
    using s Cons.prems(2,3) by (auto simp: next_allowed_step Let_def idle_def split: if_splits)
  have "same_answers now g1 g' \<and> 0 \<le> t' \<and> (0 < t1 \<longrightarrow> 0 < t' \<and> t' \<le> t1) \<and> (\<forall>x \<in> set pds. idle g1 x \<longrightarrow> 0 < t' \<and> t' \<le> send_time now g1 x)"
    by (rule Cons.IH) (use Cons.prems(1) s t1(1) in1 in \<open>simp, simp, blast\<close>)
  then show ?case using same_answers_trans [OF same] t1 in1 by fastforce
qed (simp add: same_answers_def)

section \<open>The alarm\<close>

text \<open>
  \<^verbatim>\<open>next_packet\<close> is waiting exactly when its \<open>alarm\<close> is not 0: \<^verbatim>\<open>overlay_send_packet\<close> resets it.
\<close>

definition packet_alarm_ok :: "fdqueue \<Rightarrow> bool" where
  "packet_alarm_ok q \<longleftrightarrow> (let e = alarms q NEXT_PACKET in
     if alarm e = 0 then \<not> scheduled e \<and> run_after e \<in> {0, TIME_MS_NEVER_WILL}
     else scheduled e \<and> run_after e = alarm e \<and> run_before e = alarm e + 15)"

lemma schedule_run_after:
  assumes "run_after e = 0 \<or> run_after e = TIME_MS_NEVER_WILL"
  shows "schedule a (set_alarm a (e\<lparr>alarm := t, deadline := u\<rparr>) q) = schedule a (set_alarm a (e\<lparr>run_after := t, alarm := t, deadline := u\<rparr>) q)"
  using assms by (cases e) (auto simp: schedule_def Let_def set_alarm_def)

lemma unschedule_run_after:
  "run_after (alarms (unschedule a q) a) = (if scheduled (alarms q a) then TIME_MS_NEVER_WILL else run_after (alarms q a))"
  by (simp add: unschedule_def Let_def)

lemma schedule_next_reschedules:
  assumes "packet_alarm_ok (queue g)" and "alarm (alarms (queue g) NEXT_PACKET) = 0 \<or> t < alarm (alarms (queue g) NEXT_PACKET)"
  shows "overlay_queue_schedule_next t g = on_queue (\<lambda>q. RESCHEDULE NEXT_PACKET t t (t + 15)
     (set_alarm NEXT_PACKET ((alarms q NEXT_PACKET)\<lparr>has_function := True\<rparr>) q)) g"
proof -
  let ?q = "unschedule NEXT_PACKET (set_alarm NEXT_PACKET ((alarms (queue g) NEXT_PACKET)\<lparr>has_function := True\<rparr>) (queue g))"
  have "run_after (alarms ?q NEXT_PACKET) = 0 \<or> run_after (alarms ?q NEXT_PACKET) = TIME_MS_NEVER_WILL"
    using assms(1) unfolding unschedule_run_after by (auto simp: packet_alarm_ok_def Let_def split: if_splits)
  from schedule_run_after [OF this] show ?thesis
    unfolding overlay_queue_schedule_next_def on_queue_def RESCHEDULE_def Let_def if_P [OF assms(2)] by simp
qed

text \<open>What the next alarm is after scheduling.\<close>

lemma schedule_next_result:
  assumes ok: "queue_ok (queue g)" "packet_alarm_ok (queue g)" and t: "0 < t" "t + 15 < TIME_MS_NEVER_WILL"
  shows "\<exists>q. overlay_queue_schedule_next t g = Some (g\<lparr>queue := q\<rparr>) \<and> queue_ok q \<and> packet_alarm_ok q
     \<and> NEXT_PACKET \<in> set (run_soon q) \<union> set (run_now q) \<and> run_after (alarms q NEXT_PACKET) \<le> t \<and> run_before (alarms q NEXT_PACKET) \<le> t + 15"
proof (cases "alarm (alarms (queue g) NEXT_PACKET) = 0 \<or> t < alarm (alarms (queue g) NEXT_PACKET)")
  case True
  define q1 where "q1 = set_alarm NEXT_PACKET ((alarms (queue g) NEXT_PACKET)\<lparr>has_function := True\<rparr>) (queue g)"
  have q1: "queue_ok q1" by (rule queue_ok_frame [OF ok(1)]) (simp_all add: q1_def)
  have "has_function (alarms q1 NEXT_PACKET)" by (simp add: q1_def)
  from RESCHEDULE_result [OF q1 this, of t t "t + 15"] t obtain q where r: "RESCHEDULE NEXT_PACKET t t (t + 15) q1 = Some q"
    and q: "queue_ok q" "scheduled (alarms q NEXT_PACKET)" "NEXT_PACKET \<in> set (run_soon q)"
      "run_after (alarms q NEXT_PACKET) = t" "run_before (alarms q NEXT_PACKET) = t + 15"
    by auto
  have "alarm (alarms q NEXT_PACKET) = t"
    using r by (auto simp: RESCHEDULE_def schedule_def Let_def split: if_splits elim!: run_bindE)
  then have "packet_alarm_ok q" using q t by (simp add: packet_alarm_ok_def Let_def)
  then show ?thesis
    using q r unfolding schedule_next_reschedules [OF ok(2) True] on_queue_def q1_def [symmetric] by auto
next
  case False
  then have "overlay_queue_schedule_next t g = Some (g\<lparr>queue := queue g\<rparr>)" by (simp add: overlay_queue_schedule_next_def Let_def)
  then show ?thesis using ok False by (auto simp: packet_alarm_ok_def queue_ok_def Let_def intro!: exI [of _ "queue g"])
qed

text \<open>
  C30: A frame that can be sent gets sent: when one of its destinations has a radio that is not busy,
  \<^verbatim>\<open>overlay_calc_queue_time\<close> returns with \<^verbatim>\<open>next_packet\<close> waiting in the scheduler, to run no later than that destination's
  rate limit and resend delay and the frame's own delay and grace period allow, and at most 15 ms after that; the
  lists of the scheduler stay in order.
\<close>

theorem overlay_calc_queue_time_wakes:
  assumes ok: "queue_ok (queue g)" "packet_alarm_ok (queue g)" and pay: "payload f = Some pay" and now: "0 < now"
    and pds: "\<forall>pd \<in> set (destinations f). pd_destination pd < length (dests g) \<and> 0 \<le> burst_size (transfer_limit (dests g ! pd_destination pd))"
    and pd: "pd \<in> set (destinations f)" "\<not> radio_link_is_busy g (dest_interface (dests g ! pd_destination pd))"
    and t: "t = queue_time f pay (overlay_tx g ! frame_queue f) (send_time now g pd)" and "t + 15 < TIME_MS_NEVER_WILL"
  shows "\<exists>g'. overlay_calc_queue_time now f g = Some g' \<and> queue_ok (queue g') \<and> packet_alarm_ok (queue g')
     \<and> NEXT_PACKET \<in> set (run_soon (queue g')) \<union> set (run_now (queue g'))
     \<and> run_after (alarms (queue g') NEXT_PACKET) \<le> t \<and> run_before (alarms (queue g') NEXT_PACKET) \<le> t + 15"
proof -
  obtain t1 g1 where f: "fold (next_allowed now) (destinations f) (0, g) = (t1, g1)" by fastforce
  have "now \<le> send_time now g x" if "x \<in> set (destinations f)" for x
    using limit_next_allowed_from [of "transfer_limit (dests g ! pd_destination x)" now] pds that by (auto simp: send_time_def Let_def)
  then have "\<forall>x \<in> set (destinations f). pd_destination x < length (dests g) \<and> 0 < send_time now g x" using pds now by fastforce
  from fold_next_allowed [OF f order_refl this]
  have same: "same_answers now g g1" and t1: "0 < t1" "t1 \<le> send_time now g pd" using pd by (auto simp: idle_def)
  let ?t = "queue_time f pay (overlay_tx g1 ! frame_queue f) t1"
  have "overlay_tx g1 = overlay_tx g" and q: "queue g1 = queue g" using same by (simp_all add: same_answers_def)
  then have le: "0 < ?t" "?t \<le> t" using t1 by (auto simp: t queue_time_def Let_def)
  obtain q' where "overlay_queue_schedule_next ?t g1 = Some (g1\<lparr>queue := q'\<rparr>)" and "queue_ok q'" "packet_alarm_ok q'"
     "NEXT_PACKET \<in> set (run_soon q') \<union> set (run_now q')" "run_after (alarms q' NEXT_PACKET) \<le> ?t" "run_before (alarms q' NEXT_PACKET) \<le> ?t + 15"
    using schedule_next_result [of g1 ?t] ok le assms(9) unfolding q by auto
  moreover have "destinations f \<noteq> []" using pd(1) by auto
  ultimately show ?thesis using f pay t1(1) le by (auto simp: overlay_calc_queue_time_def)
qed

text \<open>The small mesh with its queues, before anything was sent, and a frame for its only destination.\<close>

definition sample_tx :: mesh where
  "sample_tx = overlay_queue_init (sample_mesh\<lparr>
     overlay_tx := replicate OQ_MAX \<lparr>frames = [], maxLength = 0, small_packet_grace_interval = 0, latencyTarget = 0\<rparr>,
     queue := sample_queue\<lparr>alarms := (alarms sample_queue)(NEXT_PACKET := \<lparr>scheduled = False, has_function = False,
       poll = \<lparr>fd = 0, events = 0, revents = 0\<rparr>, run_after = 0, wake_at = 0, run_before = 0, alarm = 0, deadline = 0, poll_index = 0\<rparr>)\<rparr>\<rparr>)"

definition sample_frame :: overlay_frame where
  "sample_frame = zero_frame\<lparr>frame_queue := OQ_ORDINARY, enqueued_at := 1000, source := Some 0, frame_destination := Some 1,
     payload := Some zero_buffer, destinations := [\<lparr>sent_sequence = - 1, transmit_time = 0, pd_destination = 0, pd_next_hop = Some 1\<rparr>]\<rparr>"

lemma sample_tx_fields [simp]:
  "subs sample_tx = sample_subs" "neighbours sample_tx = [new_neighbour 1000 1]" "directory_service sample_tx = None"
  "interfaces sample_tx = [sample_interface]" "length (dests sample_tx) = 1" "transfer_limit (dests sample_tx ! 0) = zero_limit"
  "dest_interface (dests sample_tx ! 0) = 0" "ref_count (dests sample_tx ! 0) = 1" "freed (dests sample_tx ! 0) = False"
  "encapsulation (dests sample_tx ! 0) = ENCAP_OVERLAY" "resend_delay (dests sample_tx ! 0) = 1000" "sequence_number (dests sample_tx ! 0) = - 1"
  "length (overlay_tx sample_tx) = OQ_MAX"
  by (simp_all add: sample_tx_def overlay_queue_init_def sample_mesh_def bare_mesh_def new_destination_def sample_heap_def Let_def)

lemma sample_tx_queues:
  "overlay_tx sample_tx = [\<lparr>frames = [], maxLength = 20, small_packet_grace_interval = 5, latencyTarget = 200\<rparr>,
     \<lparr>frames = [], maxLength = 100, small_packet_grace_interval = 5, latencyTarget = 1000\<rparr>,
     \<lparr>frames = [], maxLength = 100, small_packet_grace_interval = 5, latencyTarget = 200\<rparr>,
     \<lparr>frames = [], maxLength = 100, small_packet_grace_interval = 5, latencyTarget = 1000\<rparr>,
     \<lparr>frames = [], maxLength = 100, small_packet_grace_interval = 20, latencyTarget = 1000\<rparr>]"
  by (simp add: sample_tx_def overlay_queue_init_def OQ_MAX_def OQ_ISOCHRONOUS_VOICE_def OQ_ISOCHRONOUS_VIDEO_def OQ_OPPORTUNISTIC_def
      eval_nat_numeral Let_def)

lemma sample_tx_alarms: "queue_ok (queue sample_tx)" "packet_alarm_ok (queue sample_tx)"
proof -
  have q: "queue sample_tx = sample_queue\<lparr>alarms := (alarms sample_queue)(NEXT_PACKET := \<lparr>scheduled = False, has_function = False,
       poll = \<lparr>fd = 0, events = 0, revents = 0\<rparr>, run_after = 0, wake_at = 0, run_before = 0, alarm = 0, deadline = 0, poll_index = 0\<rparr>)\<rparr>"
    by (simp add: sample_tx_def overlay_queue_init_def Let_def)
  show "packet_alarm_ok (queue sample_tx)" by (simp add: q packet_alarm_ok_def)
  show "queue_ok (queue sample_tx)"
    using sample_queue_ok by (auto simp: q queue_ok_def sample_queue_def NEXT_PACKET_def empty_queue_def sample_alarm_def
        sched_ent_unused_def TIME_MS_NEVER_WILL_def)
qed

theorem overlay_calc_queue_time_wakes_witness:
  "\<exists>g'. overlay_calc_queue_time 1000 sample_frame sample_tx = Some g' \<and> NEXT_PACKET \<in> set (run_soon (queue g')) \<union> set (run_now (queue g'))
     \<and> run_after (alarms (queue g') NEXT_PACKET) \<le> 1005"
proof -
  let ?pd = "\<lparr>sent_sequence = - 1, transmit_time = 0, pd_destination = 0, pd_next_hop = Some 1\<rparr>"
  have "send_time 1000 sample_tx ?pd = 1000" by (simp add: send_time_def limit_next_allowed_def zero_limit_def)
  moreover have "queue_time sample_frame zero_buffer (overlay_tx sample_tx ! frame_queue sample_frame) 1000 = 1005"
    by (simp add: queue_time_def sample_tx_queues sample_frame_def zero_frame_def OQ_ORDINARY_def ob_position_def zero_buffer_def
        SMALL_PACKET_SIZE_def eval_nat_numeral)
  ultimately show ?thesis
    using overlay_calc_queue_time_wakes [OF sample_tx_alarms, of sample_frame zero_buffer 1000 ?pd 1005]
    by (auto simp: sample_frame_def zero_limit_def radio_link_is_busy_def sample_interface_def TIME_MS_NEVER_WILL_def)
qed

end
