(* ===== verification/Queue_Refs.thy ===== *)
theory Queue_Refs imports Queue_Times "HOL-Library.Sublist"
begin

text \<open>
  The transmission queues keep the reference counts of network destinations right: what each operation of
  \<^verbatim>\<open>overlay_queue.c\<close> does to the references that frames and the packet under way hold.
\<close>

subsection \<open>Choosing where to send\<close>

text \<open>What adding destinations keeps, with the references of the packet under way and of everything else in \<open>S\<close>.\<close>

definition adding :: "(nat \<Rightarrow> int) \<Rightarrow> mesh \<Rightarrow> overlay_frame \<Rightarrow> overlay_frame \<times> mesh \<Rightarrow> bool" where
  "adding S g0 f0 s \<longleftrightarrow> (case s of (f, g) \<Rightarrow> same_net g0 g \<and> subs g = subs g0 \<and> neighbours g = neighbours g0
     \<and> refs_ok (\<lambda>d. S d + frame_refs f d) g \<and> good_frame g f \<and> core f = core f0)"

lemma adding_one:
  assumes "adding S g0 f0 (f, g)" and d: "d < length (dests g0)" "0 < S d" and nh: "\<forall>a. nh = Some a \<longrightarrow> a < length (subs g0)"
  shows "adding S g0 f0 (add_packet_destination d nh f g)"
proof (cases "length (destinations f) < MAX_PACKET_DESTINATIONS")
  case True
  define pd where "pd = \<lparr>sent_sequence = 0, transmit_time = 0, pd_destination = d, pd_next_hop = nh\<rparr>"
  define f' where "f' = f\<lparr>destinations := destinations f @ [pd]\<rparr>"
  note a = assms(1) [unfolded adding_def prod.case]
  have l: "length (dests g) = length (dests g0)" "length (subs g) = length (subs g0)" using a same_net_lengths by blast+
  have "refs_ok (\<lambda>x. S x + frame_refs f' x) (add_destination_ref d g)"
    by (rule refs_ok_cong [OF add_refs [of "\<lambda>x. S x + frame_refs f x" g d]])
      (use a d l in \<open>auto simp: frame_refs_def f'_def pd_def add_pos_nonneg\<close>)
  moreover have "good_frame (add_destination_ref d g) f'"
    using a d l nh True by (auto simp: good_frame_def f'_def pd_def add_destination_ref_def set_dest_def)
  moreover have "same_net g0 (add_destination_ref d g)" using a same_net_trans same_net_refs(1) by blast
  moreover have "subs (add_destination_ref d g) = subs g0" "neighbours (add_destination_ref d g) = neighbours g0"
    using a by (simp_all add: add_destination_ref_def set_dest_def)
  ultimately show ?thesis using a True by (simp add: add_packet_destination_def adding_def f'_def pd_def)
qed (use assms(1) in \<open>simp add: add_packet_destination_def\<close>)

lemma adding_out_links:
  assumes "adding S g0 f0 (f, g)" and "\<forall>l \<in> set ls. out_destination l < length (dests g0) \<and> 0 < S (out_destination l)" and "nh < length (subs g0)"
  shows "adding S g0 f0 (add_out_links now nh ls f g)"
  using assms(1,2)
proof (induction ls arbitrary: f g)
  case (Cons l ls)
  obtain f1 g1 where s: "add_packet_destination (out_destination l) (Some nh) f g = (f1, g1)" by fastforce
  have "adding S g0 f0 (f1, g1)" using adding_one [OF Cons.prems(1)] Cons.prems(2) assms(3) s by (metis list.set_intros(1) option.inject)
  then show ?case using Cons by (simp add: s)
qed simp

lemma adding_version:
  "adding S g0 f0 (f, g) \<Longrightarrow> 0 \<le> v \<Longrightarrow> adding S g0 f0 (if frame_packet_version f > v then f\<lparr>frame_packet_version := v\<rparr> else f, g)"
  by (auto simp: adding_def good_frame_def frame_refs_def)

lemma adding_broadcast:
  assumes "adding S g0 f0 (f, g)" and net: "net_ok S g0" and "set ns \<subseteq> set (neighbours g0)"
    and "add_broadcast_destinations added ns f g = Some s"
  shows "adding S g0 f0 s"
  using assms(1,3,4)
proof (induction ns arbitrary: added f g)
  case (Cons n ns)
  let ?s = "sub g (nb_subscriber n)"
  have g: "subs g = subs g0" using Cons.prems(1) by (simp add: adding_def)
  have "nb_subscriber n < length (subs g0)" using net Cons.prems(2) by (auto simp: net_ok_def out_ok_def)
  then have s: "sub_ok S (length (subs g0)) (length (dests g0)) ?s" using net g by (simp add: net_ok_def)
  note IH = Cons.IH [OF _ subset_trans [OF set_subset_Cons Cons.prems(2)]]
  show ?case
  proof (cases "reachable ?s AND REACHABLE_DIRECT = 0")
    case True
    then show ?thesis using IH [OF Cons.prems(1)] Cons.prems(3) by simp
  next
    case near: False
    obtain d where d: "destination ?s = Some d" using Cons.prems(3) near by (auto simp: Let_def split: bind_splits)
    define f1 where "f1 = (if frame_packet_version f > max_packet_version ?s then f\<lparr>frame_packet_version := max_packet_version ?s\<rparr> else f)"
    have f1: "adding S g0 f0 (f1, g)" unfolding f1_def by (rule adding_version [OF Cons.prems(1)]) (use s in \<open>simp add: sub_ok_def\<close>)
    obtain f2 g2 where p: "add_packet_destination d None f1 g = (f2, g2)" by fastforce
    have f2: "adding S g0 f0 (f2, g2)" unfolding p [symmetric] by (rule adding_one [OF f1]) (use s d in \<open>simp_all add: sub_ok_def\<close>)
    have "\<exists>added. add_broadcast_destinations added ns f1 g = Some s \<or> add_broadcast_destinations added ns f2 g2 = Some s"
      using Cons.prems(3) near by (auto simp: d Let_def f1_def [symmetric] p split: if_splits bind_splits)
    then show ?thesis using IH f1 f2 by blast
  qed
qed simp

lemma adding_destinations:
  assumes "adding S g f (f, g)" and net: "net_ok S g" and "link_add_destinations now f g = Some s"
  shows "adding S g f s"
proof (cases "frame_destination f")
  case None
  then show ?thesis using adding_broadcast [OF assms(1) net subset_refl] assms(3) by (simp add: link_add_destinations_def)
next
  case (Some dst)
  define nh where "nh = route_via g dst"
  have "dst < length (subs g)" using assms(1) Some by (simp add: adding_def good_frame_def)
  then have nh: "nh < length (subs g)" using net by (auto simp: nh_def route_via_def net_ok_def split: option.splits)
  define r where "r = (if reachable (sub g nh) = REACHABLE_NONE
     then (case find_neighbour (neighbours g) dst of Some n \<Rightarrow> add_out_links now nh (out_links n) f g | None \<Rightarrow> (f, g)) else (f, g))"
  obtain f1 g1 where r1: "r = (f1, g1)" by fastforce
  have a1: "adding S g f (f1, g1)"
  proof (cases "reachable (sub g nh) = REACHABLE_NONE \<and> find_neighbour (neighbours g) dst \<noteq> None")
    case True
    then obtain n where n: "find_neighbour (neighbours g) dst = Some n" by auto
    then have "n \<in> set (neighbours g)" by (auto simp: find_neighbour_def find_Some_iff)
    then have "adding S g f (add_out_links now nh (out_links n) f g)"
      by (intro adding_out_links [OF assms(1) _ nh]) (use net in \<open>auto simp: net_ok_def out_ok_def\<close>)
    then show ?thesis using True n r1 by (simp add: r_def)
  qed (use r1 assms(1) in \<open>auto simp: r_def split: if_splits\<close>)
  have subs1: "subs g1 = subs g" using a1 by (simp add: adding_def)
  have "s = (f1, g1) \<or> (\<exists>a d. a < length (subs g) \<and> destination (sub g a) = Some d \<and> s = add_packet_destination d (Some a) f1 g1)"
  proof -
    obtain a where a: "(if reachable (sub g1 nh) AND REACHABLE = REACHABLE_INDIRECT then next_hop (sub g1 nh) else Some nh) = Some a"
      and s: "(if reachable (sub g1 a) AND REACHABLE_DIRECT \<noteq> 0
             then do { d \<leftarrow> destination (sub g1 a); Some (add_packet_destination d (Some a) f1 g1) }
             else Some (f1, g1)) = Some s"
      using assms(3) Some unfolding link_add_destinations_def by (simp add: nh_def [symmetric] r_def [symmetric] r1 Let_def) (erule run_bindE)
    have "a < length (subs g)" using a nh net nth_mem [OF nh] by (auto simp: subs1 net_ok_def sub_ok_def split: if_splits)
    then show ?thesis using s by (auto simp: subs1 split: if_splits bind_splits)
  qed
  then show ?thesis
  proof (elim disjE exE conjE)
    fix a d assume a: "a < length (subs g)" "destination (sub g a) = Some d" "s = add_packet_destination d (Some a) f1 g1"
    then have "d < length (dests g) \<and> 0 < S d" using net nth_mem [OF a(1)] by (auto simp: net_ok_def sub_ok_def)
    then show ?thesis unfolding a(3) by (intro adding_one [OF a1]) (use a(1) in auto)
  qed (use a1 in simp)
qed

lemma init_packet_refs:
  assumes "overlay_init_packet h p v d g = Some (ret, p', g')" and "net_ok K g" and "refs_ok R g" and d: "d < length (dests g)" "0 < R d"
    and v: "v \<in> {0, 1}" and p: "out_dest p = None"
  shows "same_net g g'" and "refs_ok (\<lambda>x. R x + packet_refs p' x) g'" and "good_packet g' p'" and "out_dest p' = (if ret = - 1 then None else Some d)"
proof -
  define i where "i = dest_interface (dests g ! d)"
  define p1 where "p1 = p\<lparr>out_context := (out_context p)\<lparr>ctx_interface := Some i\<rparr>\<rparr>"
  have "same_net g g' \<and> refs_ok (\<lambda>x. R x + packet_refs p' x) g' \<and> good_packet g' p' \<and> out_dest p' = (if ret = - 1 then None else Some d)"
  proof (cases "ob_new (blocks h)")
    case None
    then have "ret = - 1" "g' = g" "out_dest p' = None" "out_buffer p' = None"
      using assms(1) p by (auto simp: overlay_init_packet_def)
    then show ?thesis using assms(3) by (simp add: packet_refs_def good_packet_def)
  next
    case (Some b)
    define g1 where "g1 = add_destination_ref d g"
    define x where "x = dests g1 ! d"
    define seq where "seq = (if sequence_number x < 0 then - 1 else (sequence_number x + 1) AND 0xFFFF)"
    define g2 where "g2 = (if sequence_number x < 0 then g1 else set_dest d (x\<lparr>sequence_number := seq\<rparr>) g1)"
    define p2 where "p2 = p1\<lparr>out_version := v, out_context := (out_context p1)\<lparr>ctx_packet_version := v\<rparr>, out_dest := Some d, out_seq := seq\<rparr>"
    have "ob_limitsize b (mtu (interfaces g2 ! i)) \<bind> (\<lambda>b.
       overlay_packet_init_header h v (encapsulation x) (out_context p2) b (unicast x) i seq g2 \<bind> (\<lambda>(ret, c, b, g).
         Some (if ret = - 1 then (- 1, p2\<lparr>out_context := c, out_buffer := None\<rparr>, g)
               else (0, p2\<lparr>out_context := c, out_buffer := Some b, header_length := ob_position b\<rparr>, g)))) = Some (ret, p', g')"
      using assms(1) unfolding overlay_init_packet_def Let_def Some option.case i_def [symmetric] p1_def [symmetric] g1_def [symmetric]
        x_def [symmetric] seq_def [symmetric] g2_def [symmetric] p2_def by simp
    then obtain b1 w where h0: "overlay_packet_init_header h v (encapsulation x) (out_context p2) b1 (unicast x) i seq g2 = Some w"
      and w: "(case w of (ret, c, b, g) \<Rightarrow> Some (if ret = - 1 then (- 1, p2\<lparr>out_context := c, out_buffer := None\<rparr>, g)
               else (0, p2\<lparr>out_context := c, out_buffer := Some b, header_length := ob_position b\<rparr>, g))) = Some (ret, p', g')"
      by (elim run_bindE)
    obtain r c1 b2 where w': "w = (r, c1, b2, g')" using w by (cases w) (auto split: if_splits)
    note h = h0 [unfolded w']
    have r: "out_dest p' = Some d" "r \<noteq> - 1 \<Longrightarrow> out_buffer p' = Some b2 \<and> ret = 0"
      using w unfolding w' by (auto simp: p2_def split: if_splits)
    have g2: "quiet g1 g2" unfolding g2_def using quiet_set_dest [of "x\<lparr>sequence_number := seq\<rparr>" g1 d] by (simp add: x_def)
    have "encapsulation x = encapsulation (dests g ! d)" using d by (simp add: x_def g1_def add_destination_ref_def set_dest_def)
    then have "encapsulation x \<in> {ENCAP_OVERLAY, ENCAP_SINGLE}" using assms(2) d(1) by (simp add: net_ok_def)
    then have "r = 0" by (rule init_header_result(2) [OF h v])
    moreover have "quiet g1 g'" using quiet_trans [OF g2 init_header_result(1) [OF h]] .
    moreover have "refs_ok (\<lambda>y. R y + (if y = d then 1 else 0)) g1" unfolding g1_def by (rule add_refs [OF assms(3) d])
    moreover have "same_net g g1" by (simp add: g1_def)
    ultimately have "same_net g g'" and "refs_ok (\<lambda>y. R y + (if y = d then 1 else 0)) g'"
      using refs_ok_counts [of g' g1] same_net_trans [of g g1 g'] by (simp_all add: quiet_def)
    moreover have "packet_refs p' = (\<lambda>y. if y = d then 1 else 0)" using r(1) by (auto simp: packet_refs_def)
    moreover have "good_packet g' p'" using r \<open>r = 0\<close> d(1) same_net_lengths(2) [OF \<open>same_net g g'\<close>] by (simp add: good_packet_def)
    ultimately show ?thesis using r \<open>r = 0\<close> by simp
  qed
  then show "same_net g g'" and "refs_ok (\<lambda>x. R x + packet_refs p' x) g'" and "good_packet g' p'" and "out_dest p' = (if ret = - 1 then None else Some d)"
    by blast+
qed

lemma start_packet_refs:
  assumes "start_packet h now d f p g = Some (ok, p', g')" and "net_ok K g" and "refs_ok R g" and d: "d < length (dests g)" "0 < R d"
    and f: "good_frame g f" and p: "out_dest p = None" "good_packet g p"
  shows "same_net g g' \<and> refs_ok (\<lambda>x. R x + packet_refs p' x) g' \<and> good_packet g' p' \<and> (ok \<longrightarrow> out_dest p' = Some d) \<and> (\<not> ok \<longrightarrow> out_dest p' = None)"
proof -
  define x where "x = dests g ! d"
  define r where "r = fst (limit_is_allowed now (transfer_limit x))"
  define g1 where "g1 = set_dest d (x\<lparr>transfer_limit := snd (limit_is_allowed now (transfer_limit x))\<rparr>) g"
  have q1: "quiet g g1" unfolding g1_def x_def by (rule quiet_set_dest) simp_all
  note st = assms(1) [unfolded start_packet_def Let_def x_def [symmetric] case_prod_unfold r_def [symmetric] g1_def [symmetric]]
  have unchanged: ?thesis if "p' = p" "\<not> ok" "quiet g g'"
    using that assms(3) p good_packet_same [of g g' p] refs_ok_counts [of g' g] unfolding quiet_def by (simp add: packet_refs_def)
  show ?thesis
  proof (cases "radio_link_is_busy g (dest_interface x)")
    case True
    then have "p' = p" "\<not> ok" "g' = g" using st by auto
    then show ?thesis by (intro unchanged) simp_all
  next
    case free: False
    show ?thesis
    proof (cases "r = 0")
      case False
      then have "p' = p" "\<not> ok" "g' = g1" using st free by auto
      then show ?thesis by (intro unchanged) (simp_all add: q1)
    next
      case True
      obtain g2 where g2: "(if source_full f then do { m \<leftarrow> my_subscriber g1; Some (set_sub m ((sub g1 m)\<lparr>send_full := True\<rparr>) g1) } else Some g1) = Some g2"
        and st2: "overlay_init_packet h p (frame_packet_version f) d g2 \<bind> (\<lambda>x. Some (fst x \<noteq> - 1, fst (snd x), snd (snd x))) = Some (ok, p', g')"
        using st unfolding if_not_P [OF free] True by (simp only: simp_thms if_False) (rule run_bindE)
      obtain ret where i: "overlay_init_packet h p (frame_packet_version f) d g2 = Some (ret, p', g')" and ok: "ok \<longleftrightarrow> ret \<noteq> - 1"
        using st2 by (rule run_bindE) auto
      have "quiet g1 g2" using g2 by (auto intro!: quiet_set_sub split: if_splits bind_splits)
      then have q2: "quiet g g2" by (rule quiet_trans [OF q1])
      then have "net_ok K g2" "refs_ok R g2" "d < length (dests g2)"
        using assms(2,3) d(1) net_ok_same [of g g2] refs_ok_counts [of g2 g] same_net_lengths(2) [of g g2] by (simp_all add: quiet_def)
      note ip = init_packet_refs [OF i this d(2) _ p(1)]
      have v: "frame_packet_version f \<in> {0, 1}" using f by (simp add: good_frame_def)
      have "same_net g g'" using q2 ip(1) [OF v] same_net_trans unfolding quiet_def by blast
      then show ?thesis using ip(2-4) [OF v] ok by simp
    qed
  qed
qed

text \<open>The state while a frame is worked on: \<open>S\<close> are the references held by others.\<close>

definition working :: "(nat \<Rightarrow> int) \<Rightarrow> mesh \<Rightarrow> overlay_frame \<Rightarrow> overlay_frame \<times> outgoing_packet \<times> mesh \<Rightarrow> bool" where
  "working S g0 f0 s \<longleftrightarrow> (case s of (f, p, g) \<Rightarrow> same_net g0 g \<and> refs_ok (\<lambda>d. S d + packet_refs p d + frame_refs f d) g
     \<and> good_frame g f \<and> good_packet g p \<and> core f = core f0)"

lemma working_quiet: "working S g0 f0 (f, p, g) \<Longrightarrow> quiet g g' \<Longrightarrow> working S g0 f0 (f, p, g')"
  unfolding working_def quiet_def prod.case using same_net_trans [of g0 g g'] refs_ok_counts [of g' g] good_frame_same [of g g' f] good_packet_same [of g g' p]
  by blast

lemma working_frame:
  "working S g0 f0 (f, p, g) \<Longrightarrow> map pd_destination (destinations f') = map pd_destination (destinations f) \<Longrightarrow>
   map pd_next_hop (destinations f') = map pd_next_hop (destinations f) \<Longrightarrow> frame_packet_version f' \<in> {0, 1} \<Longrightarrow>
   core f' = core f \<Longrightarrow> working S g0 f0 (f', p, g)"
proof -
  assume a: "working S g0 f0 (f, p, g)" and d: "map pd_destination (destinations f') = map pd_destination (destinations f)"
    and n: "map pd_next_hop (destinations f') = map pd_next_hop (destinations f)" and v: "frame_packet_version f' \<in> {0, 1}" and c: "core f' = core f"
  have l: "length (destinations f') = length (destinations f)" using d map_eq_imp_length_eq by blast
  have "pd_destination pd < length (dests g) \<and> (\<forall>a. pd_next_hop pd = Some a \<longrightarrow> a < length (subs g))" if pd: "pd \<in> set (destinations f')" for pd
  proof -
    obtain i where i: "i < length (destinations f)" "pd = destinations f' ! i" using pd l by (metis in_set_conv_nth)
    have "pd_destination pd = pd_destination (destinations f ! i)" "pd_next_hop pd = pd_next_hop (destinations f ! i)"
      using arg_cong [OF d, of "\<lambda>xs. xs ! i"] arg_cong [OF n, of "\<lambda>xs. xs ! i"] i l by simp_all
    then show ?thesis using a nth_mem [OF i(1)] by (simp add: working_def good_frame_def)
  qed
  then have "good_frame g f'" using a v l coreD [OF c] by (simp add: working_def good_frame_def)
  moreover have "frame_refs f' = frame_refs f" using d by (simp add: frame_refs_def fun_eq_iff)
  ultimately show ?thesis using a c by (simp add: working_def)
qed

lemma working_update:
  "working S g0 f0 (f, p, g) \<Longrightarrow> pd_destination pd = pd_destination (destinations f ! i) \<Longrightarrow> pd_next_hop pd = pd_next_hop (destinations f ! i) \<Longrightarrow>
   working S g0 f0 (f\<lparr>destinations := (destinations f)[i := pd]\<rparr>, p, g)"
  by (rule working_frame) (simp_all add: map_update_same, simp add: working_def good_frame_def)

lemma working_degrade:
  assumes w: "working S g0 f0 (f, p, g)" and net: "net_ok K g0" and pd: "pd \<in> set (destinations f)"
  shows "working S g0 f0 (degrade g pd f, p, g)"
proof -
  have "net_ok K g" using w net net_ok_same by (auto simp: working_def)
  moreover have "pd_next_hop pd = Some a \<Longrightarrow> a < length (subs g)" for a using w pd by (auto simp: working_def good_frame_def)
  ultimately have "pd_next_hop pd = Some a \<Longrightarrow> 0 \<le> max_packet_version (sub g a)" for a by (simp add: net_ok_def sub_ok_def)
  then have "frame_packet_version (degrade g pd f) \<in> {0, 1}"
    using w by (auto simp: degrade_def working_def good_frame_def split: option.splits)
  moreover have "destinations (degrade g pd f) = destinations f" "core (degrade g pd f) = core f"
    by (simp_all add: degrade_def split: option.splits)
  ultimately show ?thesis using working_frame [OF w, of "degrade g pd f"] by simp
qed

lemma working_remove:
  assumes w: "working S g0 f0 (f, p, g)" and i: "i < length (destinations f)" and S: "\<forall>d. 0 \<le> S d" and r: "remove_destination f i g = (f', g')"
  shows "working S g0 f0 (f', p, g')" and "length (destinations f') = length (destinations f) - 1"
proof -
  have S': "\<forall>d. 0 \<le> S d + packet_refs p d" using S by simp
  have ok: "refs_ok (\<lambda>d. S d + packet_refs p d + frame_refs f d) g" "good_frame g f" using w by (simp_all add: working_def)
  note rd = remove_destination_refs [OF r i ok(1) S' ok(2)]
  show "working S g0 f0 (f', p, g')"
    using w rd same_net_trans [of g0 g g'] good_packet_same [of g g' p] by (simp add: working_def)
  show "length (destinations f') = length (destinations f) - 1" by (rule rd(5))
qed

lemma working_start:
  assumes w: "working S g0 f0 (f, p, g)" and net: "net_ok K g0" and S: "\<forall>d. 0 \<le> S d" and pd: "pd \<in> set (destinations f)"
    and none: "out_buffer p = None" and s: "start_packet h now (pd_destination pd) f p g = Some (ok, p1, g1)"
  shows "working S g0 f0 (f, p1, g1)"
proof -
  have p: "out_dest p = None" "good_packet g p" using w none by (simp_all add: working_def good_packet_def)
  have R: "refs_ok (\<lambda>d. S d + frame_refs f d) g" using w p(1) by (simp add: working_def packet_refs_def)
  have "pd_destination pd < length (dests g)" "0 < S (pd_destination pd) + frame_refs f (pd_destination pd)"
    using w pd S frame_refs_pos [of pd f] by (simp_all add: working_def good_frame_def add_nonneg_pos)
  note sp = start_packet_refs [OF s net_ok_same [of g0 g, OF _ net] R this _ p]
  show ?thesis using sp w same_net_trans [of g0 g g1] good_frame_same [of g g1 f] by (simp add: working_def algebra_simps)
qed

lemma choose_destination_working:
  assumes "working S g0 f0 (f, p, g)" and net: "net_ok K g0" and S: "\<forall>d. 0 \<le> S d" and "i \<le> length (destinations f)"
    and "choose_destination h now i f p g = Some (r, f', p', g')"
  shows "working S g0 f0 (f', p', g') \<and> (\<forall>j. r = Some j \<longrightarrow> j < length (destinations f'))"
  using assms(1,4,5)
proof (induction i arbitrary: f p g)
  case (Suc i)
  note w = Suc.prems(1)
  define pd where "pd = destinations f ! i"
  define d where "d = pd_destination pd"
  define x where "x = dests g ! d"
  have pd: "pd \<in> set (destinations f)" "i < length (destinations f)" using Suc.prems(2) by (simp_all add: pd_def)
  note eq = Suc.prems(3) [unfolded choose_destination.simps Let_def pd_def [symmetric], folded d_def, folded x_def]
  show ?case
  proof (cases "state (interfaces g ! dest_interface x) = INTERFACE_STATE_UP")
    case False
    obtain f1 g1 where r: "remove_destination f i g = (f1, g1)" by fastforce
    have "choose_destination h now i f1 p g1 = Some (r, f', p', g')" using eq False r by simp
    then show ?thesis using Suc.IH [OF working_remove(1) [OF w pd(2) S r]] working_remove(2) [OF w pd(2) S r] pd(2) by simp
  next
    case up: True
    define f1 where "f1 = degrade g pd f"
    have w1: "working S g0 f0 (f1, p, g)" unfolding f1_def by (rule working_degrade [OF w net pd(1)])
    have l1: "destinations f1 = destinations f" by (simp add: f1_def degrade_def split: option.splits)
    have IH1: "choose_destination h now i f1 p g = Some (r, f', p', g') \<Longrightarrow> ?thesis"
      using Suc.IH [OF w1] pd(2) l1 by simp
    note eq1 = eq [unfolded f1_def [symmetric]]
    show ?thesis
    proof (cases "transmit_time pd \<noteq> 0 \<and> transmit_time pd + resend_delay x > now")
      case True
      then show ?thesis using IH1 eq1 up by simp
    next
      case due: False
      show ?thesis
      proof (cases "out_buffer p = None")
        case False
        then have "choose_destination h now i f1 p g = Some (r, f', p', g') \<or> (r, f', p', g') = (Some i, f1, p, g)"
          using eq1 up due by (auto split: if_splits)
        then show ?thesis using IH1 w1 pd(2) l1 by auto
      next
        case None: True
        obtain ok p1 g1 where s: "start_packet h now d f1 p g = Some (ok, p1, g1)"
          and rest: "(if ok then Some (Some i, f1\<lparr>destinations := (destinations f1)[i := pd\<lparr>sent_sequence := sequence_number (dests g1 ! d)\<rparr>]\<rparr>, p1, g1)
              else choose_destination h now i f1 p1 g1) = Some (r, f', p', g')"
          using eq1 up due None by (auto elim!: run_bindE)
        have "working S g0 f0 (f1, p1, g1)" using working_start [OF w1 net S _ None s [unfolded d_def]] pd(1) l1 by simp
        note w2 = this working_update [OF this, of "pd\<lparr>sent_sequence := sequence_number (dests g1 ! d)\<rparr>" i]
        show ?thesis
        proof (cases ok)
          case True
          then show ?thesis using rest w2(2) l1 pd(2) by (auto simp: pd_def)
        next
          case False
          then show ?thesis using rest Suc.IH [OF w2(1)] l1 pd(2) by simp
        qed
      qed
    qed
  qed
qed (auto)

subsection \<open>One frame\<close>

text \<open>What is left when a frame has been worked on, with the references of the frame if it stays.\<close>

definition left_refs :: "overlay_frame option \<Rightarrow> nat \<Rightarrow> int" where
  "left_refs r d = (case r of None \<Rightarrow> 0 | Some f \<Rightarrow> frame_refs f d)"

definition worked :: "(nat \<Rightarrow> int) \<Rightarrow> mesh \<Rightarrow> overlay_frame \<Rightarrow> stuffed \<Rightarrow> bool" where
  "worked S g0 f0 s \<longleftrightarrow> (case s of (r, p, g) \<Rightarrow> same_net g0 g \<and> refs_ok (\<lambda>d. S d + packet_refs p d + left_refs r d) g
     \<and> good_packet g p \<and> (\<forall>f. r = Some f \<longrightarrow> good_frame g f \<and> core f = core f0))"

lemma skip_frame_worked:
  assumes w: "working S g0 f0 (f, p, g)" and "skip_frame now f p g = Some s"
  shows "worked S g0 f0 s"
proof -
  obtain g' where "overlay_calc_queue_time now f g = Some g'" and s: "s = (Some f, p, g')"
    using assms(2) unfolding skip_frame_def by (elim run_bindE) auto
  then have "working S g0 f0 (f, p, g')" using working_quiet [OF w quiet_calc_queue_time] by blast
  then show ?thesis by (simp add: s worked_def working_def left_refs_def)
qed

lemma drop_frame_worked:
  assumes "working S g0 f0 (f, p, g)" and "\<forall>d. 0 \<le> S d" and "drop_frame f p g = Some s"
  shows "worked S g0 f0 s"
proof -
  have s: "s = (None, p, overlay_queue_remove f g)" using assms(3) by (simp add: drop_frame_def)
  have w: "refs_ok (\<lambda>d. S d + packet_refs p d + frame_refs f d) g" "good_frame g f" "same_net g0 g" "good_packet g p"
    using assms(1) by (simp_all add: working_def)
  have "\<forall>d. 0 \<le> S d + packet_refs p d" using assms(2) by simp
  note r = queue_remove_refs [OF w(1) this w(2)]
  show ?thesis using r w(4) same_net_trans [OF w(3) r(2)] good_packet_same [OF r(2)] by (simp add: s worked_def left_refs_def)
qed

lemma append_payload_worked:
  assumes w: "working S g0 f0 (f, p, g)" and S: "\<forall>d. 0 \<le> S d" and i: "i < length (destinations f)" and "send_frame h now i f p g = Some s"
  shows "worked S g0 f0 s"
proof -
  define g1 where "g1 = (case send_hook f of None \<Rightarrow> g | Some s \<Rightarrow> neighbour_link_sent (out_seq p) s g)"
  define wr where "wr = (\<not> (frame_packet_version f < 1 \<or> resend f \<le> 0 \<or> out_seq p = - 1))"
  have w1: "working S g0 f0 (f, p, g1)"
    unfolding g1_def using w working_quiet [OF w quiet_link_sent] by (simp split: option.splits)
  obtain d b ret c b' g2 where d: "out_dest p = Some d" "out_buffer p = Some b"
    and a: "overlay_frame_append_payload h (out_context p) (encapsulation (dests g1 ! d)) f (pd_next_hop (destinations f ! i)) b wr g1 = Some (ret, c, b', g2)"
    and rest: "(let p = p\<lparr>out_context := c, out_buffer := Some b'\<rparr> in
      if ret \<noteq> 0 then skip_frame now (f\<lparr>delay_until := now + 5\<rparr>) p g2
      else (let pd = destinations f ! i;
                pd = pd\<lparr>sent_sequence := sequence_number (dests g2 ! pd_destination pd), transmit_time := now\<rparr>;
                f = f\<lparr>transmit_count := transmit_count f + 1, destinations := (destinations f)[i := pd]\<rparr> in
       if wr then skip_frame now f p g2
       else (let (f, g) = remove_destination f i g2
             in if destinations f = [] then drop_frame f p g else skip_frame now f p g))) = Some s"
    using assms(4) unfolding send_frame_def Let_def g1_def [symmetric] wr_def [symmetric] by (elim run_bindE) (auto simp: Let_def)
  define p2 where "p2 = p\<lparr>out_context := c, out_buffer := Some b'\<rparr>"
  have w2: "working S g0 f0 (f, p2, g2)"
    using working_quiet [OF w1 quiet_append_payload [OF a]] d by (simp add: working_def p2_def packet_refs_def good_packet_def)
  define pd where "pd = (destinations f ! i)\<lparr>sent_sequence := sequence_number (dests g2 ! pd_destination (destinations f ! i)), transmit_time := now\<rparr>"
  define f3 where "f3 = f\<lparr>transmit_count := transmit_count f + 1, destinations := (destinations f)[i := pd]\<rparr>"
  have w3: "working S g0 f0 (f3, p2, g2)"
    by (rule working_frame [OF w2]) (use w2 in \<open>simp_all add: f3_def pd_def map_update_same working_def good_frame_def\<close>)
  obtain f4 g4 where r: "remove_destination f3 i g2 = (f4, g4)" by fastforce
  have w4: "working S g0 f0 (f4, p2, g4)" by (rule working_remove(1) [OF w3 _ S r]) (use i in \<open>simp add: f3_def\<close>)
  note rest = rest [unfolded Let_def p2_def [symmetric] pd_def [symmetric] f3_def [symmetric] r prod.case]
  consider "skip_frame now (f\<lparr>delay_until := now + 5\<rparr>) p2 g2 = Some s" | "skip_frame now f3 p2 g2 = Some s"
    | "drop_frame f4 p2 g4 = Some s" | "skip_frame now f4 p2 g4 = Some s"
    using rest by (simp split: if_splits)
  then show ?thesis
  proof cases
    case 1
    have "working S g0 f0 (f\<lparr>delay_until := now + 5\<rparr>, p2, g2)" by (rule working_frame [OF w2]) (use w2 in \<open>simp_all add: working_def good_frame_def\<close>)
    then show ?thesis using skip_frame_worked 1 by blast
  qed (use skip_frame_worked [OF w3] skip_frame_worked [OF w4] drop_frame_worked [OF w4 S] in blast)+
qed

lemma number_frame_working:
  assumes w: "working S g0 f0 (f, p, g)" and "number_frame f g = (ok, f', g')"
  shows "working S g0 f0 (f', p, g')"
proof (cases "mdp_sequence f = - 1")
  case True
  define m where "m = (mdp_seq g + 1) AND 0xFFFF"
  have eq: "f' = f\<lparr>mdp_sequence := m\<rparr>" "g' = g\<lparr>mdp_seq := m\<rparr>" using assms(2) True by (simp_all add: number_frame_def Let_def m_def)
  have "quiet g g'" unfolding eq by (rule quiet_fields) simp_all
  then have "working S g0 f0 (f, p, g')" by (rule working_quiet [OF w])
  then show ?thesis by (rule working_frame) (use w in \<open>simp_all add: eq(1) working_def good_frame_def\<close>)
next
  case False
  then show ?thesis using w assms(2) by (simp add: number_frame_def)
qed

lemma net_ok_mono: "net_ok K g \<Longrightarrow> (\<And>d. K d \<le> L d) \<Longrightarrow> net_ok L g"
  unfolding net_ok_def sub_ok_def out_ok_def by (meson less_le_trans)

lemma add_stage_working:
  assumes w: "working S g f (f, p, g)" and net: "net_ok K g" and K: "\<forall>d. K d \<le> S d" and S: "\<forall>d. 0 \<le> S d"
    and a: "frame_destinations now f g = Some (f1, g1)"
  shows "working S g f (f1, p, g1)"
proof (cases "destinations f = [] \<and> frame_destination f \<noteq> None")
  case True
  obtain f2 where l: "link_add_destinations now f g = Some (f2, g1)"
    and f1: "f1 = f2\<lparr>destinations := map (\<lambda>pd. pd\<lparr>sent_sequence := - 1\<rparr>) (destinations f2)\<rparr>"
    using a unfolding frame_destinations_def if_P [OF True] by (elim run_bindE) auto
  let ?S = "\<lambda>d. S d + packet_refs p d"
  have net': "net_ok ?S g" by (rule net_ok_mono [OF net]) (use K in \<open>simp add: add_increasing2\<close>)
  have "adding ?S g f (f2, g1)" by (rule adding_destinations [OF _ net' l]) (use w in \<open>simp add: adding_def working_def\<close>)
  then have "working S g f (f2, p, g1)" using w good_packet_same [of g g1 p] by (simp add: adding_def working_def)
  then show ?thesis unfolding f1
    by (rule working_frame) (use \<open>adding ?S g f (f2, g1)\<close> in \<open>simp_all add: comp_def adding_def good_frame_def\<close>)
next
  case False
  then have "f1 = f" "g1 = g" using a unfolding frame_destinations_def by auto
  then show ?thesis using w by simp
qed

lemma try_frame_worked:
  assumes w: "working S g0 f0 (f, p, g)" and net: "net_ok K g0" and S: "\<forall>d. 0 \<le> S d" and "try_frame h now f p g = Some s"
  shows "worked S g0 f0 s"
proof -
  obtain i f3 p3 g3 where c: "choose_destination h now (length (destinations f)) f p g = Some (i, f3, p3, g3)"
    and eq: "(if destinations f3 = [] then drop_frame f3 p3 g3
      else case i of None \<Rightarrow> skip_frame now f3 p3 g3 | Some i \<Rightarrow> send_frame h now i f3 p3 g3) = Some s"
    using assms(4) unfolding try_frame_def by (auto elim!: run_bindE)
  note w3 = choose_destination_working [OF w net S order_refl c]
  show ?thesis using eq w3 drop_frame_worked [of S g0 f0 f3 p3 g3] skip_frame_worked [of S g0 f0 f3 p3 g3]
      append_payload_worked [of S g0 f0 f3 p3 g3] S
    by (auto split: if_splits option.splits)
qed

lemma stuff_frame_worked:
  assumes w: "working S g f (f, p, g)" and net: "net_ok K g" and K: "\<forall>d. K d \<le> S d" and S: "\<forall>d. 0 \<le> S d"
    and "stuff_frame h now latency f p g = Some s"
  shows "worked S g f s"
proof (cases "enqueued_at f + latency < now")
  case True
  then show ?thesis using assms(5) drop_frame_worked [OF w S] by (simp add: stuff_frame_def)
next
  case False
  obtain wait where "must_wait now f p g = Some wait" and eq: "(if wait then skip_frame now f p g
      else frame_destinations now f g \<bind> (\<lambda>(f, g). let (ok, f, g) = number_frame f g in if ok then try_frame h now f p g else drop_frame f p g)) = Some s"
    using assms(5) unfolding stuff_frame_def if_not_P [OF False] by (rule run_bindE)
  show ?thesis
  proof (cases wait)
    case True
    then show ?thesis using eq skip_frame_worked [OF w] by simp
  next
    case go: False
    obtain f1 g1 where a: "frame_destinations now f g = Some (f1, g1)"
      and eq1: "(let (ok, f, g) = number_frame f1 g1 in if ok then try_frame h now f p g else drop_frame f p g) = Some s"
      using eq unfolding if_not_P [OF go] by (elim run_bindE) auto
    have w1: "working S g f (f1, p, g1)" by (rule add_stage_working [OF w net K S a])
    obtain ok f2 g2 where n: "number_frame f1 g1 = (ok, f2, g2)" by (cases "number_frame f1 g1")
    show ?thesis
      using eq1 n drop_frame_worked [OF number_frame_working [OF w1 n] S] try_frame_worked [OF number_frame_working [OF w1 n] net S]
      by (simp split: if_splits)
  qed
qed

lemma stuff_frame_young:
  assumes "worked S g f s" and "stuff_frame h now latency f p g = Some s" and "fst s = Some f'"
  shows "now \<le> enqueued_at f' + latency"
proof -
  have "core f' = core f" "\<not> enqueued_at f + latency < now"
    using assms by (auto simp: worked_def stuff_frame_def drop_frame_def split: prod.splits if_splits)
  then show ?thesis using coreD [of f' f] by linarith
qed

section \<open>The queues\<close>

definition list_refs :: "overlay_frame list \<Rightarrow> nat \<Rightarrow> int" where
  "list_refs fs d = sum_list (map (\<lambda>f. frame_refs f d) fs)"

lemma list_refs_simps [simp]: "list_refs [] d = 0" "list_refs (f # fs) d = frame_refs f d + list_refs fs d"
    "list_refs (fs @ gs) d = list_refs fs d + list_refs gs d"
  by (simp_all add: list_refs_def)

lemma list_refs_nonneg [simp]: "0 \<le> list_refs fs d"
  by (induction fs) simp_all

text \<open>What filling a packet from a list of frames gives.\<close>

definition passed :: "(nat \<Rightarrow> int) \<Rightarrow> mesh \<Rightarrow> overlay_frame list \<Rightarrow> (overlay_frame \<Rightarrow> bool) \<Rightarrow> overlay_frame list \<times> outgoing_packet \<times> mesh \<Rightarrow> bool" where
  "passed S g0 fs0 Q s \<longleftrightarrow> (case s of (fs, p, g) \<Rightarrow> same_net g0 g \<and> refs_ok (\<lambda>d. S d + packet_refs p d + list_refs fs d) g
     \<and> good_packet g p \<and> (\<forall>f \<in> set fs. good_frame g f \<and> Q f) \<and> subseq (map core fs) (map core fs0))"

lemma stuff_frames_passed:
  assumes "refs_ok (\<lambda>d. S d + packet_refs p d + list_refs fs d) g" and "good_packet g p" and "\<forall>f \<in> set fs. good_frame g f"
    and "net_ok K g" and "\<forall>d. K d \<le> S d" and "\<forall>d. 0 \<le> S d" and "stuff_frames h now latency fs p g = Some s"
  shows "passed S g fs (\<lambda>f. now \<le> enqueued_at f + latency) s"
  using assms
proof (induction fs arbitrary: S p g s)
  case (Cons f fs)
  obtain r p1 g1 where st: "stuff_frame h now latency f p g = Some (r, p1, g1)"
    and s: "stuff_frames h now latency fs p1 g1 \<bind> (\<lambda>(fs, p, g). Some (case r of None \<Rightarrow> fs | Some f \<Rightarrow> f # fs, p, g)) = Some s"
    using Cons.prems(7) by (auto elim!: run_bindE)
  let ?S = "\<lambda>d. S d + list_refs fs d"
  have "working ?S g f (f, p, g)" using Cons.prems(1-3) by (simp add: working_def algebra_simps)
  moreover have "\<forall>d. K d \<le> ?S d" using Cons.prems(5) by (simp add: add_increasing2)
  moreover have "\<forall>d. 0 \<le> ?S d" using Cons.prems(6) by simp
  ultimately have w: "worked ?S g f (r, p1, g1)" using stuff_frame_worked [of ?S g f p K h now latency "(r, p1, g1)"] Cons.prems(4) st by simp
  note ex = stuff_frame_young [OF w st]
  let ?S1 = "\<lambda>d. S d + left_refs r d"
  have same: "same_net g g1" using w by (simp add: worked_def)
  obtain fs2 p2 g2 where r2: "stuff_frames h now latency fs p1 g1 = Some (fs2, p2, g2)" and s2: "s = (case r of None \<Rightarrow> fs2 | Some f \<Rightarrow> f # fs2, p2, g2)"
    using s by (auto elim!: run_bindE)
  have "passed ?S1 g1 fs (\<lambda>f. now \<le> enqueued_at f + latency) (fs2, p2, g2)"
  proof (rule Cons.IH [OF _ _ _ _ _ _ r2])
    show "refs_ok (\<lambda>d. ?S1 d + packet_refs p1 d + list_refs fs d) g1" using w by (simp add: worked_def algebra_simps)
    show "good_packet g1 p1" using w by (simp add: worked_def)
    show "\<forall>f \<in> set fs. good_frame g1 f" using Cons.prems(3) good_frame_same [OF same] by simp
    show "net_ok K g1" by (rule net_ok_same [OF same Cons.prems(4)])
    show "\<forall>d. K d \<le> ?S1 d" using Cons.prems(5) by (auto simp: left_refs_def add_increasing2 split: option.splits)
    show "\<forall>d. 0 \<le> ?S1 d" using Cons.prems(6) by (auto simp: left_refs_def split: option.splits)
  qed
  then have p: "same_net g1 g2" "refs_ok (\<lambda>d. ?S1 d + packet_refs p2 d + list_refs fs2 d) g2" "good_packet g2 p2"
      "\<forall>f \<in> set fs2. good_frame g2 f \<and> now \<le> enqueued_at f + latency" "subseq (map core fs2) (map core fs)"
    by (simp_all add: passed_def)
  have "\<forall>f'. r = Some f' \<longrightarrow> good_frame g2 f' \<and> core f' = core f" using w good_frame_same [OF p(1)] by (simp add: worked_def)
  then show ?case using p ex same_net_trans [OF same p(1)]
    by (cases r) (simp_all add: passed_def s2 left_refs_def algebra_simps list_emb_Cons)
qed (auto simp: passed_def)

definition queued :: "mesh \<Rightarrow> nat \<Rightarrow> int" where
  "queued g d = (\<Sum>q < OQ_MAX. list_refs (frames (overlay_tx g ! q)) d)"

lemma queued_nonneg [simp]: "0 \<le> queued g d"
  by (simp add: queued_def sum_nonneg)

lemma queued_set_frames:
  assumes "q < OQ_MAX" and "length (overlay_tx g) = OQ_MAX"
  shows "queued (set_frames q fs g) d = queued g d - list_refs (frames (overlay_tx g ! q)) d + list_refs fs d"
proof -
  have "queued (set_frames q fs g) d = (\<Sum>i < OQ_MAX. if i = q then list_refs fs d else list_refs (frames (overlay_tx g ! i)) d)"
    unfolding queued_def using assms by (intro sum.cong) (auto simp: set_frames_def nth_list_update)
  also have "\<dots> = list_refs fs d + (\<Sum>i \<in> {..<OQ_MAX} - {q}. list_refs (frames (overlay_tx g ! i)) d)"
    using assms(1) by (simp add: sum.remove [of _ q])
  also have "(\<Sum>i \<in> {..<OQ_MAX} - {q}. list_refs (frames (overlay_tx g ! i)) d) = queued g d - list_refs (frames (overlay_tx g ! q)) d"
    using assms(1) by (simp add: queued_def sum.remove [of _ q])
  finally show ?thesis by simp
qed

lemma on_overlay_tx [simp]: "net_ok K (g\<lparr>overlay_tx := t\<rparr>) = net_ok K g" "good_frame (g\<lparr>overlay_tx := t\<rparr>) = good_frame g"
    "good_packet (g\<lparr>overlay_tx := t\<rparr>) = good_packet g" "refs_ok R (g\<lparr>overlay_tx := t\<rparr>) = refs_ok R g"
  by (simp_all add: net_ok_def good_frame_def good_packet_def refs_ok_def fun_eq_iff)

lemma on_set_frames [simp]: "net_ok K (set_frames q fs g) = net_ok K g" "good_frame (set_frames q fs g) = good_frame g"
    "good_packet (set_frames q fs g) = good_packet g" "refs_ok R (set_frames q fs g) = refs_ok R g"
  by (simp_all add: set_frames_def)

text \<open>A frame as \<open>overlay_payload_enqueue\<close> accepts it.\<close>

definition sendable :: "overlay_frame \<Rightarrow> bool" where
  "sendable f \<longleftrightarrow> (\<exists>b. payload f = Some b \<and> \<not> ob_overrun b \<and> ob_position b < MDP_MTU)"

definition queue_fine :: "mesh \<Rightarrow> nat \<Rightarrow> overlay_txqueue \<Rightarrow> bool" where
  "queue_fine g q x \<longleftrightarrow> int (length (frames x)) \<le> maxLength x
     \<and> (\<forall>f \<in> set (frames x). good_frame g f \<and> frame_queue f = q \<and> sendable f)"

text \<open>
  The invariant of the queues: \<open>K\<close> are the references of the routing tables, \<open>p\<close> is the packet under way.
\<close>

definition tx_ok :: "(nat \<Rightarrow> int) \<Rightarrow> outgoing_packet \<Rightarrow> mesh \<Rightarrow> bool" where
  "tx_ok K p g \<longleftrightarrow> net_ok K g \<and> (\<forall>d. 0 \<le> K d) \<and> length (overlay_tx g) = OQ_MAX \<and> (\<forall>q < OQ_MAX. queue_fine g q (overlay_tx g ! q))
     \<and> good_packet g p \<and> refs_ok (\<lambda>d. K d + packet_refs p d + queued g d) g"

lemma queue_fine_set_frames: "queue_fine (set_frames i fs g) q x = queue_fine g q x"
  by (simp add: queue_fine_def)

lemma queue_fine_same: "same_net g g' \<Longrightarrow> queue_fine g' q x = queue_fine g q x"
  by (simp add: queue_fine_def good_frame_same)

lemma subseq_coreD:
  assumes "subseq (map core fs') (map core fs)" and "f' \<in> set fs'"
  shows "\<exists>f \<in> set fs. core f' = core f"
  using assms list_emb_set [of "(=)" "map core fs'" "map core fs" "core f'"] by auto

lemma queue_fine_pass:
  assumes "queue_fine g q x" and "\<forall>f \<in> set fs. good_frame g f" and "subseq (map core fs) (map core (frames x))"
  shows "queue_fine g q (x\<lparr>frames := fs\<rparr>)"
proof -
  have "length fs \<le> length (frames x)" using list_emb_length [OF assms(3)] by simp
  moreover have "frame_queue f = q \<and> sendable f" if f: "f \<in> set fs" for f
  proof -
    obtain f0 where "f0 \<in> set (frames x)" "core f = core f0" using subseq_coreD [OF assms(3) f] by blast
    then show ?thesis using assms(1) coreD [of f f0] by (simp add: queue_fine_def sendable_def)
  qed
  ultimately show ?thesis using assms(1,2) by (simp add: queue_fine_def)
qed

lemma tx_ok_set_frames:
  assumes "tx_ok K p0 g0" and q: "q < OQ_MAX" and "same_net g0 g" and "\<forall>f \<in> set fs. good_frame g f"
    and "subseq (map core fs) (map core (frames (overlay_tx g0 ! q)))" and "good_packet g p"
    and "refs_ok (\<lambda>d. K d + (queued g0 d - list_refs (frames (overlay_tx g0 ! q)) d) + packet_refs p d + list_refs fs d) g"
  shows "tx_ok K p (set_frames q fs g)"
proof -
  have tx: "overlay_tx g = overlay_tx g0" using same_netD(4) [OF assms(3)] .
  have l: "length (overlay_tx g) = OQ_MAX" using assms(1) tx by (simp add: tx_ok_def)
  have fine: "queue_fine g i (overlay_tx g ! i)" if "i < OQ_MAX" for i
    using assms(1) that queue_fine_same [OF assms(3)] by (simp add: tx_ok_def tx)
  have "queue_fine (set_frames q fs g) i (overlay_tx (set_frames q fs g) ! i)" if "i < OQ_MAX" for i
  proof -
    have "queue_fine g i (overlay_tx (set_frames q fs g) ! i)"
      using fine [OF that] queue_fine_pass [OF fine [OF q] assms(4)] assms(5) l q by (auto simp: set_frames_def tx nth_list_update)
    then show ?thesis unfolding queue_fine_set_frames .
  qed
  moreover have "refs_ok (\<lambda>d. K d + packet_refs p d + queued (set_frames q fs g) d) g"
    by (rule refs_ok_cong [OF assms(7)]) (simp add: queued_set_frames [OF q l] tx queued_def [of g] queued_def [of g0])
  moreover have "length (overlay_tx (set_frames q fs g)) = OQ_MAX" using l by (simp add: set_frames_def)
  ultimately show ?thesis
    using assms(1,6) net_ok_same [OF assms(3)] by (simp add: tx_ok_def)
qed

lemma list_refs_queued: "q < OQ_MAX \<Longrightarrow> list_refs (frames (overlay_tx g ! q)) d \<le> queued g d"
  unfolding queued_def by (rule member_le_sum) auto

lemma tx_ok_stuff:
  assumes ok: "tx_ok K p g" and q: "q < OQ_MAX" and "overlay_stuff_packet h now q p g = Some (p', g')"
  shows "tx_ok K p' g'" and "subseq (map core (frames (overlay_tx g' ! q))) (map core (frames (overlay_tx g ! q)))"
    and "\<forall>f \<in> set (frames (overlay_tx g' ! q)). now \<le> enqueued_at f + latencyTarget (overlay_tx g ! q)"
    and "\<forall>i < OQ_MAX. i \<noteq> q \<longrightarrow> overlay_tx g' ! i = overlay_tx g ! i"
proof -
  let ?x = "overlay_tx g ! q"
  let ?S = "\<lambda>d. K d + (queued g d - list_refs (frames ?x) d)"
  obtain fs g1 where st: "stuff_frames h now (latencyTarget ?x) (frames ?x) p g = Some (fs, p', g1)" and g': "g' = set_frames q fs g1"
    using assms(3) unfolding overlay_stuff_packet_def by (elim run_bindE) auto
  have "K d \<le> ?S d" "0 \<le> ?S d" for d
    using ok list_refs_queued [OF q, of g d] by (simp_all add: tx_ok_def add_nonneg_nonneg)
  then have "passed ?S g (frames ?x) (\<lambda>f. now \<le> enqueued_at f + latencyTarget ?x) (fs, p', g1)"
    using ok q by (intro stuff_frames_passed [OF _ _ _ _ _ _ st, where K = K]) (simp_all add: tx_ok_def queue_fine_def algebra_simps)
  then have p: "same_net g g1" "refs_ok (\<lambda>d. ?S d + packet_refs p' d + list_refs fs d) g1" "good_packet g1 p'"
      "\<forall>f \<in> set fs. good_frame g1 f \<and> now \<le> enqueued_at f + latencyTarget ?x" "subseq (map core fs) (map core (frames ?x))"
    by (simp_all add: passed_def)
  show "tx_ok K p' g'" unfolding g' by (rule tx_ok_set_frames [OF ok q p(1) _ p(5,3)]) (use p(2,4) in simp_all)
  have "overlay_tx g1 = overlay_tx g" "length (overlay_tx g) = OQ_MAX" using same_netD(4) [OF p(1)] ok by (simp_all add: tx_ok_def)
  then show "subseq (map core (frames (overlay_tx g' ! q))) (map core (frames (overlay_tx g ! q)))"
    "\<forall>f \<in> set (frames (overlay_tx g' ! q)). now \<le> enqueued_at f + latencyTarget (overlay_tx g ! q)"
    "\<forall>i < OQ_MAX. i \<noteq> q \<longrightarrow> overlay_tx g' ! i = overlay_tx g ! i"
    using p q by (simp_all add: g' set_frames_def)
qed

section \<open>Acknowledgements\<close>

text \<open>The destination that an acknowledgement from \<open>nb\<close> for \<open>d\<close> speaks of, and whether it says that the frame arrived there.\<close>

definition ack_says :: "nat \<Rightarrow> nat \<Rightarrow> u32 \<Rightarrow> int \<Rightarrow> overlay_frame \<Rightarrow> bool" where
  "ack_says nb d acks ack_seq f \<longleftrightarrow> (case last_sent_to d (length (destinations f)) (destinations f) of
     None \<Rightarrow> False
   | Some j \<Rightarrow> (let pd = destinations f ! j in sent_sequence pd \<ge> 0 \<and> (pd_next_hop pd = Some nb \<or> frame_destination f = None)
        \<and> is_acked acks ((ack_seq - sent_sequence pd) AND 0xFF)))"

definition ack_ends :: "nat \<Rightarrow> nat \<Rightarrow> u32 \<Rightarrow> int \<Rightarrow> overlay_frame \<Rightarrow> bool" where
  "ack_ends nb d acks ack_seq f \<longleftrightarrow> ack_says nb d acks ack_seq f \<and> (frame_destination f \<noteq> None \<or> length (destinations f) \<le> 1)"

lemma last_sent_to_less: "last_sent_to d n pds = Some j \<Longrightarrow> j < n"
  by (induction n) (auto split: if_splits)

lemma ack_frame_worked:
  assumes w: "working S g f (f, p, g)" and S: "\<forall>d. 0 \<le> S d" and a: "ack_frame now nb d acks ack_seq f r g = Some (x, r', g')"
  shows "worked S g f (x, p, g')" and "x = None \<longleftrightarrow> ack_ends nb d acks ack_seq f"
proof -
  have stay: "worked S g f (Some f, p, g)" using w by (simp add: worked_def working_def left_refs_def)
  have "worked S g f (x, p, g') \<and> (x = None \<longleftrightarrow> ack_ends nb d acks ack_seq f)"
  proof (cases "last_sent_to d (length (destinations f)) (destinations f)")
    case None
    then show ?thesis using a stay by (auto simp: ack_frame_def ack_ends_def ack_says_def)
  next
    case (Some j)
    define pd where "pd = destinations f ! j"
    define delta where "delta = (ack_seq - sent_sequence pd) AND 0xFF"
    note a = a [unfolded ack_frame_def Some option.case Let_def pd_def [symmetric] delta_def [symmetric]]
    have says: "ack_says nb d acks ack_seq f \<longleftrightarrow> sent_sequence pd \<ge> 0 \<and> (pd_next_hop pd = Some nb \<or> frame_destination f = None) \<and> is_acked acks delta"
      by (simp add: ack_says_def Some Let_def pd_def delta_def)
    show ?thesis
    proof (cases "ack_says nb d acks ack_seq f")
      case True
      show ?thesis
      proof (cases "frame_destination f \<noteq> None \<or> length (destinations f) \<le> 1")
        case last: True
        have "x = None" "g' = overlay_queue_remove f g" using a True last unfolding says by auto
        then show ?thesis using drop_frame_worked [OF w S, of "(None, p, g')"] True last by (simp add: drop_frame_def ack_ends_def)
      next
        case more: False
        obtain f1 g1 where r: "remove_destination f j g = (f1, g1)" by fastforce
        have "x = Some f1" "g' = g1" using a True more r unfolding says by (auto split: if_splits)
        moreover have "working S g f (f1, p, g1)" by (rule working_remove(1) [OF w last_sent_to_less [OF Some] S r])
        ultimately show ?thesis using more by (simp add: worked_def working_def left_refs_def ack_ends_def)
      qed
    next
      case False
      then have no: "\<not> ack_ends nb d acks ack_seq f" by (simp add: ack_ends_def)
      show ?thesis
      proof (cases "x = Some f \<and> g' = g")
        case False
        then have "overlay_calc_queue_time now (f\<lparr>delay_until := now\<rparr>) g = Some g'" and x: "x = Some (f\<lparr>delay_until := now\<rparr>)"
          using a \<open>\<not> ack_says nb d acks ack_seq f\<close> unfolding says by (auto elim!: run_bindE split: if_splits)
        then have "skip_frame now (f\<lparr>delay_until := now\<rparr>) p g = Some (x, p, g')" by (simp add: skip_frame_def)
        moreover have "working S g f (f\<lparr>delay_until := now\<rparr>, p, g)"
          by (rule working_frame [OF w]) (use w in \<open>simp_all add: working_def good_frame_def\<close>)
        ultimately show ?thesis using skip_frame_worked no x by blast
      qed (use stay no in simp)
    qed
  qed
  then show "worked S g f (x, p, g')" and "x = None \<longleftrightarrow> ack_ends nb d acks ack_seq f" by blast+
qed

lemma ack_frames_passed:
  assumes "refs_ok (\<lambda>d. S d + packet_refs p d + list_refs fs d) g" and "good_packet g p" and "\<forall>f \<in> set fs. good_frame g f"
    and "\<forall>d. 0 \<le> S d" and "ack_frames now nb d acks ack_seq fs r g = Some (fs', r', g')"
  shows "passed S g fs (\<lambda>f. True) (fs', p, g')" and "map core fs' = map core (filter (\<lambda>f. \<not> ack_ends nb d acks ack_seq f) fs)"
proof -
  have "passed S g fs (\<lambda>f. True) (fs', p, g') \<and> map core fs' = map core (filter (\<lambda>f. \<not> ack_ends nb d acks ack_seq f) fs)"
    using assms
  proof (induction fs arbitrary: S r g fs')
    case (Cons f fs)
    obtain x r1 g1 fs2 where a: "ack_frame now nb d acks ack_seq f r g = Some (x, r1, g1)"
      and rest: "ack_frames now nb d acks ack_seq fs r1 g1 = Some (fs2, r', g')" and fs': "fs' = (case x of None \<Rightarrow> fs2 | Some f \<Rightarrow> f # fs2)"
      using Cons.prems(5) by (auto elim!: run_bindE)
    let ?S = "\<lambda>d. S d + list_refs fs d"
    have "working ?S g f (f, p, g)" "\<forall>d. 0 \<le> ?S d" using Cons.prems(1-4) by (simp_all add: working_def algebra_simps)
    note w = ack_frame_worked [OF this a]
    have same: "same_net g g1" using w(1) by (simp add: worked_def)
    let ?S1 = "\<lambda>d. S d + left_refs x d"
    have ih: "passed ?S1 g1 fs (\<lambda>f. True) (fs2, p, g') \<and> map core fs2 = map core (filter (\<lambda>f. \<not> ack_ends nb d acks ack_seq f) fs)"
    proof (rule Cons.IH [OF _ _ _ _ rest])
      show "refs_ok (\<lambda>d. ?S1 d + packet_refs p d + list_refs fs d) g1" using w(1) by (simp add: worked_def algebra_simps)
      show "good_packet g1 p" using w(1) by (simp add: worked_def)
      show "\<forall>f \<in> set fs. good_frame g1 f" using Cons.prems(3) good_frame_same [OF same] by simp
      show "\<forall>d. 0 \<le> ?S1 d" using Cons.prems(4) by (auto simp: left_refs_def split: option.splits)
    qed
    then have p: "same_net g1 g'" "refs_ok (\<lambda>d. ?S1 d + packet_refs p d + list_refs fs2 d) g'" "good_packet g' p"
        "\<forall>f \<in> set fs2. good_frame g' f" "subseq (map core fs2) (map core fs)"
      unfolding passed_def prod.case by blast+
    have "\<forall>f'. x = Some f' \<longrightarrow> good_frame g' f' \<and> core f' = core f" using w(1) good_frame_same [OF p(1)] by (simp add: worked_def)
    then show ?case using p ih w(2) same_net_trans [OF same p(1)]
      by (cases x) (simp_all add: passed_def fs' left_refs_def algebra_simps list_emb_Cons)
  qed (auto simp: passed_def)
  then show "passed S g fs (\<lambda>f. True) (fs', p, g')" and "map core fs' = map core (filter (\<lambda>f. \<not> ack_ends nb d acks ack_seq f) fs)" by blast+
qed

lemma ack_queues_ok:
  assumes "tx_ok K p g" and "set qs \<subseteq> {..<OQ_MAX}" and "distinct qs" and "ack_queues now nb d acks ack_seq qs r g = Some (r', g')"
  shows "tx_ok K p g' \<and> (\<forall>q < OQ_MAX. map core (frames (overlay_tx g' ! q)) =
     map core (filter (\<lambda>f. q \<in> set qs \<longrightarrow> \<not> ack_ends nb d acks ack_seq f) (frames (overlay_tx g ! q))))"
  using assms
proof (induction qs arbitrary: r g)
  case (Cons q qs)
  let ?x = "overlay_tx g ! q"
  let ?S = "\<lambda>d. K d + (queued g d - list_refs (frames ?x) d)"
  obtain fs r1 g1 where a: "ack_frames now nb d acks ack_seq (frames ?x) r g = Some (fs, r1, g1)"
    and rest: "ack_queues now nb d acks ack_seq qs r1 (set_frames q fs g1) = Some (r', g')"
    using Cons.prems(4) by (auto elim!: run_bindE)
  have q: "q < OQ_MAX" and l: "length (overlay_tx g) = OQ_MAX" using Cons.prems(1,2) by (simp_all add: tx_ok_def)
  have "0 \<le> ?S d" for d using Cons.prems(1) list_refs_queued [OF q, of g d] by (simp add: tx_ok_def add_nonneg_nonneg)
  then have af: "passed ?S g (frames ?x) (\<lambda>f. True) (fs, p, g1)" "map core fs = map core (filter (\<lambda>f. \<not> ack_ends nb d acks ack_seq f) (frames ?x))"
    using Cons.prems(1) q ack_frames_passed [of ?S p "frames ?x" g now nb d acks ack_seq r fs r1 g1] a
    by (simp_all add: tx_ok_def queue_fine_def algebra_simps)
  then have p: "same_net g g1" "refs_ok (\<lambda>d. ?S d + packet_refs p d + list_refs fs d) g1" "good_packet g1 p"
      "\<forall>f \<in> set fs. good_frame g1 f" "subseq (map core fs) (map core (frames ?x))"
    by (simp_all add: passed_def)
  have "tx_ok K p (set_frames q fs g1)" by (rule tx_ok_set_frames [OF Cons.prems(1) q p(1,4,5,3,2)])
  from Cons.IH [OF this _ _ rest] have ih: "tx_ok K p g'" "\<forall>i < OQ_MAX. map core (frames (overlay_tx g' ! i)) =
     map core (filter (\<lambda>f. i \<in> set qs \<longrightarrow> \<not> ack_ends nb d acks ack_seq f) (frames (overlay_tx (set_frames q fs g1) ! i)))"
    using Cons.prems(2,3) by simp_all
  have tx: "overlay_tx g1 = overlay_tx g" using same_netD(4) [OF p(1)] .
  have "map core (frames (overlay_tx g' ! i)) = map core (filter (\<lambda>f. i \<in> set (q # qs) \<longrightarrow> \<not> ack_ends nb d acks ack_seq f) (frames (overlay_tx g ! i)))"
    if "i < OQ_MAX" for i
  proof (cases "i = q")
    case True
    then have "frames (overlay_tx (set_frames q fs g1) ! i) = fs" "i \<notin> set qs" using q l tx Cons.prems(3) by (simp_all add: set_frames_def)
    then show ?thesis using ih(2) that af(2) True by simp
  next
    case False
    then show ?thesis using ih(2) that by (simp add: set_frames_def tx)
  qed
  then show ?case using ih(1) by blast
qed simp

lemma tx_ok_quiet: "tx_ok K p g \<Longrightarrow> quiet g g' \<Longrightarrow> tx_ok K p g'"
  unfolding quiet_def
  using same_netD(4) [of g g'] net_ok_same [of g g' K] queue_fine_same [of g g'] good_packet_same [of g g' p]
    refs_ok_counts [of g' g] by (simp add: tx_ok_def queued_def)

lemma tx_ok_ack:
  assumes "tx_ok K p g" and "overlay_queue_ack now nb d acks ack_seq g = Some g'"
  shows "tx_ok K p g'" and "\<forall>q < OQ_MAX. map core (frames (overlay_tx g' ! q)) =
     map core (filter (\<lambda>f. \<not> ack_ends nb d acks ack_seq f) (frames (overlay_tx g ! q)))"
proof -
  obtain r g1 where a: "ack_queues now nb d acks ack_seq [0..<OQ_MAX] 0 g = Some (r, g1)" and g': "g' = set_dest d (update_rtt r (dests g1 ! d)) g1"
    using assms(2) unfolding overlay_queue_ack_def by (elim run_bindE) auto
  have q: "quiet g1 g'" unfolding g' by (rule quiet_set_dest) (simp_all add: update_rtt_def Let_def)
  from ack_queues_ok [OF assms(1) _ _ a] have "tx_ok K p g1" and eq: "\<forall>q < OQ_MAX. map core (frames (overlay_tx g1 ! q)) =
     map core (filter (\<lambda>f. q \<in> set [0..<OQ_MAX] \<longrightarrow> \<not> ack_ends nb d acks ack_seq f) (frames (overlay_tx g ! q)))"
    by (simp_all add: atLeast0LessThan)
  then show "tx_ok K p g'" using tx_ok_quiet q by blast
  show "\<forall>q < OQ_MAX. map core (frames (overlay_tx g' ! q)) = map core (filter (\<lambda>f. \<not> ack_ends nb d acks ack_seq f) (frames (overlay_tx g ! q)))"
    using eq by (simp add: g' set_dest_def)
qed

section \<open>Enqueuing\<close>

lemma push_frame_set: "push_frame f g = set_frames (frame_queue f) (frames (overlay_tx g ! frame_queue f) @ [f]) g"
  by (simp add: push_frame_def set_frames_def Let_def)

lemma quiet_olsr_send:
  assumes "olsr_send h f g = Some (x, g')"
  shows "quiet g g'"
proof -
  have "g' = g \<or> (\<exists>s1 s2 b. append_address h (my_subscriber g) (zero_context, b, g) = Some s1
      \<and> append_address h (source f) s1 = Some s2 \<and> g' = snd (snd s2))"
    using assms unfolding olsr_send_def by (auto split: if_splits option.splits elim!: run_bindE) blast
  then show ?thesis
  proof (elim disjE exE conjE)
    fix s1 s2 b assume a: "append_address h (my_subscriber g) (zero_context, b, g) = Some s1" "append_address h (source f) s1 = Some s2" "g' = snd (snd s2)"
    obtain c1 b1 g1 c2 b2 where s: "s1 = (c1, b1, g1)" "s2 = (c2, b2, g')" using a(3) by (cases s1; cases s2) auto
    show ?thesis using quiet_trans [OF quiet_append_address [OF a(1) [unfolded s]] quiet_append_address [OF a(2) [unfolded s]]] .
  qed simp
qed

lemma tx_ok_push:
  assumes "net_ok K g" and "\<forall>d. 0 \<le> K d" and l: "length (overlay_tx g) = OQ_MAX" and "\<forall>q < OQ_MAX. queue_fine g q (overlay_tx g ! q)"
    and "good_packet g p" and refs: "refs_ok (\<lambda>d. K d + packet_refs p d + queued g d + frame_refs f d) g"
    and f: "good_frame g f" "sendable f" "frame_queue f < OQ_MAX"
    and room: "int (length (frames (overlay_tx g ! frame_queue f))) < maxLength (overlay_tx g ! frame_queue f)"
  shows "tx_ok K p (push_frame f g)"
proof -
  let ?q = "frame_queue f" let ?fs = "frames (overlay_tx g ! ?q) @ [f]"
  have "refs_ok (\<lambda>d. K d + packet_refs p d + queued (set_frames ?q ?fs g) d) g"
    by (rule refs_ok_cong [OF refs]) (simp add: queued_set_frames [OF f(3) l])
  moreover have "queue_fine (set_frames ?q ?fs g) q (overlay_tx (set_frames ?q ?fs g) ! q)" if "q < OQ_MAX" for q
  proof -
    have "queue_fine g q (overlay_tx (set_frames ?q ?fs g) ! q)"
      using assms(4) that f room l by (auto simp: queue_fine_def set_frames_def nth_list_update)
    then show ?thesis unfolding queue_fine_set_frames .
  qed
  ultimately show ?thesis using assms(1-3,5) unfolding push_frame_set by (simp add: tx_ok_def) (simp add: set_frames_def)
qed

text \<open>A frame that may be given to \<open>overlay_payload_enqueue\<close>, with references for the destinations it already has.\<close>

definition new_frame_ok :: "mesh \<Rightarrow> overlay_frame \<Rightarrow> bool" where
  "new_frame_ok g f \<longleftrightarrow> frame_packet_version f \<le> 1 \<and> good_frame g (f\<lparr>frame_packet_version := 1\<rparr>)"

lemma enqueue_cases:
  assumes "overlay_payload_enqueue h now f g = Some (ret, g')"
  obtains "ret = - 1" "g' = g"
  | f2 g2 where "frame_queue f < OQ_MAX" and "sendable f"
      and "int (length (frames (overlay_tx g ! frame_queue f))) < maxLength (overlay_tx g ! frame_queue f)"
      and "broadcast_destinations h now (if frame_packet_version f \<le> 0 then f\<lparr>frame_packet_version := 1\<rparr> else f) g = Some (f2, g2)"
      and "ret = 0" and "destinations f2 = [] \<and> frame_destination f2 = None \<and> g' = g2 \<or> append_frame now (destinations f = []) f2 g2 = Some g'"
proof -
  obtain pay where q: "frame_queue f < OQ_MAX" "payload f = Some pay"
    using assms by (auto simp: overlay_payload_enqueue_def elim!: run_bindE)
  show thesis
  proof (cases "ob_overrun pay \<or> maxLength (overlay_tx g ! frame_queue f) \<le> int (length (frames (overlay_tx g ! frame_queue f)))")
    case True
    then show thesis using assms q that(1) by (auto simp: overlay_payload_enqueue_def split: if_splits elim!: run_bindE)
  next
    case False
    define f1 where "f1 = (if frame_packet_version f \<le> 0 then f\<lparr>frame_packet_version := 1\<rparr> else f)"
    have d: "destinations f1 = destinations f" by (simp add: f1_def)
    have pos: "ob_position pay < MDP_MTU" using assms q False by (auto simp: overlay_payload_enqueue_def elim!: run_bindE)
    then have "broadcast_destinations h now f1 g \<bind> (\<lambda>(p', g). if destinations p' = [] \<and> frame_destination p' = None then Some (0, g)
        else do { g \<leftarrow> append_frame now (destinations f = []) p' g; Some (0, g) }) = Some (ret, g')"
      using assms q False unfolding overlay_payload_enqueue_def Let_def f1_def [symmetric] d by simp
    then obtain s where b: "broadcast_destinations h now f1 g = Some s"
      and r: "(case s of (p', g) \<Rightarrow> if destinations p' = [] \<and> frame_destination p' = None then Some (0, g)
        else do { g \<leftarrow> append_frame now (destinations f = []) p' g; Some (0, g) }) = Some (ret, g')"
      by (rule run_bindE)
    obtain f2 g2 where s: "s = (f2, g2)" by fastforce
    have "ret = 0" "destinations f2 = [] \<and> frame_destination f2 = None \<and> g' = g2 \<or> append_frame now (destinations f = []) f2 g2 = Some g'"
      using r unfolding s prod.case by (auto split: if_splits elim!: run_bindE)
    then show thesis using that(2) q False pos b [unfolded s f1_def] by (simp add: sendable_def)
  qed
qed

lemma broadcast_destinations_adding:
  assumes a: "adding S g f (f, g)" and net: "net_ok S g" and "broadcast_destinations h now f g = Some (f', g')"
  shows "same_net g g' \<and> refs_ok (\<lambda>d. S d + frame_refs f' d) g' \<and> good_frame g' f' \<and> core f' = core f"
proof (cases "destinations f = [] \<and> frame_destination f = None")
  case True
  obtain x g1 where o: "olsr_send h f g = Some (x, g1)" and l: "link_add_destinations now f g1 = Some (f', g')"
    using assms(3) unfolding broadcast_destinations_def if_P [OF True] by (elim run_bindE) auto
  note q = quiet_olsr_send [OF o]
  have s1: "same_net g g1" using q by (simp add: quiet_def)
  have "adding S g1 f (f, g1)"
    using a q refs_ok_counts [of g1 g] good_frame_same [OF s1] by (simp add: adding_def quiet_def)
  from adding_destinations [OF this net_ok_same [OF s1 net] l] show ?thesis using same_net_trans [OF s1] by (simp add: adding_def)
qed (use assms in \<open>auto simp: broadcast_destinations_def adding_def split: if_splits\<close>)

lemma append_frame_ok:
  assumes "net_ok K g" and "\<forall>d. 0 \<le> K d" and l: "length (overlay_tx g) = OQ_MAX" and "\<forall>q < OQ_MAX. queue_fine g q (overlay_tx g ! q)"
    and "good_packet g p" and refs: "refs_ok (\<lambda>d. K d + packet_refs p d + queued g d + frame_refs f d) g"
    and f: "good_frame g f" "sendable f" "frame_queue f < OQ_MAX"
    and room: "int (length (frames (overlay_tx g ! frame_queue f))) < maxLength (overlay_tx g ! frame_queue f)"
    and "append_frame now fresh f g = Some g'"
  shows "tx_ok K p g'"
proof -
  define f0 where "f0 = (if fresh \<and> resend f = 0 then f\<lparr>resend := 1\<rparr> else f)"
  define f1 where "f1 = f0\<lparr>destinations := map (\<lambda>pd. pd\<lparr>sent_sequence := - 1\<rparr>) (destinations f0), enqueued_at := now, mdp_sequence := - 1\<rparr>"
  define g1 where "g1 = (if frame_queue f1 = OQ_ISOCHRONOUS_VOICE then (push_frame f1 g)\<lparr>rhizome_voice_timeout := now + 1000\<rparr> else push_frame f1 g)"
  have c: "overlay_calc_queue_time now f1 g1 = Some g'"
    using assms(11) unfolding append_frame_def Let_def f0_def [symmetric] f1_def [symmetric] g1_def [symmetric] .
  have f1: "frame_refs f1 = frame_refs f" "good_frame g f1" "sendable f1" "frame_queue f1 = frame_queue f"
    using f by (simp_all add: f1_def f0_def frame_refs_def fun_eq_iff comp_def good_frame_def sendable_def)
  have "tx_ok K p (push_frame f1 g)" by (rule tx_ok_push) (use assms f1 in simp_all)
  moreover have "quiet (push_frame f1 g) g1" unfolding g1_def by (auto intro!: quiet_fields)
  ultimately show ?thesis using tx_ok_quiet quiet_calc_queue_time [OF c] by blast
qed

lemma tx_ok_enqueue:
  assumes ok: "tx_ok (\<lambda>d. K d + frame_refs f d) p g" and net: "net_ok K g" and K: "\<forall>d. 0 \<le> K d" and f: "new_frame_ok g f"
    and e: "overlay_payload_enqueue h now f g = Some (ret, g')"
  shows "if ret = 0 then tx_ok K p g' else g' = g"
proof (rule enqueue_cases [OF e])
  fix f2 g2
  assume q: "frame_queue f < OQ_MAX" "sendable f" and room: "int (length (frames (overlay_tx g ! frame_queue f))) < maxLength (overlay_tx g ! frame_queue f)"
    and b: "broadcast_destinations h now (if frame_packet_version f \<le> 0 then f\<lparr>frame_packet_version := 1\<rparr> else f) g = Some (f2, g2)"
    and ret: "ret = 0" and fin: "destinations f2 = [] \<and> frame_destination f2 = None \<and> g' = g2 \<or> append_frame now (destinations f = []) f2 g2 = Some g'"
  define f1 where "f1 = (if frame_packet_version f \<le> 0 then f\<lparr>frame_packet_version := 1\<rparr> else f)"
  let ?S = "\<lambda>d. K d + packet_refs p d + queued g d"
  have good: "good_frame g f1" "frame_refs f1 = frame_refs f" "core f1 = core f"
    using f by (auto simp: f1_def new_frame_ok_def good_frame_def frame_refs_def)
  have "refs_ok (\<lambda>d. ?S d + frame_refs f1 d) g" using ok unfolding good(2) by (simp add: tx_ok_def algebra_simps)
  then have "adding ?S g f1 (f1, g)" using good by (simp add: adding_def)
  moreover have "net_ok ?S g" by (rule net_ok_mono [OF net]) (simp add: add_increasing2)
  ultimately have a: "same_net g g2" "refs_ok (\<lambda>d. ?S d + frame_refs f2 d) g2" "good_frame g2 f2" "core f2 = core f"
    using broadcast_destinations_adding [OF _ _ b [folded f1_def]] good(3) by simp_all
  have g2: "net_ok K g2" "overlay_tx g2 = overlay_tx g" "good_packet g2 p"
    using net_ok_same [OF a(1) net] same_netD(4) [OF a(1)] ok good_packet_same [OF a(1)] by (simp_all add: tx_ok_def)
  then have fine: "length (overlay_tx g2) = OQ_MAX" "\<forall>q < OQ_MAX. queue_fine g2 q (overlay_tx g2 ! q)"
    using ok queue_fine_same [OF a(1)] by (simp_all add: tx_ok_def)
  have r2: "refs_ok (\<lambda>d. K d + packet_refs p d + queued g2 d + frame_refs f2 d) g2" using a(2) g2(2) by (simp add: queued_def)
  have f2: "sendable f2" "frame_queue f2 = frame_queue f" using q(2) coreD [OF a(4)] by (simp_all add: sendable_def)
  show ?thesis
  proof (cases "destinations f2 = [] \<and> frame_destination f2 = None \<and> g' = g2")
    case True
    then have "refs_ok (\<lambda>d. K d + packet_refs p d + queued g2 d) g2" using r2 by (simp add: frame_refs_def)
    then show ?thesis using True ret g2 fine K by (simp add: tx_ok_def)
  next
    case False
    then have "append_frame now (destinations f = []) f2 g2 = Some g'" using fin by blast
    then have "tx_ok K p g'" by (intro append_frame_ok [OF g2(1) K fine g2(3) r2 a(3) f2(1)]) (use q room f2 g2 in simp_all)
    then show ?thesis using ret by simp
  qed
qed simp

section \<open>Any sequence of operations\<close>

text \<open>
  The operations on the queues, on the references \<open>K\<close> that are held elsewhere, the packet under way and the
  mesh.  Enqueuing hands the references of a frame over to the queue.
\<close>

inductive tx_step :: "heap \<Rightarrow> (nat \<Rightarrow> int) \<times> outgoing_packet \<times> mesh \<Rightarrow> (nat \<Rightarrow> int) \<times> outgoing_packet \<times> mesh \<Rightarrow> bool" for h where
  enqueued: "overlay_payload_enqueue h now f g = Some (0, g') \<Longrightarrow> new_frame_ok g f \<Longrightarrow> net_ok K' g \<Longrightarrow> \<forall>d. 0 \<le> K' d \<Longrightarrow>
    K = (\<lambda>d. K' d + frame_refs f d) \<Longrightarrow> tx_step h (K, p, g) (K', p, g')"
| refused: "overlay_payload_enqueue h now f g = Some (- 1, g') \<Longrightarrow> tx_step h (K, p, g) (K, p, g')"
| stuffed: "q < OQ_MAX \<Longrightarrow> overlay_stuff_packet h now q p g = Some (p', g') \<Longrightarrow> tx_step h (K, p, g) (K, p', g')"
| acked: "overlay_queue_ack now nb d acks ack_seq g = Some g' \<Longrightarrow> tx_step h (K, p, g) (K, p, g')"

inductive_cases tx_stepE: "tx_step h (K, p, g) (K', p', g')"

lemma refused_same: "overlay_payload_enqueue h now f g = Some (- 1, g') \<Longrightarrow> g' = g"
  by (erule enqueue_cases) simp_all

lemma tx_step_ok:
  assumes "tx_step h s s'"
  shows "tx_ok (fst s) (fst (snd s)) (snd (snd s)) \<Longrightarrow> tx_ok (fst s') (fst (snd s')) (snd (snd s'))"
  using assms
proof cases
  case (enqueued now f g g' K' K p)
  assume "tx_ok (fst s) (fst (snd s)) (snd (snd s))"
  then show ?thesis using tx_ok_enqueue [of K' f p g h now 0 g'] enqueued by simp
next
  case (refused now f g g' K p)
  assume "tx_ok (fst s) (fst (snd s)) (snd (snd s))"
  then show ?thesis using refused_same [OF refused(3)] refused by simp
next
  case (stuffed q now p g p' g' K)
  assume "tx_ok (fst s) (fst (snd s)) (snd (snd s))"
  then show ?thesis using tx_ok_stuff(1) [of K p g q h now p' g'] stuffed by simp
next
  case (acked now nb d acks ack_seq g g' K p)
  assume "tx_ok (fst s) (fst (snd s)) (snd (snd s))"
  then show ?thesis using tx_ok_ack(1) [of K p g now nb d acks ack_seq g'] acked by simp
qed

lemma tx_steps_ok:
  assumes "(tx_step h)\<^sup>*\<^sup>* s s'" and "tx_ok (fst s) (fst (snd s)) (snd (snd s))"
  shows "tx_ok (fst s') (fst (snd s')) (snd (snd s'))"
  using assms by (induction rule: rtranclp_induct) (use tx_step_ok in blast)+

lemma list_refs_pos:
  assumes "f \<in> set fs" and "pd \<in> set (destinations f)"
  shows "0 < list_refs fs (pd_destination pd)"
  using assms(1)
proof (induction fs)
  case (Cons x fs)
  have "0 < frame_refs f (pd_destination pd)" using assms(2) by (simp add: frame_refs_def count_list_0_iff flip: neq0_conv)
  then show ?case using Cons by (auto simp: add_pos_nonneg add_nonneg_pos)
qed simp

lemma tx_ok_live:
  assumes ok: "tx_ok K p g" and q: "q < OQ_MAX" and f: "f \<in> set (frames (overlay_tx g ! q))" and pd: "pd \<in> set (destinations f)"
  shows "pd_destination pd < length (dests g) \<and> \<not> freed (dests g ! pd_destination pd)"
proof -
  let ?d = "pd_destination pd"
  have "0 < queued g ?d" using list_refs_pos [OF f pd] list_refs_queued [OF q, of g ?d] by simp
  moreover have "0 \<le> K ?d" "0 \<le> packet_refs p ?d" using ok by (simp_all add: tx_ok_def packet_refs_def)
  ultimately have "K ?d + packet_refs p ?d + queued g ?d \<noteq> 0" by linarith
  moreover have d: "?d < length (dests g)" using ok q f pd by (auto simp: tx_ok_def queue_fine_def good_frame_def)
  moreover have "freed (dests g ! ?d) \<longleftrightarrow> K ?d + packet_refs p ?d + queued g ?d = 0"
    using ok d unfolding tx_ok_def refs_ok_def by blast
  ultimately show ?thesis by simp
qed


lemma sample_tx_ok: "tx_ok (\<lambda>d. if d = 0 then 1 else 0) zero_packet sample_tx"
proof -
  let ?K = "\<lambda>d :: nat. if d = 0 then 1 else 0 :: int"
  have q: "frames (overlay_tx sample_tx ! q) = [] \<and> 0 \<le> maxLength (overlay_tx sample_tx ! q)" if "q < OQ_MAX" for q
    using that by (auto simp: sample_tx_queues OQ_MAX_def less_Suc_eq eval_nat_numeral)
  then have "queued sample_tx d = 0" for d by (simp add: queued_def)
  then have "refs_ok (\<lambda>d. ?K d + packet_refs zero_packet d + queued sample_tx d) sample_tx"
    by (simp add: refs_ok_def packet_refs_def zero_packet_def)
  moreover have "\<forall>x \<in> set (dests sample_tx). encapsulation x = ENCAP_OVERLAY" by (simp add: all_set_conv_all_nth)
  then have "net_ok ?K sample_tx"
    by (auto simp: net_ok_def sub_ok_def out_ok_def sample_subs_def new_neighbour_def new_subscriber_def)
  moreover have "good_packet sample_tx zero_packet" by (simp add: good_packet_def zero_packet_def)
  ultimately show ?thesis using q by (simp add: tx_ok_def queue_fine_def)
qed

definition sample_send :: overlay_frame where
  "sample_send = sample_frame\<lparr>destinations := []\<rparr>"

lemma sample_enqueued:
  "\<exists>q. overlay_payload_enqueue sample_heap 1000 sample_send sample_tx
     = Some (0, (push_frame (sample_send\<lparr>frame_packet_version := 1, resend := 1, mdp_sequence := - 1\<rparr>) sample_tx)\<lparr>queue := q\<rparr>)"
proof -
  let ?f = "sample_send\<lparr>frame_packet_version := 1, resend := 1, mdp_sequence := - 1\<rparr>"
  let ?g = "push_frame ?f sample_tx"
  have a: "queue_ok (queue ?g)" "packet_alarm_ok (queue ?g)" using sample_tx_alarms by (simp_all add: push_frame_def Let_def)
  obtain q where q: "overlay_queue_schedule_next 1005 ?g = Some (?g\<lparr>queue := q\<rparr>)"
    using schedule_next_result [OF a, of 1005] by (auto simp: TIME_MS_NEVER_WILL_def)
  have t: "queue_time ?f zero_buffer (overlay_tx ?g ! OQ_ORDINARY) 0 = 1005"
    by (simp add: queue_time_def sample_tx_queues sample_send_def sample_frame_def zero_frame_def OQ_ORDINARY_def ob_position_def zero_buffer_def
        SMALL_PACKET_SIZE_def eval_nat_numeral push_frame_def)
  have "append_frame 1000 True (sample_send\<lparr>frame_packet_version := 1\<rparr>) sample_tx = overlay_calc_queue_time 1000 ?f ?g"
    by (simp add: append_frame_def sample_send_def sample_frame_def zero_frame_def OQ_ORDINARY_def OQ_ISOCHRONOUS_VOICE_def Let_def)
  also have "\<dots> = Some (?g\<lparr>queue := q\<rparr>)"
    using q t by (simp add: overlay_calc_queue_time_def sample_send_def sample_frame_def)
  finally have "append_frame 1000 True (sample_send\<lparr>frame_packet_version := 1\<rparr>) sample_tx = Some (?g\<lparr>queue := q\<rparr>)" .
  then show ?thesis
    by (intro exI [of _ q]) (simp add: overlay_payload_enqueue_def broadcast_destinations_def sample_send_def sample_frame_def zero_frame_def
        zero_buffer_def ob_overrun_def ob_position_def MDP_MTU_def sample_tx_queues OQ_ORDINARY_def OQ_MAX_def)
qed

text \<open>The frame is enqueued and, a minute later, dropped because it was not sent in time.\<close>

lemma sample_steps:
  "\<exists>g'. (tx_step sample_heap)\<^sup>*\<^sup>* (\<lambda>d. if d = 0 then 1 else 0, zero_packet, sample_tx) (\<lambda>d. if d = 0 then 1 else 0, zero_packet, g')
     \<and> 0 < length (dests g') \<and> ref_count (dests g' ! 0) = 1 \<and> \<not> freed (dests g' ! 0)"
proof -
  let ?K = "\<lambda>d :: nat. if d = 0 then 1 else 0 :: int"
  let ?f = "sample_send\<lparr>frame_packet_version := 1, resend := 1, mdp_sequence := - 1\<rparr>"
  obtain q where e: "overlay_payload_enqueue sample_heap 1000 sample_send sample_tx = Some (0, (push_frame ?f sample_tx)\<lparr>queue := q\<rparr>)"
    using sample_enqueued by blast
  define g where "g = (push_frame ?f sample_tx)\<lparr>queue := q\<rparr>"
  have "new_frame_ok sample_tx sample_send"
    by (simp add: new_frame_ok_def good_frame_def sample_send_def sample_frame_def zero_frame_def sample_subs_def)
  moreover have "frame_refs sample_send = (\<lambda>d. 0)" by (simp add: frame_refs_def sample_send_def fun_eq_iff)
  ultimately have one: "tx_step sample_heap (?K, zero_packet, sample_tx) (?K, zero_packet, g)"
    using sample_tx_ok by (intro enqueued [OF e [folded g_def]]) (auto simp: tx_ok_def)
  have fs: "frames (overlay_tx g ! OQ_ORDINARY) = [?f]" "latencyTarget (overlay_tx g ! OQ_ORDINARY) = 1000"
    by (simp_all add: g_def push_frame_def Let_def sample_tx_queues sample_send_def sample_frame_def OQ_ORDINARY_def eval_nat_numeral)
  have "overlay_stuff_packet sample_heap 61000 OQ_ORDINARY zero_packet g = Some (zero_packet, set_frames OQ_ORDINARY [] g)"
    by (simp add: overlay_stuff_packet_def fs stuff_frame_def drop_frame_def overlay_queue_remove_def)
       (simp add: sample_send_def sample_frame_def)
  then have two: "tx_step sample_heap (?K, zero_packet, g) (?K, zero_packet, set_frames OQ_ORDINARY [] g)"
    by (rule stuffed [rotated]) (simp add: OQ_ORDINARY_def OQ_MAX_def)
  show ?thesis
    by (rule exI [of _ "set_frames OQ_ORDINARY [] g"], intro conjI,
        rule rtranclp.rtrancl_into_rtrancl [of "tx_step sample_heap", OF r_into_rtranclp [of "tx_step sample_heap", OF one] two])
       (simp_all add: g_def set_frames_def push_frame_def Let_def flip: length_greater_0_conv)
qed


section \<open>What one operation does\<close>

lemma stuff_delayed:
  assumes "stuff_frames h now latency fs p g = Some (fs', p', g')" and "f \<in> set fs" and "now < delay_until f" and "now \<le> enqueued_at f + latency"
  shows "f \<in> set fs'"
  using assms(1,2)
proof (induction fs arbitrary: p g fs')
  case (Cons x fs)
  obtain r p1 g1 fs1 where x: "stuff_frame h now latency x p g = Some (r, p1, g1)" and fs: "stuff_frames h now latency fs p1 g1 = Some (fs1, p', g')"
    and fs': "fs' = (case r of None \<Rightarrow> fs1 | Some f \<Rightarrow> f # fs1)"
    using Cons.prems(1) by (auto elim!: run_bindE)
  show ?case
  proof (cases "f = x")
    case True
    then have "r = Some f" using x assms(3,4) by (auto simp: stuff_frame_def must_wait_def skip_frame_def elim!: run_bindE)
    then show ?thesis by (simp add: fs')
  next
    case False
    then show ?thesis using Cons.IH [OF fs] Cons.prems(2) by (auto simp: fs' split: option.splits)
  qed
qed simp

text \<open>
  C31: Filling a packet from a queue keeps the order of the queue and what its frames say: the frames that are left are
  some of those that were there, changed at most in where they still have to go, when, how often they were sent, their
  number and their format.  None of them has been waiting longer than the queue's latency target, one that
  may not be sent yet and is not that old is still there unchanged, and the other queues are as before.
\<close>

theorem overlay_stuff_packet_keeps:
  assumes "tx_ok K p g" and "q < OQ_MAX" and "overlay_stuff_packet h now q p g = Some (p', g')"
  shows "subseq (map core (frames (overlay_tx g' ! q))) (map core (frames (overlay_tx g ! q)))
     \<and> (\<forall>f \<in> set (frames (overlay_tx g' ! q)). now \<le> enqueued_at f + latencyTarget (overlay_tx g ! q))
     \<and> (\<forall>f \<in> set (frames (overlay_tx g ! q)). now < delay_until f \<and> now \<le> enqueued_at f + latencyTarget (overlay_tx g ! q)
          \<longrightarrow> f \<in> set (frames (overlay_tx g' ! q)))
     \<and> (\<forall>i < OQ_MAX. i \<noteq> q \<longrightarrow> overlay_tx g' ! i = overlay_tx g ! i)"
proof -
  obtain fs g1 where st: "stuff_frames h now (latencyTarget (overlay_tx g ! q)) (frames (overlay_tx g ! q)) p g = Some (fs, p', g1)"
    and g': "g' = set_frames q fs g1"
    using assms(3) unfolding overlay_stuff_packet_def by (elim run_bindE) auto
  have "length (overlay_tx g') = OQ_MAX" using tx_ok_stuff(1) [OF assms] by (simp add: tx_ok_def)
  then have fs: "frames (overlay_tx g' ! q) = fs" using assms(2) by (simp add: g' set_frames_def)
  show ?thesis using tx_ok_stuff(2-4) [OF assms] stuff_delayed [OF st] unfolding fs by blast
qed


text \<open>A queue with a frame that has to wait and one that was sent with number 7.\<close>

definition sample_waits :: overlay_frame where
  "sample_waits = sample_send\<lparr>delay_until := 2000, mdp_sequence := - 1\<rparr>"

definition sample_sent :: overlay_frame where
  "sample_sent = sample_frame\<lparr>enqueued_at := 100,
     destinations := [\<lparr>sent_sequence = 7, transmit_time = 110, pd_destination = 0, pd_next_hop = Some 1\<rparr>]\<rparr>"

definition sample_sending :: mesh where
  "sample_sending = set_frames OQ_ORDINARY [sample_waits, sample_sent] (set_dest 0 ((dests sample_tx ! 0)\<lparr>ref_count := 2\<rparr>) sample_tx)"

lemma sample_sending_frames:
  "frames (overlay_tx sample_sending ! q) = (if q = OQ_ORDINARY then [sample_waits, sample_sent] else frames (overlay_tx sample_tx ! q))"
  "maxLength (overlay_tx sample_sending ! q) = maxLength (overlay_tx sample_tx ! q)" "queue sample_sending = queue sample_tx"
proof -
  have o: "OQ_ORDINARY < OQ_MAX" by (simp add: OQ_ORDINARY_def OQ_MAX_def)
  show "frames (overlay_tx sample_sending ! q) = (if q = OQ_ORDINARY then [sample_waits, sample_sent] else frames (overlay_tx sample_tx ! q))"
    "maxLength (overlay_tx sample_sending ! q) = maxLength (overlay_tx sample_tx ! q)" "queue sample_sending = queue sample_tx"
    using o by (cases "q = OQ_ORDINARY"; simp add: sample_sending_def set_frames_def set_dest_def)+
qed

lemma sample_sending_latency: "latencyTarget (overlay_tx sample_sending ! OQ_ORDINARY) = 1000"
  by (simp add: sample_sending_def set_frames_def set_dest_def OQ_ORDINARY_def OQ_MAX_def sample_tx_queues eval_nat_numeral)

lemma sample_sending_ok: "tx_ok (\<lambda>d. if d = 0 then 1 else 0) zero_packet sample_sending"
proof -
  let ?K = "\<lambda>d :: nat. if d = 0 then 1 else 0 :: int"
  have net: "same_net sample_tx (set_dest 0 ((dests sample_tx ! 0)\<lparr>ref_count := 2\<rparr>) sample_tx)" by (rule same_net_set_dest) simp_all
  have o: "OQ_ORDINARY < OQ_MAX" by (simp add: OQ_ORDINARY_def OQ_MAX_def)
  have fr: "list_refs [sample_waits, sample_sent] d = (if d = 0 then 1 else 0)" for d
    by (simp add: frame_refs_def sample_waits_def sample_send_def sample_sent_def)
  have q0: "queued sample_tx d = 0" "list_refs (frames (overlay_tx sample_tx ! OQ_ORDINARY)) d = 0" for d
    using sample_tx_ok by (simp_all add: queued_def sample_tx_queues OQ_MAX_def OQ_ORDINARY_def eval_nat_numeral lessThan_Suc)
  have "refs_ok (\<lambda>d. ?K d + packet_refs zero_packet d + queued sample_sending d) sample_sending"
    using queued_set_frames [OF o, of sample_tx "[sample_waits, sample_sent]"] q0 fr
    by (simp add: refs_ok_def packet_refs_def zero_packet_def sample_sending_def queued_def set_frames_def set_dest_def nth_list_update)
  moreover have "queue_fine sample_sending q (overlay_tx sample_sending ! q)" if "q < OQ_MAX" for q
    using that sample_tx_ok 
    by (auto simp: tx_ok_def queue_fine_def sample_sending_frames)
       (simp_all add: sample_sending_def set_frames_def set_dest_def good_frame_def sendable_def sample_waits_def sample_send_def sample_sent_def sample_frame_def
        zero_frame_def zero_buffer_def ob_overrun_def ob_position_def MDP_MTU_def MAX_PACKET_DESTINATIONS_def OVERLAY_MAX_INTERFACES_def sample_subs_def
        sample_tx_queues OQ_ORDINARY_def eval_nat_numeral)
  moreover have "net_ok ?K sample_sending" using sample_tx_ok net_ok_same [OF net, of ?K] unfolding tx_ok_def
    by (simp add: net_ok_def sample_sending_def set_frames_def)
  ultimately show ?thesis by (simp add: tx_ok_def good_packet_def zero_packet_def) (simp add: sample_sending_def set_frames_def set_dest_def)
qed

lemma sample_sending_filled: "\<exists>g'. overlay_stuff_packet sample_heap 1500 OQ_ORDINARY zero_packet sample_sending = Some (zero_packet, g')"
proof -
  have "queue_ok (queue sample_sending)" "packet_alarm_ok (queue sample_sending)" using sample_tx_alarms by (simp_all add: sample_sending_frames)
  then obtain q where "overlay_queue_schedule_next 2000 sample_sending = Some (sample_sending\<lparr>queue := q\<rparr>)"
    using schedule_next_result [of sample_sending 2000] by (auto simp: TIME_MS_NEVER_WILL_def)
  moreover have "queue_time sample_waits zero_buffer (overlay_tx sample_sending ! OQ_ORDINARY) 0 = 2000"
    by (simp add: queue_time_def sample_waits_def sample_send_def sample_frame_def sample_sending_def set_frames_def set_dest_def OQ_ORDINARY_def OQ_MAX_def
        sample_tx_queues eval_nat_numeral)
  ultimately have "overlay_calc_queue_time 1500 sample_waits sample_sending = Some (sample_sending\<lparr>queue := q\<rparr>)"
    by (simp add: overlay_calc_queue_time_def sample_waits_def sample_send_def sample_frame_def)
  moreover have "delay_until sample_waits = 2000" "enqueued_at sample_waits = 1000" "enqueued_at sample_sent = 100"
    by (simp_all add: sample_waits_def sample_send_def sample_frame_def sample_sent_def)
  ultimately show ?thesis
    by (simp add: overlay_stuff_packet_def sample_sending_frames sample_sending_latency stuff_frame_def must_wait_def skip_frame_def drop_frame_def)
qed

theorem overlay_stuff_packet_keeps_witness:
  "\<exists>g'. overlay_stuff_packet sample_heap 1500 OQ_ORDINARY zero_packet sample_sending = Some (zero_packet, g')
     \<and> sample_waits \<in> set (frames (overlay_tx g' ! OQ_ORDINARY)) \<and> sample_sent \<notin> set (frames (overlay_tx g' ! OQ_ORDINARY))"
proof -
  obtain g' where g': "overlay_stuff_packet sample_heap 1500 OQ_ORDINARY zero_packet sample_sending = Some (zero_packet, g')"
    using sample_sending_filled by blast
  have "OQ_ORDINARY < OQ_MAX" by (simp add: OQ_ORDINARY_def OQ_MAX_def)
  from overlay_stuff_packet_keeps [OF sample_sending_ok this g'] g' show ?thesis
    by (auto simp: sample_sending_frames sample_sending_latency sample_waits_def sample_send_def sample_frame_def sample_sent_def)
qed


end
