(* ===== verification/Golay.thy ===== *)
theory Golay
  imports Prelude
begin

text \<open>
  The error correcting code of \<^verbatim>\<open>golay.c\<close>, with which \<^verbatim>\<open>radio_link.c\<close> protects the lengths in its packets: the
  encoder and decoder of the [23,12] Golay code with a parity bit.  The decoder is shown to find the one codeword
  that differs from what was received in at most three bits, whatever was received.
\<close>

section \<open>Encoding\<close>

definition POLY :: u32 where "POLY = 0xAE3"

definition divide_step :: "u32 \<Rightarrow> u32" where
  "divide_step cw = drop_bit 1 (if bit cw 0 then cw XOR POLY else cw)"

definition golay :: "u32 \<Rightarrow> u32" where
  "golay cw = (let c = cw AND 0xFFF; cw = (divide_step ^^ 12) c in push_bit 12 cw OR c)"

definition parity :: "u32 \<Rightarrow> u8" where
  "parity cw =
     (let p = ucast (cw AND 0xFF) :: u8;
          p = p XOR ucast (drop_bit 8 cw AND 0xFF);
          p = p XOR ucast (drop_bit 16 cw AND 0xFF);
          p = p XOR drop_bit 4 p;
          p = p XOR drop_bit 2 p;
          p = p XOR drop_bit 1 p
      in p AND 1)"

definition load24 :: "u8 list \<Rightarrow> u32" where
  "load24 data = ucast (data ! 0) OR push_bit 8 (ucast (data ! 1)) OR push_bit 16 (ucast (data ! 2))"

text \<open>The three bytes are replaced by the codeword.\<close>

definition golay_encode :: "u8 list \<Rightarrow> u8 list" where
  "golay_encode data =
     (let cw = golay (load24 data);
          cw = (if parity cw \<noteq> 0 then cw OR 0x800000 else cw)
      in [ucast (cw AND 0xFF), ucast (drop_bit 8 cw AND 0xFF), ucast (drop_bit 16 cw AND 0xFF)])"

section \<open>Decoding\<close>

definition syndrome :: "u32 \<Rightarrow> u32" where
  "syndrome cw = push_bit 12 ((divide_step ^^ 12) (cw AND 0x7FFFFF))"

definition wgt :: "nat list" where
  "wgt = [0, 1, 1, 2, 1, 2, 2, 3, 1, 2, 2, 3, 2, 3, 3, 4]"

fun weight_loop :: "nat \<Rightarrow> u32 \<Rightarrow> nat" where
  "weight_loop 0 cw = 0"
| "weight_loop (Suc k) cw = (if cw = 0 then 0 else wgt ! unat (cw AND 0xF) + weight_loop k (drop_bit 4 cw))"

definition weight :: "u32 \<Rightarrow> nat" where
  "weight cw = weight_loop 6 cw"

definition rotate_left_step :: "u32 \<Rightarrow> u32" where
  "rotate_left_step cw = (if cw AND 0x400000 \<noteq> 0 then push_bit 1 cw OR 1 else push_bit 1 cw)"

definition rotate_left :: "u32 \<Rightarrow> nat \<Rightarrow> u32" where
  "rotate_left cw n = (rotate_left_step ^^ n) cw AND 0x7FFFFF"

definition rotate_right_step :: "u32 \<Rightarrow> u32" where
  "rotate_right_step cw = (if cw AND 1 \<noteq> 0 then drop_bit 1 cw OR 0x400000 else drop_bit 1 cw)"

definition rotate_right :: "u32 \<Rightarrow> nat \<Rightarrow> u32" where
  "rotate_right cw n = (rotate_right_step ^^ n) cw AND 0x7FFFFF"

text \<open>
  The loop over the cyclic shifts: either the corrected word with the value of \<^verbatim>\<open>*errs\<close>, or that value after all of them.
  \<open>n\<close> counts the shifts that are left, so that \<open>i = 23 - n\<close>.
\<close>

fun try_shifts :: "nat \<Rightarrow> nat \<Rightarrow> nat \<Rightarrow> u32 \<Rightarrow> u32 \<Rightarrow> nat \<Rightarrow> (u32 \<times> nat) + nat" where
  "try_shifts 0 i w cw s errs = Inr errs"
| "try_shifts (Suc n) i w cw s errs =
     (let errs = weight s in
      if errs \<le> w then Inl (rotate_right (cw XOR s) i, errs)
      else (let cw = rotate_left cw 1 in try_shifts n (i + 1) w cw (syndrome cw) errs))"

text \<open>The loop over the bits that are flipped on trial; \<open>j = - 1\<close> flips none.\<close>

function correct_loop :: "u32 \<Rightarrow> int \<Rightarrow> u32 \<Rightarrow> u32 \<Rightarrow> nat \<Rightarrow> nat \<Rightarrow> u32 \<times> nat" where
  "correct_loop cwsaver j cw msk w errs =
     (if j < 23
      then (let msk = (if j > 0 then msk + msk else msk);
                cw = (if j \<noteq> - 1 then cwsaver XOR msk else cw);
                w = (if j \<noteq> - 1 then 2 else w);
                s = syndrome cw
            in if s \<noteq> 0
               then case try_shifts 23 0 w cw s errs of
                      Inl r \<Rightarrow> r
                    | Inr errs \<Rightarrow> correct_loop cwsaver (j + 1) cw msk w errs
               else (cw, errs))
      else (cwsaver, errs))"
  by pat_completeness auto
termination
  by (relation "measure (\<lambda>(_, j, _). nat (23 - j))") auto

declare correct_loop.simps [simp del]

definition correct :: "u32 \<Rightarrow> u32 \<times> nat" where
  "correct cw = correct_loop cw (- 1) cw 1 3 0"

text \<open>The number of errors and the 12 bits of data.\<close>

definition golay_decode :: "u8 list \<Rightarrow> nat \<times> u32" where
  "golay_decode data =
     (let cw = load24 data;
          parity_bit = cw AND 0x800000;
          cw = cw AND NOT 0x800000;
          (cw, errs) = correct cw;
          cw = cw OR parity_bit;
          errs = (if parity cw \<noteq> 0 then errs + 1 else errs)
      in (errs, cw AND 0xFFF))"

section \<open>Linear functions on words\<close>

lemma xor_zero_iff: "a XOR b = 0 \<longleftrightarrow> a = b" for a b :: u32
  by (auto simp: bit_eq_iff bit_xor_iff)

locale xor_linear =
  fixes F :: "u32 \<Rightarrow> u32"
  assumes xor: "F (a XOR b) = F a XOR F b"
begin

lemma zero: "F 0 = 0"
  using xor [of 0 0] by simp

lemma cancel: "F a = F b \<longleftrightarrow> F (a XOR b) = 0"
  by (simp add: xor xor_zero_iff)

text \<open>A linear function is 0 on all words of \<open>n\<close> bits when it is 0 on those with one bit.\<close>

lemma zero_on_basis:
  assumes "\<And>k. k < n \<Longrightarrow> F (push_bit k 1) = 0" and "\<And>k. n \<le> k \<Longrightarrow> \<not> bit a k"
  shows "F a = 0"
  using assms
proof (induction n arbitrary: a)
  case 0
  then have "a = 0" by (intro bit_eqI) simp
  then show ?case by (simp add: zero)
next
  case (Suc n)
  define b where "b = (if bit a n then a XOR push_bit n 1 else a)"
  have b: "\<not> bit b k" if "n \<le> k" for k
  proof (cases "k = n")
    case True
    then show ?thesis using bit_imp_le_length [of a n] by (auto simp: b_def bit_xor_iff bit_exp_iff)
  next
    case False
    then show ?thesis using that Suc.prems(2) [of k] by (auto simp: b_def bit_xor_iff bit_exp_iff)
  qed
  have one: "F (push_bit k 1) = 0" if "k < Suc n" for k by (rule Suc.prems(1) [OF that])
  have "F b = 0" by (rule Suc.IH [OF one b]) simp_all
  moreover have "b XOR push_bit n 1 = a \<or> b = a" by (simp add: b_def xor.assoc)
  ultimately show ?case using xor [of b "push_bit n 1"] one [of n] by auto
qed

end

lemma divide_step_xor: "divide_step (a XOR b) = divide_step a XOR divide_step b"
  by (rule bit_eqI) (auto simp: divide_step_def bit_drop_bit_eq bit_xor_iff)

interpretation divide: xor_linear divide_step
  by unfold_locales (rule divide_step_xor)

interpretation divides: xor_linear "divide_step ^^ n"
  by unfold_locales (induction n; simp add: divide_step_xor)

lemma and_xor: "(a XOR b) AND m = (a AND m) XOR (b AND m)" for a b m :: "'a :: len word"
  by (rule bit_eqI) (auto simp: bit_and_iff bit_xor_iff)

lemma syndrome_xor: "syndrome (a XOR b) = syndrome a XOR syndrome b"
  by (simp add: syndrome_def and_xor divides.xor push_bit_xor)

interpretation syn: xor_linear syndrome
  by unfold_locales (rule syndrome_xor)

section \<open>Words of few bits\<close>

definition fits :: "nat \<Rightarrow> u32 \<Rightarrow> bool" where
  "fits n a \<longleftrightarrow> (\<forall>k \<ge> n. \<not> bit a k)"

lemma fitsD: "fits n a \<Longrightarrow> n \<le> k \<Longrightarrow> \<not> bit a k"
  by (simp add: fits_def)

lemma fits_mono: "fits m a \<Longrightarrow> m \<le> n \<Longrightarrow> fits n a"
  by (auto simp: fits_def)

lemma fits_xor [intro]: "fits n a \<Longrightarrow> fits n b \<Longrightarrow> fits n (a XOR b)"
  by (auto simp: fits_def bit_xor_iff)

lemma low_masks: "(0xFFF :: u32) = mask 12" "(0x7FFFFF :: u32) = mask 23"
  by (simp_all add: mask_eq_exp_minus_1)

lemma bit_low: "bit (a AND 0xFFF) k \<longleftrightarrow> k < 12 \<and> bit a k" "bit (a AND 0x7FFFFF) k \<longleftrightarrow> k < 23 \<and> bit a k" for a :: u32
  unfolding low_masks by (auto simp: bit_and_iff bit_mask_iff bit_imp_possible_bit)

lemma fits_and: "fits 12 (a AND 0xFFF)" "fits 23 (a AND 0x7FFFFF)"
  by (auto simp: fits_def bit_low)

lemma fits_and_id: "fits 12 a \<Longrightarrow> a AND 0xFFF = a" "fits 23 a \<Longrightarrow> a AND 0x7FFFFF = a"
  by (rule bit_eqI; use leI in \<open>auto simp: fits_def bit_low\<close>)+

lemma fits_POLY: "fits 12 POLY"
proof -
  have "POLY = POLY AND 0xFFF" by (simp add: POLY_def)
  then show ?thesis by (metis fits_and(1))
qed

lemma fits_divide:
  assumes "fits (Suc n) a" and "11 \<le> n"
  shows "fits n (divide_step a)"
  using assms fits_mono [OF fits_POLY, of "Suc n"] by (auto simp: fits_def divide_step_def bit_drop_bit_eq bit_xor_iff)

lemma fits_divides: "fits (11 + m) a \<Longrightarrow> fits 11 ((divide_step ^^ m) a)"
proof (induction m arbitrary: a)
  case (Suc m)
  then have "fits (11 + m) (divide_step a)" by (intro fits_divide) simp_all
  then show ?case using Suc.IH by (simp add: funpow_swap1)
qed simp

text \<open>The syndrome of a word with nothing in its data bits is the word.\<close>

lemma bit_shifted:
  assumes "fits 11 v" and "n \<le> 12"
  shows "bit (push_bit n v) k \<longleftrightarrow> n \<le> k \<and> bit v (k - n)"
proof -
  have "bit v (k - n) \<Longrightarrow> k - n < 11" using fitsD [OF assms(1)] not_le by blast
  then show ?thesis using assms(2) by (auto simp: bit_push_bit_iff)
qed

lemma divides_shifted:
  assumes "fits 11 v" and "n \<le> 12"
  shows "(divide_step ^^ n) (push_bit n v) = v"
  using assms(2)
proof (induction n)
  case (Suc n)
  have "divide_step (push_bit (Suc n) v) = push_bit n v"
    using bit_shifted [OF assms(1), of "Suc n"] bit_shifted [OF assms(1), of n] Suc.prems
    by (intro bit_eqI) (simp add: divide_step_def bit_drop_bit_eq del: push_bit_Suc)
  then show ?case using Suc by (simp add: funpow_swap1 del: funpow.simps add: funpow_Suc_right)
qed simp

definition upper :: "u32 \<Rightarrow> bool" where
  "upper u \<longleftrightarrow> fits 23 u \<and> (\<forall>k < 12. \<not> bit u k)"

lemma upper_shift: "upper u \<longleftrightarrow> (\<exists>v. fits 11 v \<and> u = push_bit 12 v)"
proof
  assume u: "upper u"
  have "u = push_bit 12 (drop_bit 12 u)" 
  proof (rule bit_eqI)
    fix n show "bit u n = bit (push_bit 12 (drop_bit 12 u)) n"
      using u bit_imp_le_length [of u n] by (cases "n < 12") (auto simp: upper_def bit_push_bit_iff bit_drop_bit_eq)
  qed
  moreover have "fits 11 (drop_bit 12 u)" using u by (auto simp: upper_def fits_def bit_drop_bit_eq)
  ultimately show "\<exists>v. fits 11 v \<and> u = push_bit 12 v" by blast
qed (auto simp: upper_def fits_def bit_push_bit_iff)

lemma syndrome_upper: "upper u \<Longrightarrow> syndrome u = u"
  unfolding upper_shift syndrome_def by (auto simp: divides_shifted fits_and_id(2) fits_def bit_push_bit_iff)

lemma upper_syndrome: "upper (syndrome a)"
  unfolding upper_shift syndrome_def using fits_divides [of 12 "a AND 0x7FFFFF"] fits_and(2) [of a] by auto

section \<open>Codewords\<close>

definition codeword :: "u32 \<Rightarrow> bool" where
  "codeword c \<longleftrightarrow> fits 23 c \<and> syndrome c = 0"

lemma codeword_xor: "codeword a \<Longrightarrow> codeword b \<Longrightarrow> codeword (a XOR b)"
  by (auto simp: codeword_def syndrome_xor)

lemma codeword_same_data:
  assumes "codeword a" and "codeword b" and "a AND 0xFFF = b AND 0xFFF"
  shows "a = b"
proof -
  have "\<not> bit (a XOR b) k" if "k < 12" for k
    using arg_cong [OF assms(3), of "\<lambda>x. bit x k"] that by (simp add: bit_low bit_xor_iff)
  then have "upper (a XOR b)" using assms(1,2) by (auto simp: upper_def codeword_def)
  then have "a XOR b = 0" using syndrome_upper codeword_xor [OF assms(1,2)] by (simp add: codeword_def)
  then show ?thesis by (simp add: xor_zero_iff)
qed

lemma golay_codeword: "codeword (golay d)" and golay_data: "golay d AND 0xFFF = d AND 0xFFF"
proof -
  define c where "c = d AND 0xFFF"
  define v where "v = (divide_step ^^ 12) c"
  have c: "fits 12 c" using fits_and(1) by (simp add: c_def)
  have v: "fits 11 v" unfolding v_def by (rule fits_divides) (use fits_mono [OF c] in simp)
  have g: "golay d = push_bit 12 v XOR c"
    using c unfolding golay_def Let_def c_def [symmetric] v_def [symmetric]
    by (intro bit_eqI) (auto simp: bit_or_iff bit_xor_iff bit_push_bit_iff fits_def)
  have u: "upper (push_bit 12 v)" using v upper_shift by blast
  have "syndrome c = push_bit 12 v" using fits_and_id(2) fits_mono [OF c, of 23] by (simp add: syndrome_def v_def)
  then show "codeword (golay d)" using u syndrome_upper [OF u] fits_mono [OF c, of 23] by (auto simp: codeword_def g syndrome_xor upper_def)
  have "golay d AND 0xFFF = c"
    unfolding g using c by (intro bit_eqI) (use leI in \<open>auto simp: bit_low bit_xor_iff bit_push_bit_iff fits_def\<close>)
  then show "golay d AND 0xFFF = d AND 0xFFF" by (simp add: c_def)
qed

lemma codeword_golay: "codeword c \<Longrightarrow> c = golay c"
  by (rule codeword_same_data) (simp_all add: golay_codeword golay_data)

section \<open>Rotation\<close>

definition rot :: "u32 \<Rightarrow> u32" where
  "rot a = rotate_left a 1"

lemma bit_rot:
  assumes "fits 23 a"
  shows "bit (rot a) k \<longleftrightarrow> k < 23 \<and> (if k = 0 then bit a 22 else bit a (k - 1))"
proof -
  have "a AND 0x400000 \<noteq> 0 \<longleftrightarrow> bit a 22"
    using and_exp_eq_0_iff_not_bit [of a 22] by simp
  moreover have "bit (push_bit 1 a) k \<longleftrightarrow> 1 \<le> k \<and> k < 32 \<and> bit a (k - 1)"
    using bit_push_bit_iff [of 1 a k] by (simp del: One_nat_def push_bit_Suc)
  ultimately show ?thesis
    by (auto simp: rot_def rotate_left_def rotate_left_step_def bit_low bit_or_iff bit_1_iff simp del: push_bit_Suc)
qed

lemma fits_rot: "fits 23 (rot a)"
  by (simp add: rot_def rotate_left_def fits_and)

lemma bit_rots:
  assumes "fits 23 a" and "k < 23" and "i \<le> 23"
  shows "bit ((rot ^^ i) a) ((k + i) mod 23) = bit a k"
  using assms(3)
proof (induction i)
  case (Suc i)
  let ?m = "(k + i) mod 23"
  have f: "fits 23 ((rot ^^ i) a)" using assms(1) fits_rot by (cases i) simp_all
  have m: "(k + Suc i) mod 23 = (if ?m = 22 then 0 else Suc ?m)" by (simp add: mod_Suc)
  show ?case using Suc bit_rot [OF f, of "(k + Suc i) mod 23"] unfolding m by (auto simp: m)
qed (use assms(2) in simp)

lemma rot_xor: "fits 23 a \<Longrightarrow> fits 23 b \<Longrightarrow> rot (a XOR b) = rot a XOR rot b"
  by (rule bit_eqI) (auto simp: bit_rot bit_xor_iff fits_xor)

lemma rots_fits: "fits 23 a \<Longrightarrow> fits 23 ((rot ^^ i) a)"
  by (cases i) (simp_all add: fits_rot)

lemma rots_xor: "fits 23 a \<Longrightarrow> fits 23 b \<Longrightarrow> (rot ^^ i) (a XOR b) = (rot ^^ i) a XOR (rot ^^ i) b"
  by (induction i) (simp_all add: rot_xor rots_fits)

text \<open>The code is cyclic: it is enough to look at the codewords with one bit of data.\<close>

lemma golay_xor: "golay (a XOR b) = golay a XOR golay b"
  by (rule codeword_same_data) (simp_all add: golay_codeword codeword_xor and_xor golay_data)

lemma funpow12: "(f ^^ 12) x = f (f (f (f (f (f (f (f (f (f (f (f x)))))))))))"
  by (simp add: eval_nat_numeral)

lemma divide_step_values:
  "divide_step (numeral n) = (if even (numeral n :: u32) then drop_bit 1 (numeral n) else drop_bit 1 (numeral n XOR 0xAE3))"
  "divide_step 0 = 0" "divide_step 1 = 0x571"
  by (simp_all add: divide_step_def POLY_def bit_0)

definition golay_basis :: "u32 list" where
  "golay_basis = [0x2E3001, 0x5C6002, 0x16F004, 0x2DE008, 0x5BC010, 0x19B020, 0x336040, 0x66C080, 0x63B100, 0x695200, 0x7C9400, 0x571800]"

lemma length_basis: "length golay_basis = 12"
  by (simp add: golay_basis_def)

lemma golay_basis:
  assumes "k < 12"
  shows "golay (push_bit k 1) = golay_basis ! k"
proof -
  have "golay 1 = 0x2E3001" "golay 2 = 0x5C6002" "golay 4 = 0x16F004" "golay 8 = 0x2DE008" "golay 16 = 0x5BC010" "golay 32 = 0x19B020"
    "golay 64 = 0x336040" "golay 128 = 0x66C080" "golay 256 = 0x63B100" "golay 512 = 0x695200" "golay 1024 = 0x7C9400" "golay 2048 = 0x571800"
    by (simp_all add: golay_def Let_def divide_step_values funpow12)
  moreover have "k \<in> {0, 1, 2, 3, 4, 5, 6, 7, 8, 9, 10, 11}" using assms by (simp; presburger)
  ultimately show ?thesis by (auto simp: golay_basis_def)
qed

lemma syndrome_rot_basis: "k < 12 \<Longrightarrow> syndrome (rot (golay (push_bit k 1))) = 0"
proof -
  have "\<forall>c \<in> set golay_basis. syndrome (rot c) = 0"
    by (simp add: golay_basis_def rot_def rotate_left_def rotate_left_step_def syndrome_def divide_step_values funpow12)
  then show "k < 12 \<Longrightarrow> syndrome (rot (golay (push_bit k 1))) = 0"
    using nth_mem [of k golay_basis] golay_basis [of k] length_basis by simp
qed

lemma codeword_rot:
  assumes "codeword c"
  shows "codeword (rot c)"
proof -
  have f: "fits 23 (golay a)" for a using golay_codeword [of a] by (simp add: codeword_def)
  have lin: "xor_linear (\<lambda>a. syndrome (rot (golay a)))"
    by unfold_locales (simp add: golay_xor rot_xor f syndrome_xor)
  have "syndrome (rot (golay (c AND 0xFFF))) = 0"
    using xor_linear.zero_on_basis [OF lin syndrome_rot_basis, of 12 "c AND 0xFFF"] by (simp add: bit_low)
  moreover have "golay (c AND 0xFFF) = c"
    by (rule codeword_same_data) (simp_all add: golay_codeword golay_data assms and.assoc)
  ultimately show ?thesis by (simp add: codeword_def fits_rot)
qed

lemma codeword_rots: "codeword c \<Longrightarrow> codeword ((rot ^^ i) c)"
  by (induction i) (simp_all add: codeword_rot)

section \<open>The distance between codewords\<close>

definition wt :: "u32 \<Rightarrow> nat" where
  "wt a = card {k. bit a k}"

lemma finite_bits: "finite {k. bit a k}" for a :: u32
  by (rule finite_subset [of _ "{..<32}"]) (auto simp: bit_imp_le_length dest: bit_imp_le_length)

lemma wt_xor: "wt (a XOR b) \<le> wt a + wt b"
proof -
  have "{k. bit (a XOR b) k} \<subseteq> {k. bit a k} \<union> {k. bit b k}" by (auto simp: bit_xor_iff)
  then have "wt (a XOR b) \<le> card ({k. bit a k} \<union> {k. bit b k})" unfolding wt_def by (intro card_mono) (simp_all add: finite_bits)
  then show ?thesis using card_Un_le [of "{k. bit a k}" "{k. bit b k}"] by (simp add: wt_def)
qed

lemma wt_0: "wt a = 0 \<longleftrightarrow> a = 0"
proof -
  have "wt a = 0 \<longleftrightarrow> {k. bit a k} = {}" using finite_bits [of a] by (simp add: wt_def)
  then show ?thesis using bit_eqI [of a 0] by auto
qed

lemma wt_zero [simp]: "wt 0 = 0"
  by (simp add: wt_0)

lemma weight_nibble: "wgt ! unat (a AND 0xF) = card {k. k < 4 \<and> bit a k}" for a :: u32
proof -
  have one: "bit (if c then push_bit m 1 else 0 :: u32) n \<longleftrightarrow> c \<and> n = m \<and> m < 32" for c m n
    by (auto simp: bit_exp_iff)
  define r :: u32 where "r = (if bit a 0 then push_bit 0 1 else 0) OR (if bit a 1 then push_bit 1 1 else 0)
    OR (if bit a 2 then push_bit 2 1 else 0) OR (if bit a 3 then push_bit 3 1 else 0)"
  have m: "(0xF :: u32) = mask 4" by (simp add: mask_eq_exp_minus_1)
  have f: "bit (a AND 0xF) n \<longleftrightarrow> n < 4 \<and> bit a n" for n unfolding m by (auto simp: bit_and_iff bit_mask_iff bit_imp_possible_bit)
  have four: "n < 4 \<longleftrightarrow> n = 0 \<or> n = 1 \<or> n = 2 \<or> n = 3" for n :: nat by presburger
  have "bit r n \<longleftrightarrow> n < 4 \<and> bit a n" for n
    unfolding r_def bit_or_iff one four by auto
  then have "a AND 0xF = r" using f by (intro bit_eqI) simp
  moreover have "{k. k < 4 \<and> bit a k} = set (filter (bit a) [0, 1, 2, 3])" by (auto simp: four) (metis neq0_conv)
  then have "card {k. k < 4 \<and> bit a k} = length (filter (bit a) [0, 1, 2, 3])" using distinct_card [of "filter (bit a) [0, 1, 2, 3]"] by simp
  ultimately show ?thesis by (cases "bit a 0"; cases "bit a 1"; cases "bit a 2"; cases "bit a 3") (simp_all add: wgt_def r_def)
qed

lemma weight_loop_card: "weight_loop n a = card {k. k < 4 * n \<and> bit a k}"
proof (induction n arbitrary: a)
  case (Suc n)
  have "{k. k < 4 * Suc n \<and> bit a k} = {k. k < 4 \<and> bit a k} \<union> (\<lambda>k. k + 4) ` {k. k < 4 * n \<and> bit (drop_bit 4 a) k}"
    by (auto simp: bit_drop_bit_eq image_iff add.commute) (metis add.commute diff_add_inverse le_add_diff_inverse2 less_diff_conv2 not_le)
  moreover have "card ((\<lambda>k. k + 4) ` {k. k < 4 * n \<and> bit (drop_bit 4 a) k}) = weight_loop n (drop_bit 4 a)"
    unfolding Suc by (intro card_image) simp
  ultimately have "card {k. k < 4 * Suc n \<and> bit a k} = wgt ! unat (a AND 0xF) + weight_loop n (drop_bit 4 a)"
    unfolding weight_nibble using card_Un_disjoint [of "{k. k < 4 \<and> bit a k}" "(\<lambda>k. k + 4) ` {k. k < 4 * n \<and> bit (drop_bit 4 a) k}"] by auto
  moreover have "weight_loop n 0 = 0" by (cases n) simp_all
  ultimately show ?case by (simp add: wgt_def)
qed simp

lemma weight_wt:
  assumes "fits 23 a"
  shows "weight a = wt a"
proof -
  have "k < 23" if "bit a k" for k using fitsD [OF assms, of k] that not_le by blast
  then have "{k. k < 4 * 6 \<and> bit a k} = {k. bit a k}" by fastforce
  then show ?thesis by (simp only: weight_def weight_loop_card wt_def)
qed


text \<open>All combinations of the codewords of a list, as lists of bits, have at least seven ones.\<close>

fun at_least :: "nat \<Rightarrow> bool list \<Rightarrow> bool" where
  "at_least 0 xs = True"
| "at_least (Suc n) [] = False"
| "at_least (Suc n) (x # xs) = (if x then at_least n xs else at_least (Suc n) xs)"

fun xor_bits :: "bool list \<Rightarrow> bool list \<Rightarrow> bool list" where
  "xor_bits (x # xs) (y # ys) = (if x then \<not> y else y) # xor_bits xs ys"
| "xor_bits xs ys = []"

fun span_ok :: "bool list list \<Rightarrow> bool list \<Rightarrow> bool" where
  "span_ok [] acc = at_least 7 acc"
| "span_ok (b # bs) acc = (span_ok bs acc \<and> span_ok bs (xor_bits b acc))"

fun tails_ok :: "bool list list \<Rightarrow> bool" where
  "tails_ok [] = True"
| "tails_ok (b # bs) = (span_ok bs b \<and> tails_ok bs)"

fun low_bits :: "nat \<Rightarrow> int \<Rightarrow> bool list" where
  "low_bits 0 x = []"
| "low_bits (Suc n) x = (x mod 2 = 1) # low_bits n (x div 2)"

definition bits :: "u32 \<Rightarrow> bool list" where
  "bits a = map (bit a) [0..<23]"

lemma low_bits: "low_bits n x = map (bit x) [0..<n]"
proof (induction n arbitrary: x)
  case (Suc n)
  have "map (bit x) [0..<Suc n] = bit x 0 # map (bit x) (map Suc [0..<n])" by (simp only: upt_conv_Cons map_Suc_upt list.map zero_less_Suc)
  then show ?case using Suc by (simp add: bit_0 bit_Suc odd_iff_mod_2_eq_one)
qed simp

lemma at_least_length: "at_least n xs \<longleftrightarrow> n \<le> length (filter id xs)"
  by (induction n xs rule: at_least.induct) auto

lemma bits_xor: "bits (a XOR b) = xor_bits (bits a) (bits b)"
proof -
  have "xor_bits (map f ks) (map g ks) = map (\<lambda>k. f k \<noteq> g k) ks" for f g and ks :: "nat list" by (induction ks) auto
  then show ?thesis by (simp add: bits_def bit_xor_iff)
qed

lemma at_least_wt:
  assumes "at_least n (bits a)" shows "n \<le> wt a"
proof -
  have "length (filter id (bits a)) = card (set (filter (bit a) [0..<23]))"
    by (subst distinct_card) (simp_all add: bits_def filter_map comp_def)
  also have "\<dots> \<le> wt a" unfolding wt_def by (rule card_mono) (auto simp: finite_bits)
  finally show ?thesis using assms by (simp add: at_least_length)
qed

lemma basis_tails: "tails_ok (map bits golay_basis)"
proof -
  have "map bits golay_basis = map (low_bits 23) [0x2E3001, 0x5C6002, 0x16F004, 0x2DE008, 0x5BC010, 0x19B020, 0x336040, 0x66C080, 0x63B100,
     0x695200, 0x7C9400, 0x571800]"
    by (simp add: golay_basis_def bits_def low_bits)
  moreover have "tails_ok (map (low_bits 23) [0x2E3001, 0x5C6002, 0x16F004, 0x2DE008, 0x5BC010, 0x19B020, 0x336040, 0x66C080, 0x63B100,
     0x695200, 0x7C9400, 0x571800])" by code_simp
  ultimately show ?thesis by (simp only:)
qed

lemma span_ok_wt:
  assumes "n \<le> 12" and "span_ok (drop (12 - n) (map bits golay_basis)) (bits a)" and "codeword (a XOR c)" and "\<forall>k < 12 - n. \<not> bit (a XOR c) k"
  shows "7 \<le> wt c"
  using assms
proof (induction n arbitrary: a)
  case 0
  then have "upper (a XOR c)" by (simp add: upper_def codeword_def)
  then have "a = c" using syndrome_upper 0(3) by (auto simp: codeword_def xor_zero_iff)
  then show ?case using 0(2) at_least_wt [of 7 a] by (simp add: length_basis)
next
  case (Suc n)
  define k where "k = 12 - Suc n"
  define g where "g = golay_basis ! k"
  have k: "k < 12" "12 - n = Suc k" "12 - Suc n = k" using Suc.prems(1) by (simp_all add: k_def)
  have g: "codeword g" and data: "bit g i \<longleftrightarrow> i = k" if "i < 12" for i
    using golay_basis [OF k(1)] golay_codeword [of "push_bit k 1"] bit_low(1) [of g i] bit_low(1) [of "push_bit k 1" i] golay_data [of "push_bit k 1"] that
    by (auto simp: g_def bit_exp_iff)
  have "drop k (map bits golay_basis) = bits g # drop (Suc k) (map bits golay_basis)"
    using k(1) by (simp add: g_def length_basis Cons_nth_drop_Suc [symmetric])
  then have s: "span_ok (drop (12 - n) (map bits golay_basis)) (bits a)" "span_ok (drop (12 - n) (map bits golay_basis)) (bits (g XOR a))"
    using Suc.prems(2) k by (simp_all add: bits_xor)
  show ?case
  proof (cases "bit (a XOR c) k")
    case False
    then have "\<forall>i < 12 - n. \<not> bit (a XOR c) i" using Suc.prems(4) unfolding k by (auto simp: less_Suc_eq)
    then show ?thesis using Suc.IH [OF _ s(1) Suc.prems(3)] Suc.prems(1) by simp
  next
    case True
    have "codeword ((g XOR a) XOR c)" using codeword_xor [OF g Suc.prems(3)] k(1) by (auto simp: xor.assoc)
    moreover have "\<forall>i < 12 - n. \<not> bit ((g XOR a) XOR c) i"
      using Suc.prems(4) True data k unfolding k by (auto simp: less_Suc_eq bit_xor_iff)
    ultimately show ?thesis using Suc.IH [OF _ s(2)] Suc.prems(1) by simp
  qed
qed

lemma tails_ok_nth: "tails_ok xs \<Longrightarrow> k < length xs \<Longrightarrow> span_ok (drop (Suc k) xs) (xs ! k)"
  by (induction xs arbitrary: k) (auto simp: nth_Cons split: nat.splits)

lemma min_distance:
  assumes c: "codeword c" and "c \<noteq> 0"
  shows "7 \<le> wt c"
proof -
  have "\<exists>k < 12. bit c k"
  proof (rule ccontr)
    assume "\<not> (\<exists>k < 12. bit c k)"
    then have "upper c" using c by (simp add: upper_def codeword_def)
    then show False using syndrome_upper c assms(2) by (simp add: codeword_def)
  qed
  then obtain k where k: "k < 12" "bit c k" and low: "\<And>i. i < k \<Longrightarrow> \<not> bit c i"
    using exists_least_iff [of "\<lambda>k. k < 12 \<and> bit c k"] by (metis less_trans)
  define g where "g = golay (push_bit k 1)"
  have g: "g = golay_basis ! k" using golay_basis [OF k(1)] by (simp add: g_def)
  have data: "bit g i \<longleftrightarrow> i = k" if "i < 12" for i
    using bit_low(1) [of g i] bit_low(1) [of "push_bit k 1" i] golay_data [of "push_bit k 1"] that by (auto simp: g_def bit_exp_iff)
  have n: "12 - (11 - k) = Suc k" using k(1) by simp
  show ?thesis
  proof (rule span_ok_wt [of "11 - k" g])
    show "span_ok (drop (12 - (11 - k)) (map bits golay_basis)) (bits g)"
      unfolding n g using tails_ok_nth [OF basis_tails, of k] k(1) by (simp add: length_basis)
    show "codeword (g XOR c)" using codeword_xor golay_codeword c by (simp add: g_def)
    show "\<forall>i < 12 - (11 - k). \<not> bit (g XOR c) i" unfolding n using data k low by (auto simp: less_Suc_eq bit_xor_iff)
  qed simp
qed

lemma codewords_apart:
  assumes "codeword a" and "codeword b" and "wt (x XOR a) \<le> 3" and "wt (x XOR b) \<le> 3"
  shows "a = b"
proof (rule ccontr)
  assume "a \<noteq> b"
  then have "7 \<le> wt (a XOR b)" using min_distance codeword_xor [OF assms(1,2)] by (simp add: xor_zero_iff)
  moreover have "a XOR b = (x XOR a) XOR (x XOR b)" by (rule bit_eqI) (auto simp: bit_xor_iff)
  ultimately show False using wt_xor [of "x XOR a" "x XOR b"] assms(3,4) by simp
qed

section \<open>The loops of the decoder\<close>

lemma wt_rot:
  assumes "fits 23 a"
  shows "wt (rot a) = wt a"
proof -
  let ?f = "\<lambda>k. if k = 22 then 0 else Suc k"
  have small: "k < 23" if "bit a k" for k using fitsD [OF assms, of k] that not_le by blast
  have im: "{k. bit (rot a) k} = ?f ` {k. bit a k}"
  proof (rule set_eqI)
    fix k
    show "k \<in> {k. bit (rot a) k} \<longleftrightarrow> k \<in> ?f ` {k. bit a k}"
      using small bit_rot [OF assms, of k] by (cases k) (auto simp: image_iff dest: small)
  qed
  show ?thesis unfolding wt_def im by (rule card_image) (auto simp: inj_on_def split: if_splits)
qed

lemma wt_rots: "fits 23 a \<Longrightarrow> wt ((rot ^^ i) a) = wt a"
  by (induction i) (simp_all add: wt_rot rots_fits)

lemma rot_full: 
  assumes "fits 23 a"
  shows "(rot ^^ 23) a = a"
proof (rule bit_eqI)
  fix k
  show "bit ((rot ^^ 23) a) k = bit a k"
  proof (cases "k < 23")
    case True
    then show ?thesis using bit_rots [OF assms True, of 23] by simp
  next
    case False
    then show ?thesis using fitsD [OF assms, of k] fitsD [OF rots_fits [OF assms, of 23], of k] by simp
  qed
qed

lemma rot_back: "fits 23 a \<Longrightarrow> m \<le> 23 \<Longrightarrow> (rot ^^ m) ((rot ^^ (23 - m)) a) = a"
  using rot_full [of a] by (simp flip: funpow_add comp_apply [of "rot ^^ m"])

lemma rotate_right_rot: 
  assumes "fits 23 a"
  shows "rotate_right_step (rot a) = a"
proof (rule bit_eqI)
  fix k
  have lt: "bit a k \<Longrightarrow> k < 22 \<or> k = 22" using fitsD [OF assms, of k] by fastforce
  have "(rot a) AND 1 \<noteq> 0 \<longleftrightarrow> bit (rot a) 0" by (simp add: bit_0 and_one_eq mod_2_eq_odd)
  moreover have m: "(0x400000 :: u32) = push_bit 22 1" by simp
  have "bit (0x400000 :: u32) k \<longleftrightarrow> k = 22" unfolding m by (auto simp: bit_push_bit_iff bit_1_iff simp del: push_bit_of_1)
  ultimately show "bit (rotate_right_step (rot a)) k = bit a k"
    using lt by (auto simp: rotate_right_step_def bit_or_iff bit_drop_bit_eq bit_rot [OF assms])
qed

lemma rotate_right_rots: "fits 23 a \<Longrightarrow> rotate_right ((rot ^^ m) a) m = a"
proof -
  assume a: "fits 23 a"
  have "(rotate_right_step ^^ m) ((rot ^^ m) a) = a"
  proof (induction m)
    case (Suc m)
    have "(rotate_right_step ^^ Suc m) (rot ((rot ^^ m) a)) = (rotate_right_step ^^ m) (rotate_right_step (rot ((rot ^^ m) a)))"
      by (simp only: funpow_Suc_right comp_apply)
    then show ?case using Suc rotate_right_rot [OF rots_fits [OF a]] by simp
  qed simp
  then show ?thesis by (simp add: rotate_right_def fits_and_id(2) a)
qed

text \<open>Removing the syndrome of a rotated word and rotating back gives a codeword.\<close>

lemma shift_decodes:
  assumes a: "fits 23 a" and "m \<le> 23"
  defines "s \<equiv> syndrome ((rot ^^ m) a)"
  shows "codeword (rotate_right ((rot ^^ m) a XOR s) m) \<and> wt (a XOR rotate_right ((rot ^^ m) a XOR s) m) = weight s"
proof -
  define t where "t = (rot ^^ (23 - m)) s"
  have s: "upper s" "fits 23 s" using upper_syndrome by (simp_all add: s_def upper_def)
  have t: "fits 23 t" "(rot ^^ m) t = s" using rots_fits [OF s(2)] rot_back [OF s(2) assms(2)] by (simp_all add: t_def)
  have eq: "(rot ^^ m) a XOR s = (rot ^^ m) (a XOR t)" using rots_xor [OF a t(1)] t(2) by simp
  have "codeword ((rot ^^ m) (a XOR t))"
    using s syndrome_upper [OF s(1)] rots_fits [OF a] by (auto simp: codeword_def syndrome_xor s_def simp flip: eq)
  then have "codeword ((rot ^^ (23 - m)) ((rot ^^ m) (a XOR t)))" by (rule codeword_rots)
  moreover have "(rot ^^ (23 - m)) ((rot ^^ m) (a XOR t)) = a XOR t"
    using rot_back [of "a XOR t" "23 - m"] fits_xor [OF a t(1)] assms(2) by simp
  moreover have "rotate_right ((rot ^^ m) a XOR s) m = a XOR t" unfolding eq by (rule rotate_right_rots) (use a t in auto)
  moreover have "wt t = weight s" using wt_rots [OF s(2)] weight_wt [OF s(2)] by (simp add: t_def)
  ultimately show ?thesis by (simp flip: xor.assoc)
qed

lemma try_shifts_result:
  assumes "fits 23 a"
  shows "case try_shifts n i w a (syndrome a) errs of
      Inl r \<Rightarrow> \<exists>m < n. weight (syndrome ((rot ^^ m) a)) \<le> w \<and> snd r = weight (syndrome ((rot ^^ m) a))
        \<and> fst r = rotate_right ((rot ^^ m) a XOR syndrome ((rot ^^ m) a)) (i + m)
    | Inr e \<Rightarrow> (\<forall>m < n. w < weight (syndrome ((rot ^^ m) a))) \<and> (0 < n \<longrightarrow> w < e)"
  using assms
proof (induction n arbitrary: i a errs)
  case (Suc n)
  show ?case
  proof (cases "weight (syndrome a) \<le> w")
    case True
    then show ?thesis by (auto intro!: exI [of _ 0])
  next
    case False
    have eq: "try_shifts (Suc n) i w a (syndrome a) errs = try_shifts n (Suc i) w (rot a) (syndrome (rot a)) (weight (syndrome a))"
      using False by (simp add: Let_def rot_def)
    show ?thesis
    proof (cases "try_shifts n (Suc i) w (rot a) (syndrome (rot a)) (weight (syndrome a))")
      case (Inl r)
      then obtain m where "m < n" "weight (syndrome ((rot ^^ Suc m) a)) \<le> w" "snd r = weight (syndrome ((rot ^^ Suc m) a))"
          "fst r = rotate_right ((rot ^^ Suc m) a XOR syndrome ((rot ^^ Suc m) a)) (i + Suc m)"
        using Suc.IH [OF fits_rot [of a], of "Suc i" "weight (syndrome a)"] by (auto simp: funpow_swap1)
      then show ?thesis unfolding eq Inl sum.case by (intro exI [of _ "Suc m"]) simp
    next
      case (Inr e)
      have "w < weight (syndrome ((rot ^^ m) a))" if "m < Suc n" for m
        using Suc.IH [OF fits_rot [of a], of "Suc i" "weight (syndrome a)"] False that Inr by (cases m) (auto simp: funpow_swap1)
      moreover have "w < e"
        using Suc.IH [OF fits_rot [of a], of "Suc i" "weight (syndrome a)"] False Inr by (cases n) (auto simp: Let_def)
      ultimately show ?thesis unfolding eq Inr by simp
    qed
  qed
qed simp

text \<open>Of up to three places in a circle of 23, all but one lie within eleven neighbouring ones.\<close>

lemma two_places:
  fixes a b :: nat
  assumes "a < 23" and "b < 23" and "b - a \<le> 10" and "a \<le> b"
  shows "\<exists>m < 23. 12 \<le> (a + m) mod 23 \<and> 12 \<le> (b + m) mod 23"
proof (intro exI [of _ "(35 - a) mod 23"] conjI)
  have "(a + (35 - a) mod 23) mod 23 = (a + (35 - a)) mod 23" "(b + (35 - a) mod 23) mod 23 = (b + (35 - a)) mod 23" by (simp_all add: mod_add_right_eq)
  moreover have "a + (35 - a) = 23 + 12" "b + (35 - a) = 23 + (12 + (b - a))" "12 + (b - a) < 23" using assms by simp_all
  ultimately show "12 \<le> (a + (35 - a) mod 23) mod 23" "12 \<le> (b + (35 - a) mod 23) mod 23" by (simp_all only: mod_add_self1 mod_less)
qed simp

lemma two_places_round:
  fixes a b :: nat
  assumes "a < 23" and "b < 23" and "13 \<le> b - a"
  shows "\<exists>m < 23. 12 \<le> (a + m) mod 23 \<and> 12 \<le> (b + m) mod 23"
proof (intro exI [of _ "35 - b"] conjI)
  have "a + (35 - b) = 12 + (23 - (b - a))" "12 + (23 - (b - a)) < 23" "b + (35 - b) = 23 + 12" using assms by simp_all
  then show "12 \<le> (a + (35 - b)) mod 23" "12 \<le> (b + (35 - b)) mod 23" by (simp_all only: mod_less mod_add_self1)
  show "35 - b < 23" using assms by simp
qed

lemma close_places:
  assumes "E \<subseteq> {..<23 :: nat}" and "E \<noteq> {}" and "card E \<le> 3"
  shows "\<exists>x \<in> E. \<exists>m < 23. \<forall>k \<in> E - {x}. 12 \<le> (k + m) mod 23"
proof -
  have fin: "finite E" using assms(1) finite_subset by blast
  have pair: "\<exists>m < 23. 12 \<le> (a + m) mod 23 \<and> 12 \<le> (b + m) mod 23" if "a < 23" "b < 23" "b - a \<le> 10 \<or> 13 \<le> b - a" "a \<le> b" for a b :: nat
    using that two_places two_places_round by blast
  have "card E = 1 \<or> card E = 2 \<or> card E = 3" using assms fin by (metis One_nat_def Suc_1 card_0_eq le_SucE numeral_3_eq_3 le_zero_eq)
  then show ?thesis
  proof (elim disjE)
    assume "card E = 1"
    then obtain a where "E = {a}" by (rule card_1_singletonE)
    then show ?thesis by (auto intro!: exI [of _ 0])
  next
    assume "card E = 2"
    then obtain a b where E: "E = {a, b}" by (auto simp: card_2_iff)
    then obtain m where "m < 23" "12 \<le> (a + m) mod 23" using pair [of a a] assms(1) by auto
    then show ?thesis unfolding E by (intro bexI [of _ b] exI [of _ m]) auto
  next
    assume c3: "card E = 3"
    define a where "a = Min E"
    define c where "c = Max E"
    have ac: "a \<in> E" "c \<in> E" "\<forall>x \<in> E. a \<le> x \<and> x \<le> c" using fin assms(2) by (simp_all add: a_def c_def)
    then have "E \<subseteq> {a}" if "a = c" using that by auto
    then have "a \<noteq> c" using c3 card_mono [of "{a}" E] by auto
    then have "card (E - {a, c}) = 1" using c3 ac(1,2) fin by (simp add: card_Diff_subset)
    then obtain b where b: "E - {a, c} = {b}" by (rule card_1_singletonE)
    then have E: "E = {a, b, c}" "a \<le> b" "b \<le> c" "c < 23" using ac assms(1) by auto
    consider "b - a \<le> 10" | "c - b \<le> 10" | "13 \<le> c - a" using E by linarith
    then show ?thesis
    proof cases
      case 1
      then obtain m where "m < 23" "12 \<le> (a + m) mod 23" "12 \<le> (b + m) mod 23" using pair [of a b] E by auto
      then show ?thesis unfolding E(1) by (intro bexI [of _ c] exI [of _ m]) auto
    next
      case 2
      then obtain m where "m < 23" "12 \<le> (b + m) mod 23" "12 \<le> (c + m) mod 23" using pair [of b c] E by auto
      then show ?thesis unfolding E(1) by (intro bexI [of _ a] exI [of _ m]) auto
    next
      case 3
      then obtain m where "m < 23" "12 \<le> (a + m) mod 23" "12 \<le> (c + m) mod 23" using pair [of a c] E by auto
      then show ?thesis unfolding E(1) by (intro bexI [of _ b] exI [of _ m]) auto
    qed
  qed
qed

lemma flipped_found:
  assumes a: "fits 23 a" and c: "codeword c" and w: "wt (a XOR c) \<le> 3" and "a \<noteq> c"
  shows "\<exists>j < 23. \<exists>m < 23. weight (syndrome ((rot ^^ m) (a XOR push_bit j 1))) \<le> 2"
proof -
  define e where "e = a XOR c"
  have fe: "fits 23 e" using a c by (auto simp: e_def codeword_def)
  then have lt: "k < 23" if "bit e k" for k using fitsD [OF fe, of k] that not_le by blast
  have "e \<noteq> 0" using assms(4) by (simp add: e_def xor_zero_iff)
  then have "{k. bit e k} \<noteq> {}" using bit_eqI [of e 0] by auto
  then obtain x m where x: "bit e x" and m: "m < 23" "\<forall>k \<in> {k. bit e k} - {x}. 12 \<le> (k + m) mod 23"
    using close_places [of "{k. bit e k}"] lt w by (auto simp: e_def wt_def)
  define u where "u = e XOR push_bit x 1"
  have bu: "bit u k \<longleftrightarrow> bit e k \<and> k \<noteq> x" for k
    using x lt [of x] bit_imp_le_length [of e x] by (auto simp: u_def bit_xor_iff bit_exp_iff)
  have fu: "fits 23 u" using fe by (simp add: fits_def bu)
  have "\<not> bit ((rot ^^ m) u) q" if "q < 12" for q
  proof -
    define k where "k = (q + (23 - m)) mod 23"
    have "(k + m) mod 23 = (q + 23) mod 23" unfolding k_def mod_add_left_eq using m(1) by simp
    then have k: "k < 23" "(k + m) mod 23 = q" using that by (simp_all add: k_def)
    have "12 \<le> q" if "bit u k" using bspec [OF m(2), of k] bu [of k] that k(2) by simp
    then show ?thesis using bit_rots [OF fu k(1), of m] m(1) k(2) that by auto
  qed
  then have up: "upper ((rot ^^ m) u)" using rots_fits [OF fu] by (simp add: upper_def)
  have eq: "a XOR push_bit x 1 = c XOR u" unfolding u_def e_def by (rule bit_eqI) (auto simp: bit_xor_iff)
  have fc: "fits 23 c" using c by (simp add: codeword_def)
  have "syndrome ((rot ^^ m) (a XOR push_bit x 1)) = (rot ^^ m) u"
    unfolding eq rots_xor [OF fc fu] syndrome_xor syndrome_upper [OF up] using codeword_rots [OF c] by (simp add: codeword_def)
  moreover have "wt u \<le> 2"
  proof -
    have "{k. bit u k} = {k. bit e k} - {x}" by (auto simp: bu)
    then show ?thesis using x w card_Diff_singleton [of x "{k. bit e k}"] by (simp add: wt_def e_def)
  qed
  ultimately show ?thesis using m(1) lt [OF x] weight_wt [OF rots_fits [OF fu]] wt_rots [OF fu] by (metis (no_types))
qed

definition flip :: "u32 \<Rightarrow> int \<Rightarrow> u32" where
  "flip a j = (if j = - 1 then a else a XOR push_bit (nat j) 1)"

lemma fits_push: "j < 23 \<Longrightarrow> fits 23 (push_bit j 1)"
  by (auto simp: fits_def bit_exp_iff)

lemma fits_flip: "fits 23 a \<Longrightarrow> j < 23 \<Longrightarrow> - 1 \<le> j \<Longrightarrow> fits 23 (flip a j)"
  using fits_push [of "nat j"] by (auto simp: flip_def)

lemma wt_push: "wt (push_bit j 1) \<le> 1"
proof -
  have "{k. bit (push_bit j 1 :: u32) k} \<subseteq> {j}" by (auto simp: bit_exp_iff)
  then show ?thesis unfolding wt_def using card_mono [of "{j}"] by fastforce
qed

lemma trial_found:
  assumes a: "fits 23 a" and j: "- 1 \<le> j" "j < 23" and t: "try_shifts 23 0 (if j = - 1 then 3 else 2) (flip a j) (syndrome (flip a j)) errs = Inl (r, e)"
    and s: "syndrome (flip a j) \<noteq> 0"
  shows "codeword r \<and> wt (a XOR r) \<le> 3 \<and> 0 < e"
proof -
  let ?x = "flip a j"
  have fx: "fits 23 ?x" by (rule fits_flip [OF a j(2,1)])
  obtain m where m: "m < 23" "weight (syndrome ((rot ^^ m) ?x)) \<le> (if j = - 1 then 3 else 2)" "e = weight (syndrome ((rot ^^ m) ?x))"
      "r = rotate_right ((rot ^^ m) ?x XOR syndrome ((rot ^^ m) ?x)) m"
    using try_shifts_result [OF fx, of 23 "if j = - 1 then 3 else 2" 0 errs] t by auto
  have r: "codeword r" "wt (?x XOR r) = e" using shift_decodes [OF fx, of m] m by simp_all
  have "0 < e"
  proof (rule ccontr)
    assume "\<not> 0 < e"
    then have "r = ?x" using r(2) by (simp add: wt_0 xor_zero_iff)
    then show False using r(1) s by (simp add: codeword_def)
  qed
  moreover have "wt (a XOR r) \<le> 3"
  proof (cases "j = - 1")
    case True
    then show ?thesis using r(2) m by (simp add: flip_def)
  next
    case False
    have "a XOR r = push_bit (nat j) 1 XOR (?x XOR r)" using False by (intro bit_eqI) (auto simp: flip_def bit_xor_iff)
    then show ?thesis using wt_xor [of "push_bit (nat j) 1" "?x XOR r"] wt_push [of "nat j"] r(2) m False by simp
  qed
  ultimately show ?thesis using r(1) by simp
qed

text \<open>The loop over the trial bits finds a codeword when one of the bits that are left leads to one.\<close>

lemma correct_loop_result:
  assumes a: "fits 23 a" and hit: "j0 < 23" "m < 23" "weight (syndrome ((rot ^^ m) (a XOR push_bit j0 1))) \<le> 2"
    and "- 1 \<le> j" and "j \<le> int j0" and "j = - 1 \<Longrightarrow> cw = a \<and> w = 3" and "0 \<le> j \<Longrightarrow> 0 < errs" and "syndrome a \<noteq> 0"
    and "msk = (if j \<le> 1 then 1 else push_bit (nat (j - 1)) 1)"
  shows "codeword (fst (correct_loop a j cw msk w errs)) \<and> wt (a XOR fst (correct_loop a j cw msk w errs)) \<le> 3 \<and> 0 < snd (correct_loop a j cw msk w errs)"
  using assms(5-)
proof (induction "nat (int j0 - j)" arbitrary: j cw msk w errs rule: less_induct)
  case less
  let ?msk = "if j > 0 then msk + msk else msk" and ?w = "if j = - 1 then 3 else 2 :: nat"
  have j23: "j < 23" using less.prems(2) hit(1) by simp
  have "push_bit (nat j) 1 = push_bit (nat (j - 1)) 1 + push_bit (nat (j - 1)) (1 :: u32)" if "0 < j"
  proof -
    have "nat j = Suc (nat (j - 1))" using that by simp
    then show ?thesis by simp
  qed
  then have msk: "?msk = push_bit (nat j) 1" if "0 \<le> j" using less.prems(6) that by (cases "j = 0"; cases "j = 1") auto
  then have cw: "(if j \<noteq> - 1 then a XOR ?msk else cw) = flip a j" "(if j \<noteq> - 1 then 2 else w) = ?w"
    using less.prems(1,3) by (auto simp: flip_def)
  have eq: "correct_loop a j cw msk w errs = (if syndrome (flip a j) \<noteq> 0
      then case try_shifts 23 0 ?w (flip a j) (syndrome (flip a j)) errs of
             Inl r \<Rightarrow> r | Inr errs \<Rightarrow> correct_loop a (j + 1) (flip a j) ?msk ?w errs
      else (flip a j, errs))"
    using j23 unfolding correct_loop.simps [of a j] Let_def cw by simp
  show ?case
  proof (cases "syndrome (flip a j) = 0")
    case True
    then have "j \<noteq> - 1" using less.prems(5) by (auto simp: flip_def)
    moreover have "a XOR flip a j = push_bit (nat j) 1" using \<open>j \<noteq> - 1\<close> by (intro bit_eqI) (auto simp: flip_def bit_xor_iff)
    ultimately show ?thesis
      using True eq less.prems(1,4) fits_flip [OF a j23 less.prems(1)] wt_push [of "nat j"] by (simp add: codeword_def)
  next
    case s: False
    show ?thesis
    proof (cases "try_shifts 23 0 ?w (flip a j) (syndrome (flip a j)) errs")
      case (Inl r)
      then show ?thesis using trial_found [OF a less.prems(1) j23 _ s, of errs "fst r" "snd r"] eq s by simp
    next
      case (Inr e)
      have none: "\<forall>m < 23. ?w < weight (syndrome ((rot ^^ m) (flip a j)))" "?w < e"
        using try_shifts_result [OF fits_flip [OF a j23 less.prems(1)], of 23 ?w 0 errs] Inr by auto
      have "j \<noteq> int j0" using none(1) hit(2,3) by (auto simp: flip_def)
      then have "j < int j0" using less.prems(2) by simp
      moreover have "?msk = (if j + 1 \<le> 1 then 1 else push_bit (nat (j + 1 - 1)) 1)" using msk less.prems(1,6) by (cases "j = 0") auto
      ultimately show ?thesis
        using less.hyps [of "j + 1" "flip a j" ?w e ?msk] less.prems(1,5) none(2) eq s Inr by simp
    qed
  qed
qed

lemma correct_near:
  assumes a: "fits 23 a" and c: "codeword c" "wt (a XOR c) \<le> 3"
  shows "fst (correct a) = c \<and> (snd (correct a) = 0 \<longleftrightarrow> a = c)"
proof (cases "syndrome a = 0")
  case True
  then have "codeword a" using a by (simp add: codeword_def)
  then have "a = c" using codewords_apart [OF _ c(1), of a a] c(2) by (simp add: wt_0)
  then show ?thesis using True by (simp add: correct_def correct_loop.simps [of c "- 1"] Let_def)
next
  case False
  then have "a \<noteq> c" using c by (auto simp: codeword_def)
  then obtain j m where "j < 23" "m < 23" "weight (syndrome ((rot ^^ m) (a XOR push_bit j 1))) \<le> 2"
    using flipped_found [OF a c] by blast
  from correct_loop_result [OF a this, of "- 1" a 3 0 1] False
  have r: "codeword (fst (correct a))" "wt (a XOR fst (correct a)) \<le> 3" "0 < snd (correct a)" by (simp_all add: correct_def)
  then show ?thesis using codewords_apart [OF r(1) c(1), of a] c(2) \<open>a \<noteq> c\<close> by simp
qed

section \<open>The code is perfect\<close>

lemma card_low: "card {v. fits 11 v} \<le> 2048"
proof -
  have "unat v < 2 ^ 11" if "fits 11 v" for v
  proof -
    have "take_bit 11 v = v" using that leI by (intro bit_eqI) (auto simp: bit_take_bit_iff fits_def)
    then have "unat v = unat (take_bit 11 v)" by simp
    also have "\<dots> < 2 ^ 11" using take_bit_nat_less_exp [of 11 "unat v"] by (simp add: unsigned_take_bit_eq)
    finally show ?thesis .
  qed
  then have "{v. fits 11 v} \<subseteq> word_of_nat ` {..<2048 :: nat}" by (auto intro!: image_eqI [of _ _ "unat v" for v])
  then show ?thesis using surj_card_le [of "{..<2048 :: nat}" "{v. fits 11 v}" word_of_nat] by simp
qed

lemma card_upper: "finite {u. upper u}" "card {u. upper u} \<le> 2048"
proof -
  show "finite {u. upper u}" by simp
  have "{u. upper u} \<subseteq> push_bit 12 ` {v. fits 11 v}" using upper_shift by auto
  then show "card {u. upper u} \<le> 2048" using card_low surj_card_le [of "{v. fits 11 v}" "{u. upper u}" "push_bit 12"] by simp
qed

text \<open>There are as many sets of up to three of the 23 bits as there are syndromes.\<close>

lemma few_choices: "(\<Sum>k \<le> 3. 23 choose k) = (2048 :: nat)"
proof -
  have two: "(23 choose 2) = (253 :: nat)" "(22 choose 2) = (231 :: nat)" by (simp_all add: choose_two)
  have "Suc 22 * (22 choose 2) = (Suc 22 choose Suc 2) * Suc 2" by (rule Suc_times_binomial_eq)
  moreover have "Suc 22 = 23" "Suc 2 = 3" by simp_all
  ultimately have three: "(23 choose 3) = (1771 :: nat)" using two(2) by (simp only:)
  have "{..3 :: nat} = {0, 1, 2, 3}" by (auto simp: atMost_def; presburger)
  then show ?thesis by (simp add: two three)
qed

lemma card_few: "card {E. E \<subseteq> {..<23 :: nat} \<and> card E \<le> 3} = 2048"
proof -
  have "{E. E \<subseteq> {..<23 :: nat} \<and> card E \<le> 3} = (\<Union>k \<in> {..3}. {E. E \<subseteq> {..<23} \<and> card E = k})" by auto
  moreover have "card (\<Union>k \<in> {..3}. {E. E \<subseteq> {..<23 :: nat} \<and> card E = k}) = (\<Sum>k \<le> 3. card {E. E \<subseteq> {..<23 :: nat} \<and> card E = k})"
    by (rule card_UN_disjoint) auto
  moreover have "(\<Sum>k \<le> 3. card {E. E \<subseteq> {..<23 :: nat} \<and> card E = k}) = (\<Sum>k \<le> 3. 23 choose k)" by (simp add: n_subsets)
  moreover have "(\<Sum>k \<le> 3. 23 choose k) = (2048 :: nat)" by (rule few_choices)
  ultimately show ?thesis by simp
qed

definition word_of_bits :: "nat set \<Rightarrow> u32" where
  "word_of_bits E = horner_sum of_bool 2 (map (\<lambda>k. k \<in> E) [0..<23])"

lemma bit_word_of_bits: "E \<subseteq> {..<23} \<Longrightarrow> {k. bit (word_of_bits E) k} = E"
  by (auto simp: word_of_bits_def bit_horner_sum_bit_word_iff)

definition few_errors :: "u32 set" where
  "few_errors = {e. fits 23 e \<and> wt e \<le> 3}"

lemma card_few_errors: "2048 \<le> card few_errors"
proof -
  let ?S = "{E. E \<subseteq> {..<23 :: nat} \<and> card E \<le> 3}"
  have "word_of_bits ` ?S \<subseteq> few_errors"
    using bit_word_of_bits by (auto simp: few_errors_def wt_def fits_def) (metis lessThan_iff mem_Collect_eq not_le subsetD)
  then have "card (word_of_bits ` ?S) \<le> card few_errors" by (intro card_mono) (simp_all add: few_errors_def)
  moreover have "inj_on word_of_bits ?S" by (rule inj_onI) (metis (mono_tags) bit_word_of_bits mem_Collect_eq)
  ultimately show ?thesis using card_few by (simp add: card_image)
qed

lemma syndrome_inj: "inj_on syndrome few_errors"
proof (rule inj_onI)
  fix x y assume "x \<in> few_errors" "y \<in> few_errors" "syndrome x = syndrome y"
  then have xy: "codeword (x XOR y)" "wt (x XOR y) \<le> 6" using wt_xor [of x y] by (auto simp: few_errors_def codeword_def syndrome_xor)
  then have "x XOR y = 0" using min_distance [OF xy(1)] by linarith
  then show "x = y" by (simp add: xor_zero_iff)
qed

lemma every_word_near:
  assumes "fits 23 a"
  shows "\<exists>c. codeword c \<and> wt (a XOR c) \<le> 3"
proof -
  have "syndrome ` few_errors = {u. upper u}"
    using card_seteq [OF card_upper(1), of "syndrome ` few_errors"] card_upper(2) card_few_errors card_image [OF syndrome_inj] upper_syndrome by auto
  then obtain e where e: "e \<in> few_errors" "syndrome a = syndrome e" using upper_syndrome [of a] by (metis (mono_tags) imageE mem_Collect_eq)
  have "a XOR (a XOR e) = e" by (simp flip: xor.assoc)
  moreover have "codeword (a XOR e)" using e assms by (auto simp: codeword_def syndrome_xor few_errors_def)
  ultimately show ?thesis using e(1) by (auto simp: few_errors_def intro!: exI [of _ "a XOR e"])
qed

text \<open>
  C33: Whatever 23 bits are received, \<^verbatim>\<open>correct\<close> finds the one codeword that differs from them in at most three bits (there always
  is exactly one), and reports no errors exactly when they were a codeword already; the \<^verbatim>\<open>return(cwsaver)\<close> at its end is never reached
  with something that is not a codeword.
\<close>

theorem golay_correct_nearest:
  assumes "cw AND 0x7FFFFF = cw"
  shows "syndrome (fst (correct cw)) = 0 \<and> fst (correct cw) AND 0x7FFFFF = fst (correct cw) \<and> weight (cw XOR fst (correct cw)) \<le> 3
     \<and> (\<forall>c. syndrome c = 0 \<and> c AND 0x7FFFFF = c \<and> weight (cw XOR c) \<le> 3 \<longrightarrow> c = fst (correct cw))
     \<and> (snd (correct cw) = 0 \<longleftrightarrow> syndrome cw = 0)"
proof -
  have fits: "fits 23 x \<longleftrightarrow> x AND 0x7FFFFF = x" for x using fits_and(2) [of x] fits_and_id(2) [of x] by auto
  have a: "fits 23 cw" using assms fits by simp
  obtain c where c: "codeword c" "wt (cw XOR c) \<le> 3" using every_word_near [OF a] by blast
  have fc: "fits 23 c" using c(1) by (simp add: codeword_def)
  note r = correct_near [OF a c]
  have "c' = c" if "syndrome c' = 0" "c' AND 0x7FFFFF = c'" "weight (cw XOR c') \<le> 3" for c'
    using codewords_apart [OF _ c(1) _ c(2), of c'] that fits weight_wt [OF fits_xor [OF a, of c']] by (simp add: codeword_def)
  moreover have "snd (correct cw) = 0 \<longleftrightarrow> syndrome cw = 0"
    using r c codewords_apart [of cw c cw] a by (auto simp: codeword_def wt_0)
  ultimately show ?thesis using r c fc weight_wt [OF fits_xor [OF a fc]] fits by (simp add: codeword_def)
qed

lemma weight_value: "weight a = (\<Sum>k \<leftarrow> [0, 4, 8, 12, 16, 20]. wgt ! unat (drop_bit k a AND 0xF))"
proof -
  have step: "weight_loop (Suc n) x = wgt ! unat (x AND 0xF) + weight_loop n (drop_bit 4 x)" for n x
    by (cases n) (auto simp: wgt_def)
  have "weight_loop (Suc (Suc (Suc (Suc (Suc (Suc 0)))))) a = (\<Sum>k \<leftarrow> [0, 4, 8, 12, 16, 20]. wgt ! unat (drop_bit k a AND 0xF))"
    unfolding step by simp
  then show ?thesis by (simp add: weight_def eval_nat_numeral del: weight_loop.simps)
qed

theorem golay_correct_nearest_witness:
  "(0x2E3800 :: u32) AND 0x7FFFFF = 0x2E3800 \<and> fst (correct 0x2E3800) = 0x2E3001"
proof -
  have h: "(0x2E3800 :: u32) AND 0x7FFFFF = 0x2E3800" by simp
  have "syndrome 0x2E3001 = 0" by (simp add: syndrome_def divide_step_values funpow12)
  moreover have "weight (0x2E3800 XOR 0x2E3001) \<le> 3" by (simp add: weight_value wgt_def)
  ultimately have "0x2E3001 = fst (correct 0x2E3800)"
    by (intro golay_correct_nearest [OF h, THEN conjunct2, THEN conjunct2, THEN conjunct2, THEN conjunct1, rule_format]) simp
  then show ?thesis using h by simp
qed

section \<open>The bytes\<close>

lemma bit_byte: "bit (ucast (x AND 0xFF) :: u8) k \<longleftrightarrow> k < 8 \<and> bit x k" for x :: u32
proof -
  have m: "(0xFF :: u32) = mask 8" by (simp add: mask_eq_exp_minus_1)
  show ?thesis unfolding m by (auto simp: bit_unsigned_iff bit_and_iff bit_mask_iff)
qed

lemma parity_xor: "parity (a XOR b) = parity a XOR parity b"
  by (simp only: parity_def Let_def and_xor drop_bit_xor unsigned_xor_eq xor.assoc xor.commute xor.left_commute)

lemma parity_top: "parity 0x800000 = 1"
  by (simp add: parity_def Let_def)

lemma parity_cases: "parity a = 0 \<or> parity a = 1"
proof -
  have "x AND 1 = 0 \<or> x AND 1 = 1" for x :: u8 by (simp add: and_one_eq mod_2_eq_odd)
  then show ?thesis unfolding parity_def Let_def by blast
qed

lemma bit_load24:
  "bit (load24 data) n \<longleftrightarrow> n < 24 \<and> bit (data ! (n div 8)) (n mod 8)"
proof -
  consider "n < 8" | "8 \<le> n" "n < 16" | "16 \<le> n" "n < 24" | "24 \<le> n" by linarith
  then show ?thesis
  proof cases
    case 1
    then show ?thesis by (simp add: load24_def bit_or_iff bit_push_bit_iff bit_unsigned_iff)
  next
    case 2
    then have "n div 8 = 1" "n mod 8 = n - 8" by (simp_all add: div_nat_eqI mod_if)
    then show ?thesis using 2 by (auto simp: load24_def bit_or_iff bit_push_bit_iff bit_unsigned_iff dest: bit_imp_le_length)
  next
    case 3
    then have "n div 8 = 2" "n mod 8 = n - 16" by (simp_all add: div_nat_eqI mod_if)
    then show ?thesis using 3 by (auto simp: load24_def bit_or_iff bit_push_bit_iff bit_unsigned_iff dest: bit_imp_le_length)
  next
    case 4
    then show ?thesis by (auto simp: load24_def bit_or_iff bit_push_bit_iff bit_unsigned_iff dest: bit_imp_le_length)
  qed
qed

lemma load24_bytes:
  assumes "\<And>k. 24 \<le> k \<Longrightarrow> \<not> bit x k"
  shows "load24 [ucast (x AND 0xFF), ucast (drop_bit 8 x AND 0xFF), ucast (drop_bit 16 x AND 0xFF)] = x"
proof (rule bit_eqI)
  fix n :: nat
  consider "n < 8" | "8 \<le> n" "n < 16" | "16 \<le> n" "n < 24" | "24 \<le> n" by linarith
  then show "bit (load24 [ucast (x AND 0xFF), ucast (drop_bit 8 x AND 0xFF), ucast (drop_bit 16 x AND 0xFF)]) n = bit x n"
  proof cases
    case 2
    then have "n div 8 = 1" "n mod 8 = n - 8" by (simp_all add: div_nat_eqI mod_if)
    then show ?thesis using 2 by (auto simp: bit_load24 bit_byte bit_drop_bit_eq)
  next
    case 3
    then have "n div 8 = 2" "n mod 8 = n - 16" by (simp_all add: div_nat_eqI mod_if)
    then show ?thesis using 3 by (auto simp: bit_load24 bit_byte bit_drop_bit_eq)
  qed (use assms in \<open>simp_all add: bit_load24 bit_byte\<close>)
qed

lemma load24_inj:
  assumes "length xs = 3" and "length ys = 3" and "load24 xs = load24 ys"
  shows "xs = ys"
proof (rule nth_equalityI)
  fix i assume "i < length xs"
  then have i: "i < 3" using assms(1) by simp
  show "xs ! i = ys ! i"
  proof (rule bit_word_eqI)
    fix k assume "k < LENGTH(8)"
    then have "8 * i + k < 24" "(8 * i + k) div 8 = i" "(8 * i + k) mod 8 = k" using i by simp_all
    then show "bit (xs ! i) k = bit (ys ! i) k" using arg_cong [OF assms(3), of "\<lambda>x. bit x (8 * i + k)"] by (simp add: bit_load24)
  qed
qed (use assms in simp)

lemma weight_wt24:
  assumes "fits 24 a"
  shows "weight a = wt a"
proof -
  have "k < 24" if "bit a k" for k using fitsD [OF assms, of k] that not_le by blast
  then have "{k. k < 4 * 6 \<and> bit a k} = {k. bit a k}" by fastforce
  then show ?thesis by (simp only: weight_def weight_loop_card wt_def)
qed

lemma top_bit: "bit (0x800000 :: int) k \<longleftrightarrow> k = 23" "bit (- 0x800001 :: int) k \<longleftrightarrow> k \<noteq> 23"
proof -
  have m: "(0x800000 :: int) = 2 ^ 23" "(- 0x800001 :: int) = NOT (2 ^ 23)" by simp_all
  show "bit (0x800000 :: int) k \<longleftrightarrow> k = 23" "bit (- 0x800001 :: int) k \<longleftrightarrow> k \<noteq> 23"
    unfolding m bit_not_iff bit_exp_iff by simp_all
qed

lemma or_top: "fits 23 c \<Longrightarrow> c OR 0x800000 = c XOR 0x800000"
  by (rule bit_eqI) (auto simp: bit_or_iff bit_xor_iff top_bit fits_def)

lemma parity_or_top: "fits 23 c \<Longrightarrow> parity (c OR 0x800000) \<noteq> 0 \<longleftrightarrow> parity c = 0"
  using parity_cases [of c] by (auto simp: or_top parity_xor parity_top)

lemma golay_encode_load:
  "load24 (golay_encode data) = (if parity (golay (load24 data)) \<noteq> 0 then golay (load24 data) OR 0x800000 else golay (load24 data))"
proof -
  have "fits 23 (golay (load24 data))" using golay_codeword by (simp add: codeword_def)
  then show ?thesis unfolding golay_encode_def Let_def by (intro load24_bytes) (auto simp: fits_def bit_or_iff top_bit split: if_splits)
qed

text \<open>
  C34: When at most three of the 24 bits that \<^verbatim>\<open>golay_encode\<close> produced were changed, \<^verbatim>\<open>golay_decode\<close> returns the 12 bits of data that were
  encoded, and it reports no error exactly when nothing was changed.
\<close>

theorem golay_decode_corrects:
  assumes "length rx = 3" and "weight (load24 rx XOR load24 (golay_encode data)) \<le> 3"
  shows "snd (golay_decode rx) = load24 data AND 0xFFF \<and> (fst (golay_decode rx) = 0 \<longleftrightarrow> rx = golay_encode data)"
proof -
  define x where "x = load24 rx"
  define c where "c = golay (load24 data)"
  define a where "a = x AND NOT 0x800000"
  define y where "y = load24 (golay_encode data)"
  have c: "codeword c" "fits 23 c" using golay_codeword [of "load24 data"] by (simp_all add: c_def codeword_def)
  have fx: "fits 24 x" "fits 24 y" by (auto simp: x_def y_def fits_def bit_load24)
  have ba: "bit a k \<longleftrightarrow> k \<noteq> 23 \<and> bit x k" for k using bit_imp_le_length [of x k] by (auto simp: a_def bit_and_iff bit_not_iff top_bit)
  have "\<not> bit a k" if "23 \<le> k" for k using fitsD [OF fx(1), of k] ba [of k] that by (cases "k = 23") auto
  then have fa: "fits 23 a" by (simp add: fits_def)
  have y: "y = (if parity c \<noteq> 0 then c OR 0x800000 else c)" using golay_encode_load [of data] by (simp only: y_def c_def)
  have by_: "bit y k \<longleftrightarrow> (if k = 23 then parity c \<noteq> 0 else bit c k)" for k using fitsD [OF c(2), of k] by (auto simp: y bit_or_iff top_bit)
  have "{k. bit (a XOR c) k} \<subseteq> {k. bit (x XOR y) k}" using fitsD [OF c(2), of 23] by (auto simp: bit_xor_iff ba by_)
  then have "wt (a XOR c) \<le> wt (x XOR y)" unfolding wt_def by (intro card_mono) (simp_all add: finite_bits)
  also have "\<dots> \<le> 3" using assms(2) weight_wt24 [OF fits_xor [OF fx]] by (simp add: x_def y_def)
  finally have r: "fst (correct a) = c" "snd (correct a) = 0 \<longleftrightarrow> a = c" using correct_near [OF fa c(1)] by simp_all
  have top: "x AND 0x800000 = (if bit x 23 then 0x800000 else 0)" by (rule bit_eqI) (auto simp: bit_and_iff top_bit)
  have data: "(c OR (x AND 0x800000)) AND 0xFFF = load24 data AND 0xFFF"
    using golay_data [of "load24 data"] by (auto intro!: bit_eqI simp: top bit_low bit_or_iff top_bit simp flip: c_def) (metis bit_low(1))+
  have par: "parity (c OR (x AND 0x800000)) \<noteq> 0 \<longleftrightarrow> bit x 23 \<noteq> bit y 23"
    using parity_or_top [OF c(2)] by (auto simp: top by_)
  have dec: "golay_decode rx = (snd (correct a) + (if parity (c OR (x AND 0x800000)) \<noteq> 0 then 1 else 0), (c OR (x AND 0x800000)) AND 0xFFF)"
    using r(1) unfolding golay_decode_def Let_def x_def [symmetric] a_def [symmetric] by (auto simp: case_prod_beta)
  have "a = c \<and> bit x 23 = bit y 23 \<longleftrightarrow> x = y"
  proof
    assume xy: "x = y"
    have "bit a k = bit c k" for k using fitsD [OF c(2), of 23] by (cases "k = 23") (simp_all add: ba by_ xy)
    then show "a = c \<and> bit x 23 = bit y 23" using xy by (auto intro: bit_eqI)
  next
    assume ac: "a = c \<and> bit x 23 = bit y 23"
    have "bit x k = bit y k" for k using ba [of k] by_ [of k] ac by (cases "k = 23") simp_all
    then show "x = y" by (auto intro: bit_eqI)
  qed
  moreover have "x = y \<longleftrightarrow> rx = golay_encode data"
    using load24_inj [OF assms(1), of "golay_encode data"] by (auto simp: x_def y_def golay_encode_def Let_def)
  ultimately show ?thesis using dec data par r(2) by auto
qed

theorem golay_decode_corrects_witness:
  "golay_encode [0x34, 0x12, 0] = [0x34, 0xD2, 0x3D] \<and> snd (golay_decode [0x35, 0xD2, 0x3E]) = 0x234"
proof -
  have l: "load24 [0x34, 0x12, 0] = 0x1234" by (simp add: load24_def)
  have g: "golay 0x1234 = 0x3DD234" by (simp add: golay_def divide_step_values funpow12)
  have e: "golay_encode [0x34, 0x12, 0] = [0x34, 0xD2, 0x3D]" by (simp add: golay_encode_def l g parity_def)
  have "load24 [0x35, 0xD2, 0x3E] XOR load24 [0x34, 0xD2, 0x3D] = 0x30001" by (simp add: load24_def)
  then have "weight (load24 [0x35, 0xD2, 0x3E] XOR load24 (golay_encode [0x34, 0x12, 0])) \<le> 3" by (simp add: e weight_value wgt_def)
  from golay_decode_corrects [OF _ this] e show ?thesis by (simp add: l)
qed

text \<open>
  What \<^verbatim>\<open>*errs\<close> does not count: the bit that was flipped on trial.  These two errors are corrected and reported as one.
\<close>

lemma try_shifts_numeral:
  "try_shifts (numeral n) i w cw s errs =
     (if weight s \<le> w then Inl (rotate_right (cw XOR s) i, weight s)
      else try_shifts (pred_numeral n) (i + 1) w (rotate_left cw 1) (syndrome (rotate_left cw 1)) (weight s))"
  by (simp add: numeral_eq_Suc Let_def)

lemma rotate_left_once: "rotate_left a (Suc 0) = rotate_left_step a AND 0x7FFFFF"
  by (simp add: rotate_left_def)

lemmas word_values = syndrome_def [of "numeral n" for n] weight_value [of "numeral n" for n] rotate_left_once [of "numeral n" for n]

lemma first_pass_fails: "try_shifts 23 0 3 0x1001 (syndrome 0x1001) 0 = Inr 5"
  by (simp add: try_shifts_numeral word_values divide_step_values funpow12 rotate_left_step_def wgt_def)

lemma golay_errors_uncounted: "weight 0x1001 = 2 \<and> correct 0x1001 = (0, 1)"
proof -
  have "syndrome 0x1001 \<noteq> 0" "syndrome 0x1000 = 0x1000" by (simp_all add: word_values divide_step_values funpow12)
  moreover have "weight 0x1000 = 1" "weight 0x1001 = 2" by (simp_all add: word_values wgt_def)
  moreover have "try_shifts 23 0 2 0x1000 0x1000 5 = Inl (0, 1)" using \<open>weight 0x1000 = 1\<close> by (simp add: try_shifts_numeral rotate_right_def)
  ultimately show ?thesis
    by (simp add: correct_def correct_loop.simps [of "0x1001" "- 1"] correct_loop.simps [of "0x1001" 0] Let_def first_pass_fails)
qed

end
