(* ===== verification/Mdp_Filter.thy ===== *)
theory Mdp_Filter
  imports Mesh_State "HOL-Library.Sublist"
begin

text \<open>
  The packet filter of \<^verbatim>\<open>mdp_filter.c\<close>: the rules, the decision on packets, the text of a rule, the cursor that
  buffers the rules file, the parser on top of it and the loading of the file.  Text is a list of characters.
  The buffer of the cursor is kept as it is in the source, because how much of the file it holds decides
  how far numbers are read.
\<close>

section \<open>Rules and decisions\<close>

definition PACKET_RULES_FILE_MAX_SIZE :: int where
  "PACKET_RULES_FILE_MAX_SIZE = 32 * 1024"

record mdp_portrange =
  port_first :: u32
  port_last :: u32

record packet_rule =
  local_subscriber :: "nat option"
  remote_subscriber :: "nat option"
  local_ports :: mdp_portrange
  remote_ports :: mdp_portrange
  rule_flags :: u8

definition zero_rule :: packet_rule where
  "zero_rule = \<lparr>local_subscriber = None, remote_subscriber = None, local_ports = \<lparr>port_first = 0, port_last = 0\<rparr>,
     remote_ports = \<lparr>port_first = 0, port_last = 0\<rparr>, rule_flags = 0\<rparr>"

definition RULE_DROP :: u8 where "RULE_DROP = 1"
definition RULE_INBOUND :: u8 where "RULE_INBOUND = 2"
definition RULE_OUTBOUND :: u8 where "RULE_OUTBOUND = 4"
definition RULE_LOCAL_PORT :: u8 where "RULE_LOCAL_PORT = 8"
definition RULE_REMOTE_PORT :: u8 where "RULE_REMOTE_PORT = 16"

record internal_mdp_header =
  mdp_source :: "nat option"
  source_port :: u32
  mdp_destination :: "nat option"
  destination_port :: u32
  mdp_ttl :: u8
  mdp_qos :: u8
  crypt_flags :: u8
  mdp_receive_interface :: "nat option"

definition flagged :: "packet_rule \<Rightarrow> u8 \<Rightarrow> bool" where
  "flagged rule f \<longleftrightarrow> rule_flags rule AND f \<noteq> 0"

fun allow_inbound_packet :: "packet_rule list \<Rightarrow> internal_mdp_header \<Rightarrow> bool" where
  "allow_inbound_packet [] header = True"
| "allow_inbound_packet (rule # rules) header =
     (if (flagged rule RULE_INBOUND
          \<and> (remote_subscriber rule = None \<or> mdp_source header = remote_subscriber rule)
          \<and> (\<not> flagged rule RULE_REMOTE_PORT
             \<or> (source_port header \<ge> port_first (remote_ports rule) \<and> source_port header \<le> port_last (remote_ports rule)))
          \<and> (local_subscriber rule = None \<or> mdp_destination header = local_subscriber rule)
          \<and> (\<not> flagged rule RULE_LOCAL_PORT
             \<or> (destination_port header \<ge> port_first (local_ports rule) \<and> destination_port header \<le> port_last (local_ports rule))))
         \<or> \<not> flagged rule (RULE_INBOUND OR RULE_OUTBOUND)
      then \<not> flagged rule RULE_DROP
      else allow_inbound_packet rules header)"

fun allow_outbound_packet :: "packet_rule list \<Rightarrow> internal_mdp_header \<Rightarrow> bool" where
  "allow_outbound_packet [] header = True"
| "allow_outbound_packet (rule # rules) header =
     (if (flagged rule RULE_OUTBOUND
          \<and> (remote_subscriber rule = None \<or> mdp_destination header = remote_subscriber rule)
          \<and> (\<not> flagged rule RULE_REMOTE_PORT
             \<or> (destination_port header \<ge> port_first (remote_ports rule) \<and> destination_port header \<le> port_last (remote_ports rule)))
          \<and> (local_subscriber rule = None \<or> mdp_source header = local_subscriber rule)
          \<and> (\<not> flagged rule RULE_LOCAL_PORT
             \<or> (source_port header \<ge> port_first (local_ports rule) \<and> source_port header \<le> port_last (local_ports rule))))
         \<or> \<not> flagged rule (RULE_INBOUND OR RULE_OUTBOUND)
      then \<not> flagged rule RULE_DROP
      else allow_outbound_packet rules header)"

section \<open>The text of a rule\<close>

definition hexdigit_upper :: string where "hexdigit_upper = ''0123456789ABCDEF''"
definition hexdigit_lower :: string where "hexdigit_lower = ''0123456789abcdef''"

definition tohex :: "u8 list \<Rightarrow> string" where
  "tohex bs = concat (map (\<lambda>b. [hexdigit_upper ! unat (drop_bit 4 b), hexdigit_upper ! unat (b AND 0xF)]) bs)"

text \<open>What \<^verbatim>\<open>printf\<close> gives for \<^verbatim>\<open>%#010x\<close>: ten characters, with \<^verbatim>\<open>0x\<close> in front unless the number is 0.\<close>

definition hex8 :: "u32 \<Rightarrow> string" where
  "hex8 v = map (\<lambda>i. hexdigit_lower ! unat (drop_bit (4 * i) v AND 0xF)) [7, 6, 5, 4, 3, 2, 1, 0]"

definition port_text :: "u32 \<Rightarrow> string" where
  "port_text v = (if v = 0 then ''0000000000'' else ''0x'' @ hex8 v)"

definition strbuf_append_mdp_portrange :: "mdp_portrange \<Rightarrow> string" where
  "strbuf_append_mdp_portrange ports =
     '':'' @ port_text (port_first ports)
     @ (if port_last ports \<noteq> port_first ports then ''-'' @ port_text (port_last ports) else [])"

definition endpoint_text :: "mesh \<Rightarrow> nat option \<Rightarrow> bool \<Rightarrow> mdp_portrange \<Rightarrow> string" where
  "endpoint_text g subscriber has_port ports =
     (case subscriber of Some a \<Rightarrow> tohex (sid (sub g a)) | None \<Rightarrow> ''*'')
     @ (if has_port then strbuf_append_mdp_portrange ports else [])"

definition strbuf_append_packet_rule :: "mesh \<Rightarrow> packet_rule \<Rightarrow> string" where
  "strbuf_append_packet_rule g rule =
     (if flagged rule RULE_DROP then ''drop '' else ''allow '')
     @ (if flagged rule (RULE_INBOUND OR RULE_OUTBOUND)
        then endpoint_text g (local_subscriber rule) (flagged rule RULE_LOCAL_PORT) (local_ports rule)
             @ '' '' @ (if flagged rule RULE_INBOUND then ''<'' else []) @ (if flagged rule RULE_OUTBOUND then ''>'' else [])
             @ endpoint_text g (remote_subscriber rule) (flagged rule RULE_REMOTE_PORT) (remote_ports rule)
        else ''all'')"

section \<open>The cursor\<close>

text \<open>
  \<open>buf\<close> is the part of the buffer up to \<^verbatim>\<open>end\<close>, \<open>current\<close> and \<open>pin_pos\<close> are offsets into it, \<open>stream\<close> is what has not been
  read from the file and \<open>at_end\<close> is what \<^verbatim>\<open>feof\<close> says.
\<close>

record cursor =
  stream :: string
  at_end :: bool
  buf :: string
  current :: nat
  pin_pos :: "nat option"
  pins :: nat

definition CURSOR_BUFFER :: nat where "CURSOR_BUFFER = 1024"

definition init_cursor :: "string \<Rightarrow> cursor" where
  "init_cursor file = \<lparr>stream = file, at_end = False, buf = [], current = 0, pin_pos = None, pins = 0\<rparr>"

definition available :: "cursor \<Rightarrow> nat" where
  "available c = length (buf c) - current c"

definition cursor_fread :: "nat \<Rightarrow> cursor \<Rightarrow> cursor" where
  "cursor_fread n c = c\<lparr>buf := buf c @ take n (stream c), stream := drop n (stream c), at_end := at_end c \<or> length (stream c) < n\<rparr>"

definition cursor_shift :: "nat \<Rightarrow> cursor \<Rightarrow> cursor" where
  "cursor_shift stale c = c\<lparr>buf := drop stale (buf c), current := current c - stale, pin_pos := map_option (\<lambda>_. 0) (pin_pos c)\<rparr>"

definition stale :: "cursor \<Rightarrow> nat" where
  "stale c = (case pin_pos c of None \<Rightarrow> current c | Some p \<Rightarrow> p)"

definition read_ahead :: "nat \<Rightarrow> cursor \<Rightarrow> nat" where
  "read_ahead n c =
     (let space = CURSOR_BUFFER - length (buf c)
      in if available c + space \<ge> n then n - available c else if stale c = 0 then space else 0)"

text \<open>The loop of \<^verbatim>\<open>preload\<close>; it gives up when the pinned text fills the buffer.\<close>

function preload :: "nat \<Rightarrow> cursor \<Rightarrow> cursor run" where
  "preload n c =
     (if \<not> current c \<le> length (buf c) then None
      else if available c < n \<and> \<not> at_end c
      then (if stale c > current c then None
            else if read_ahead n c \<noteq> 0 then preload n (cursor_fread (read_ahead n c) c)
            else if stale c \<noteq> 0 then preload n (cursor_shift (stale c) c)
            else Some c)
      else Some c)"
  by pat_completeness auto
termination
  by (relation "measures [\<lambda>(n, c). if at_end c then 0 else 1, \<lambda>(n, c). stale c, \<lambda>(n, c). CURSOR_BUFFER - length (buf c)]")
     (auto simp: cursor_fread_def cursor_shift_def stale_def read_ahead_def Let_def available_def split: if_splits option.splits)

declare preload.simps [simp del]

definition eof :: "cursor \<Rightarrow> (bool \<times> cursor) run" where
  "eof c = do { c \<leftarrow> preload 1 c; Some (current c = length (buf c) \<and> at_end c, c) }"

text \<open>The end of the file is \<^const>\<open>None\<close>.\<close>

definition peek :: "cursor \<Rightarrow> (char option \<times> cursor) run" where
  "peek c = do {
     (e, c) \<leftarrow> eof c;
     if e then Some (None, c)
     else do { c_assert (current c < length (buf c)); Some (Some (buf c ! current c), c) } }"

definition preloaded :: "cursor \<Rightarrow> string run" where
  "preloaded c = do { c_assert (current c < length (buf c)); Some (drop (current c) (buf c)) }"

definition skip :: "string \<Rightarrow> cursor \<Rightarrow> (bool \<times> cursor) run" where
  "skip text c = do {
     c \<leftarrow> preload (length text) c;
     c_assert (current c \<le> length (buf c));
     Some (if length text \<le> available c \<and> take (length text) (drop (current c) (buf c)) = text
           then (True, c\<lparr>current := current c + length text\<rparr>) else (False, c)) }"

definition next_char :: "cursor \<Rightarrow> cursor run" where
  "next_char c = do { c_assert (current c < length (buf c)); Some (c\<lparr>current := current c + 1\<rparr>) }"

definition advance_to :: "nat \<Rightarrow> cursor \<Rightarrow> cursor run" where
  "advance_to pos c = do { c_assert (current c \<le> pos); c_assert (pos \<le> length (buf c)); Some (c\<lparr>current := pos\<rparr>) }"

definition pin_cursor :: "cursor \<Rightarrow> (nat \<times> cursor) run" where
  "pin_cursor c = do {
     c_assert (current c < length (buf c));
     p \<leftarrow> (case pin_pos c of None \<Rightarrow> Some (current c) | Some p \<Rightarrow> do { c_assert (p \<le> current c); Some p });
     Some (current c - p, c\<lparr>pin_pos := Some p, pins := pins c + 1\<rparr>) }"

definition drop_pin :: "cursor \<Rightarrow> cursor" where
  "drop_pin c = (if pins c - 1 = 0 then c\<lparr>pins := 0, pin_pos := None\<rparr> else c\<lparr>pins := pins c - 1\<rparr>)"

definition retreat :: "nat \<Rightarrow> cursor \<Rightarrow> cursor run" where
  "retreat p c = do {
     c_assert (current c \<le> length (buf c));
     c_assert (0 < pins c);
     q \<leftarrow> pin_pos c;
     c_assert (q \<le> current c);
     c_assert (q + p \<le> current c);
     Some (drop_pin (c\<lparr>current := q + p\<rparr>)) }"

definition unpin :: "nat \<Rightarrow> cursor \<Rightarrow> cursor run" where
  "unpin p c = do {
     c_assert (current c \<le> length (buf c));
     c_assert (0 < pins c);
     q \<leftarrow> pin_pos c;
     c_assert (q \<le> current c);
     c_assert (q + p \<le> current c);
     Some (drop_pin c) }"

section \<open>The cursor keeps the text\<close>

definition rest :: "cursor \<Rightarrow> string" where
  "rest c = drop (current c) (buf c) @ stream c"

definition pinned :: "cursor \<Rightarrow> string option" where
  "pinned c = map_option (\<lambda>p. drop p (buf c) @ stream c) (pin_pos c)"

text \<open>The cursor moved forward in the text, and what is pinned can still be gone back to.\<close>

definition moved :: "cursor \<Rightarrow> cursor \<Rightarrow> bool" where
  "moved c c' \<longleftrightarrow> suffix (rest c') (rest c) \<and> (pin_pos c = None \<longrightarrow> pin_pos c' = None) \<and> pins c' = pins c
     \<and> (\<forall>p. pin_pos c = Some p \<and> p \<le> current c \<longrightarrow> pinned c' = pinned c \<and> (\<exists>p'. pin_pos c' = Some p' \<and> p' \<le> current c'))"

lemma moved_refl [simp]: "moved c c"
  by (simp add: moved_def)

lemma moved_trans [trans]: "moved c c1 \<Longrightarrow> moved c1 c2 \<Longrightarrow> moved c c2"
  unfolding moved_def by (auto intro: suffix_order.order_trans)

lemma moved_fread: "current c \<le> length (buf c) \<Longrightarrow> moved c (cursor_fread n c)"
  by (auto simp: moved_def cursor_fread_def rest_def pinned_def)

lemma moved_shift: "stale c \<le> current c \<Longrightarrow> moved c (cursor_shift (stale c) c)"
  by (auto simp: moved_def cursor_shift_def rest_def pinned_def stale_def split: option.splits)

lemma rest_fread: "current c \<le> length (buf c) \<Longrightarrow> rest (cursor_fread n c) = rest c"
  by (simp add: cursor_fread_def rest_def)

lemma rest_shift: "stale c \<le> current c \<Longrightarrow> rest (cursor_shift (stale c) c) = rest c"
  by (simp add: cursor_shift_def rest_def)

lemma preload_moved: "preload n c = Some c' \<Longrightarrow> moved c c' \<and> rest c' = rest c \<and> current c' \<le> length (buf c')"
proof (induction n c rule: preload.induct)
  case (1 n c)
  show ?case
  proof (cases "current c \<le> length (buf c) \<and> available c < n \<and> \<not> at_end c \<and> stale c \<le> current c \<and> (read_ahead n c \<noteq> 0 \<or> stale c \<noteq> 0)")
    case True
    then show ?thesis
      using 1 moved_trans [OF moved_fread, of c] moved_trans [OF moved_shift, of c] rest_fread [of c] rest_shift [of c] preload.simps [of n c]
      by (cases "read_ahead n c = 0") (auto simp: not_le)
  next
    case False
    then show ?thesis using "1.prems" preload.simps [of n c] by (auto split: if_splits)
  qed
qed

lemma eof_moved: "eof c = Some (e, c') \<Longrightarrow> moved c c' \<and> rest c' = rest c \<and> current c' \<le> length (buf c')"
  unfolding eof_def by (erule run_bindE) (auto dest: preload_moved)

lemma peek_moved: "peek c = Some (x, c') \<Longrightarrow> moved c c' \<and> rest c' = rest c \<and> (x \<noteq> None \<longrightarrow> current c' < length (buf c'))"
  unfolding peek_def by (elim run_bindE) (auto dest: eof_moved elim!: run_bindE split: if_splits)

lemma forward:
  assumes "current c + n \<le> length (buf c)"
  shows "moved c (c\<lparr>current := current c + n\<rparr>)" and "length (rest (c\<lparr>current := current c + n\<rparr>)) + n = length (rest c)"
proof -
  have "rest c = take n (drop (current c) (buf c)) @ rest (c\<lparr>current := current c + n\<rparr>)"
    by (simp add: rest_def add.commute flip: drop_drop append_assoc)
  then have "suffix (rest (c\<lparr>current := current c + n\<rparr>)) (rest c)" unfolding suffix_def by blast
  then show "moved c (c\<lparr>current := current c + n\<rparr>)" by (auto simp: moved_def pinned_def)
  show "length (rest (c\<lparr>current := current c + n\<rparr>)) + n = length (rest c)" using assms by (simp add: rest_def)
qed

lemma next_char_moved: "next_char c = Some c' \<Longrightarrow> moved c c' \<and> length (rest c') + 1 = length (rest c)"
  using forward [of c 1] by (auto simp: next_char_def split: bind_splits)

lemma advance_to_moved: "advance_to pos c = Some c' \<Longrightarrow> moved c c'"
  using forward(1) [of c "pos - current c"] by (auto simp: advance_to_def split: bind_splits)

lemma skip_moved:
  assumes "skip t c = Some (ok, c')"
  shows "moved c c'"
proof -
  obtain c1 where c1: "preload (length t) c = Some c1"
    and c': "c' = (if length t \<le> available c1 \<and> take (length t) (drop (current c1) (buf c1)) = t then c1\<lparr>current := current c1 + length t\<rparr> else c1)"
    using assms by (auto simp: skip_def elim!: run_bindE split: if_splits)
  note m = preload_moved [OF c1]
  show ?thesis
  proof (cases "length t \<le> available c1 \<and> take (length t) (drop (current c1) (buf c1)) = t")
    case True
    then have "current c1 + length t \<le> length (buf c1)" using m unfolding available_def by linarith
    then have "moved c1 c'" using forward(1) [of c1 "length t"] True c' by simp
    then show ?thesis using m moved_trans by blast
  qed (use c' m in auto)
qed

section \<open>The parser\<close>

function parse_space :: "cursor \<Rightarrow> cursor run" where
  "parse_space c = do {
     (x, c) \<leftarrow> peek c;
     if x = Some CHR '' '' then do { c \<leftarrow> next_char c; parse_space c } else Some c }"
  by pat_completeness auto
termination
proof (relation "measure (length \<circ> rest)", simp)
  fix c xa x and ca c' :: cursor
  assume "peek c = Some xa" "(x, ca) = xa" "next_char ca = Some c'"
  then show "(c', c) \<in> measure (length \<circ> rest)" using peek_moved [of c x ca] next_char_moved [of ca c'] by auto
qed

declare parse_space.simps [simp del]

definition parse_sep :: "cursor \<Rightarrow> (bool \<times> cursor) run" where
  "parse_sep c = do {
     (x, c) \<leftarrow> peek c;
     (y, c) \<leftarrow> (if x = Some (CHR 0x0A) then Some (x, c) else peek c);
     if x = Some (CHR 0x0A) \<or> y = Some (CHR '';'') then do { c \<leftarrow> next_char c; Some (True, c) } else Some (False, c) }"

definition hexvalue :: "char \<Rightarrow> nat option" where
  "hexvalue ch = (let n = of_char ch :: nat in
     if 48 \<le> n \<and> n \<le> 57 then Some (n - 48)
     else if 65 \<le> n \<and> n \<le> 70 then Some (n - 55)
     else if 97 \<le> n \<and> n \<le> 102 then Some (n - 87)
     else None)"

text \<open>The loop over the digits: the value, the value that was computed last and how many digits were used.\<close>

fun uint32_digits :: "nat \<Rightarrow> u32 \<Rightarrow> u32 \<Rightarrow> nat \<Rightarrow> string \<Rightarrow> u32 \<times> u32 \<times> nat" where
  "uint32_digits base value newvalue n [] = (value, newvalue, n)"
| "uint32_digits base value newvalue n (ch # s) =
     (case hexvalue ch of
        None \<Rightarrow> (value, newvalue, n)
      | Some digit \<Rightarrow>
          if digit \<ge> base then (value, newvalue, n)
          else (let newvalue = value * of_nat base + of_nat digit
                in if newvalue < value then (value, newvalue, n)
                   else uint32_digits base newvalue newvalue (n + 1) s))"

text \<open>\<^verbatim>\<open>strn_to_uint32\<close> of a text that is not empty, with a pointer for the end: the number and how long it is.\<close>

definition strn_to_uint32 :: "string \<Rightarrow> nat \<Rightarrow> (u32 \<times> nat) option" where
  "strn_to_uint32 str base =
     (let (value, newvalue, n) = uint32_digits base 0 0 0 str
      in if n = 0 \<or> value \<noteq> newvalue then None else Some (value, n))"

fun strn_fromhex :: "nat \<Rightarrow> string \<Rightarrow> u8 list" where
  "strn_fromhex (Suc n) (a # b # s) =
     (case hexvalue a of
        None \<Rightarrow> []
      | Some high \<Rightarrow> (case hexvalue b of None \<Rightarrow> [] | Some low \<Rightarrow> of_nat (high * 16 + low) # strn_fromhex n s))"
| "strn_fromhex n s = []"

definition strn_to_sid_t :: "string \<Rightarrow> (u8 list \<times> nat) option" where
  "strn_to_sid_t hex =
     (if take 9 hex = ''broadcast'' then Some (replicate SID_SIZE 0xFF, 9)
      else if length hex < SID_SIZE * 2 then None
      else (let bs = strn_fromhex SID_SIZE hex in if length bs \<noteq> SID_SIZE then None else Some (bs, SID_SIZE * 2)))"

definition parse_port :: "cursor \<Rightarrow> (u32 option \<times> cursor) run" where
  "parse_port c = do {
     (hex, c) \<leftarrow> skip ''0x'' c;
     c \<leftarrow> preload (if hex then 8 else 10) c;
     str \<leftarrow> preloaded c;
     case strn_to_uint32 str (if hex then 16 else 10) of
       None \<Rightarrow> Some (None, c)
     | Some (port, n) \<Rightarrow> do { c \<leftarrow> advance_to (current c + n) c; Some (Some port, c) } }"

definition parse_portrange :: "mdp_portrange \<Rightarrow> cursor \<Rightarrow> (bool \<times> mdp_portrange \<times> cursor) run" where
  "parse_portrange ports c = do {
     (first, c) \<leftarrow> parse_port c;
     case first of
       None \<Rightarrow> Some (False, ports, c)
     | Some first \<Rightarrow> do {
         let ports = ports\<lparr>port_first := first\<rparr>;
         c \<leftarrow> parse_space c;
         (x, c) \<leftarrow> peek c;
         if x = Some CHR ''-''
         then do {
           c \<leftarrow> next_char c;
           c \<leftarrow> parse_space c;
           (port, c) \<leftarrow> parse_port c;
           Some (case port of None \<Rightarrow> (False, ports, c) | Some port \<Rightarrow> (True, ports\<lparr>port_last := port\<rparr>, c)) }
         else Some (True, ports\<lparr>port_last := first\<rparr>, c) } }"

text \<open>
  An endpoint: whether it was understood, and what is then in the flags, the subscriber and the ports that the caller
  pointed to.
\<close>

type_synonym endpoint = "u8 \<times> nat option \<times> mdp_portrange"

definition parse_subscriber :: "heap \<Rightarrow> nat option \<Rightarrow> cursor \<Rightarrow> mesh \<Rightarrow> (bool \<times> nat option \<times> cursor \<times> mesh) run" where
  "parse_subscriber h subscr c g = do {
     c \<leftarrow> preload (SID_SIZE * 2) c;
     (any, c) \<leftarrow> skip ''*'' c;
     if any then Some (True, None, c, g)
     else do {
       str \<leftarrow> preloaded c;
       case strn_to_sid_t str of
         None \<Rightarrow> Some (False, subscr, c, g)
       | Some (sidp, n) \<Rightarrow>
           (let (ret, root, ss) = find_subscriber (nodes h) (tree g) (subs g) sidp SID_SIZE True;
                g = g\<lparr>tree := root, subs := ss\<rparr>
            in if ret = None then Some (False, None, c, g)
               else do { c \<leftarrow> advance_to (current c + n) c; Some (True, ret, c, g) }) } }"

definition parse_endpoint :: "heap \<Rightarrow> u8 \<Rightarrow> endpoint \<Rightarrow> cursor \<Rightarrow> mesh \<Rightarrow> (bool \<times> endpoint \<times> cursor \<times> mesh) run" where
  "parse_endpoint h port_flag e c g = (case e of (flags, subscr, ports) \<Rightarrow> do {
     (ok, subscr, c, g) \<leftarrow> parse_subscriber h subscr c g;
     if \<not> ok then Some (False, (flags, subscr, ports), c, g)
     else do {
       c \<leftarrow> parse_space c;
       (x, c) \<leftarrow> peek c;
       if x = Some CHR '':''
       then do {
         c \<leftarrow> next_char c;
         c \<leftarrow> parse_space c;
         (ok, ports, c) \<leftarrow> parse_portrange ports c;
         Some (ok, (if ok then flags OR port_flag else flags, subscr, ports), c, g) }
       else Some (True, (flags, subscr, ports), c, g) } })"

definition parse_direction :: "u8 \<Rightarrow> cursor \<Rightarrow> (bool \<times> u8 \<times> cursor) run" where
  "parse_direction flags c = do {
     let flags = flags AND NOT (RULE_INBOUND OR RULE_OUTBOUND);
     (inb, c) \<leftarrow> skip ''<'' c;
     let flags = (if inb then flags OR RULE_INBOUND else flags);
     (outb, c) \<leftarrow> skip ''>'' c;
     let flags = (if outb then flags OR RULE_OUTBOUND else flags);
     Some (flags AND (RULE_INBOUND OR RULE_OUTBOUND) \<noteq> 0, flags, c) }"

definition parse_local :: "heap \<Rightarrow> packet_rule \<Rightarrow> cursor \<Rightarrow> mesh \<Rightarrow> (packet_rule \<times> cursor \<times> mesh) run" where
  "parse_local h rule c g = do {
     (p, c) \<leftarrow> pin_cursor c;
     (ok, (flags, subscr, ports), c, g) \<leftarrow> parse_endpoint h RULE_LOCAL_PORT (rule_flags rule, local_subscriber rule, local_ports rule) c g;
     c \<leftarrow> (if ok then do { c \<leftarrow> unpin p c; parse_space c } else retreat p c);
     Some (rule\<lparr>rule_flags := flags, local_subscriber := subscr, local_ports := ports\<rparr>, c, g) }"

definition parse_pattern :: "heap \<Rightarrow> packet_rule \<Rightarrow> cursor \<Rightarrow> mesh \<Rightarrow> (bool \<times> packet_rule \<times> cursor \<times> mesh) run" where
  "parse_pattern h rule c g = do {
     (rule, c, g) \<leftarrow> parse_local h rule c g;
     (ok, flags, c) \<leftarrow> parse_direction (rule_flags rule) c;
     let rule = rule\<lparr>rule_flags := flags\<rparr>;
     if \<not> ok then Some (False, rule, c, g)
     else do {
       c \<leftarrow> parse_space c;
       (ok, (flags, subscr, ports), c, g) \<leftarrow> parse_endpoint h RULE_REMOTE_PORT (rule_flags rule, remote_subscriber rule, remote_ports rule) c g;
       Some (ok, rule\<lparr>rule_flags := flags, remote_subscriber := subscr, remote_ports := ports\<rparr>, c, g) } }"

definition parse_which :: "heap \<Rightarrow> packet_rule \<Rightarrow> cursor \<Rightarrow> mesh \<Rightarrow> (bool \<times> packet_rule \<times> cursor \<times> mesh) run" where
  "parse_which h rule c g = do {
     (all, c) \<leftarrow> skip ''all'' c;
     if all then Some (True, rule, c, g) else parse_pattern h rule c g }"

definition parse_verb :: "packet_rule \<Rightarrow> cursor \<Rightarrow> (bool \<times> packet_rule \<times> cursor) run" where
  "parse_verb rule c = do {
     (allow, c) \<leftarrow> skip ''allow'' c;
     if allow then Some (True, rule, c)
     else do {
       (drp, c) \<leftarrow> skip ''drop'' c;
       Some (drp, if drp then rule\<lparr>rule_flags := rule_flags rule OR RULE_DROP\<rparr> else rule, c) } }"

text \<open>A rule: -1 when there is no memory, and whether one was read.\<close>

definition parse_rule :: "heap \<Rightarrow> cursor \<Rightarrow> mesh \<Rightarrow> (int \<times> packet_rule option \<times> cursor \<times> mesh) run" where
  "parse_rule h c g =
     (if \<not> objects h New_Packet_Rule then Some (- 1, None, c, g)
      else do {
        (ok, rule, c) \<leftarrow> parse_verb zero_rule c;
        if \<not> ok then Some (0, None, c, g)
        else do {
          c \<leftarrow> parse_space c;
          (ok, rule, c, g) \<leftarrow> parse_which h rule c g;
          Some (if ok then (1, Some rule, c, g) else (0, None, c, g)) } })"

section \<open>The parser moves forward\<close>

lemma parse_space_moved: "parse_space c = Some c' \<Longrightarrow> moved c c'"
proof (induction c rule: parse_space.induct)
  case (1 c)
  obtain x c1 where p: "peek c = Some (x, c1)" and r: "(if x = Some CHR '' '' then do { c \<leftarrow> next_char c1; parse_space c } else Some c1) = Some c'"
    using "1.prems" parse_space.simps [of c] by (auto simp: Let_def elim!: run_bindE)
  show ?case
  proof (cases "x = Some CHR '' ''")
    case True
    then obtain c2 where c2: "next_char c1 = Some c2" "parse_space c2 = Some c'" using r by (auto elim: run_bindE)
    have "moved c2 c'" by (rule "1.IH" [OF p refl True c2])
    then show ?thesis using peek_moved [OF p] next_char_moved [OF c2(1)] moved_trans by blast
  qed (use r peek_moved [OF p] in simp)
qed

lemmas step_moved = parse_space_moved skip_moved advance_to_moved preload_moved [THEN conjunct1] peek_moved [THEN conjunct1]
  next_char_moved [THEN conjunct1] eof_moved [THEN conjunct1]

lemma parse_port_moved: "parse_port c = Some (x, c') \<Longrightarrow> moved c c'"
  unfolding parse_port_def by ((auto elim!: run_bindE split: option.splits dest!: step_moved); meson moved_trans)

lemma parse_portrange_moved: "parse_portrange ports c = Some (ok, ports', c') \<Longrightarrow> moved c c'"
  unfolding parse_portrange_def
  by ((auto simp: Let_def elim!: run_bindE split: option.splits if_splits dest!: step_moved parse_port_moved); meson moved_trans)

lemma parse_subscriber_moved: "parse_subscriber h subscr c g = Some (ok, subscr', c', g') \<Longrightarrow> moved c c'"
  unfolding parse_subscriber_def
  by ((auto simp: Let_def elim!: run_bindE split: option.splits if_splits prod.splits dest!: step_moved); meson moved_trans)

lemma parse_endpoint_moved: "parse_endpoint h f e c g = Some (ok, e', c', g') \<Longrightarrow> moved c c'"
  unfolding parse_endpoint_def
  by ((auto elim!: run_bindE split: prod.splits if_splits dest!: step_moved parse_subscriber_moved parse_portrange_moved); meson moved_trans)

lemma parse_direction_moved: "parse_direction flags c = Some (ok, flags', c') \<Longrightarrow> moved c c'"
  unfolding parse_direction_def by ((auto simp: Let_def elim!: run_bindE dest!: step_moved); meson moved_trans)

text \<open>Going back to the pin gives the text that was there.\<close>

lemma rest_drop_pin [simp]: "rest (drop_pin c) = rest c"
  by (simp add: drop_pin_def rest_def)

lemma parse_local_suffix:
  assumes "parse_local h rule c g = Some (rule', c', g')"
  shows "suffix (rest c') (rest c)"
proof -
  obtain p c1 ok e c2 g2 where pin: "pin_cursor c = Some (p, c1)"
    and e: "parse_endpoint h RULE_LOCAL_PORT (rule_flags rule, local_subscriber rule, local_ports rule) c1 g = Some (ok, e, c2, g2)"
    and c': "(if ok then do { c \<leftarrow> unpin p c2; parse_space c } else retreat p c2) = Some c'"
    using assms unfolding parse_local_def by (auto elim!: run_bindE split: if_splits)
  note m = parse_endpoint_moved [OF e]
  obtain q where q: "pin_pos c1 = Some q" "q \<le> current c1" "rest c1 = rest c" "q + p = current c1" "current c1 < length (buf c1)"
    using pin by (auto simp: pin_cursor_def rest_def elim!: run_bindE split: option.splits)
  show ?thesis
  proof (cases ok)
    case True
    then obtain c3 where "unpin p c2 = Some c3" "parse_space c3 = Some c'" using c' by (auto elim: run_bindE)
    then show ?thesis using m q(3) parse_space_moved [of c3 c'] by (auto simp: unpin_def moved_def elim!: run_bindE intro: suffix_order.order_trans)
  next
    case False
    obtain q' where q': "pin_pos c2 = Some q'" "drop q' (buf c2) @ stream c2 = drop q (buf c1) @ stream c1"
      using m q unfolding moved_def pinned_def by auto
    have r: "q' + p \<le> length (buf c2)" "c' = drop_pin (c2\<lparr>current := q' + p\<rparr>)"
      using c' False q'(1) by (auto simp: retreat_def elim!: run_bindE)
    have "rest c' = drop p (drop q' (buf c2) @ stream c2)" using r(1) unfolding r(2) rest_drop_pin by (simp add: rest_def add.commute)
    also have "\<dots> = drop p (drop q (buf c1) @ stream c1)" by (simp only: q'(2))
    also have "\<dots> = rest c1" using q(2,4,5) by (simp add: rest_def add.commute)
    finally show ?thesis using q(3) by simp
  qed
qed

lemma moved_suffix: "moved c c' \<Longrightarrow> suffix (rest c') (rest c)"
  by (simp add: moved_def)

lemma parse_rule_suffix:
  assumes "parse_rule h c g = Some (r, rule, c', g')"
  shows "suffix (rest c') (rest c)"
proof -
  have which: "suffix (rest c') (rest c)" if "parse_which h rule c g = Some (ok, rule', c', g')" for ok rule rule' c c' g g'
    using that unfolding parse_which_def parse_pattern_def
    by ((auto simp: Let_def elim!: run_bindE split: if_splits dest!: step_moved parse_local_suffix parse_direction_moved parse_endpoint_moved
        moved_suffix); meson suffix_order.order_trans)
  have verb: "suffix (rest c') (rest c)" if "parse_verb rule c = Some (ok, rule', c')" for ok rule rule' c c'
    using that unfolding parse_verb_def
    by ((auto elim!: run_bindE split: if_splits dest!: step_moved moved_suffix); meson suffix_order.order_trans)
  show ?thesis
    using assms unfolding parse_rule_def
    by ((auto elim!: run_bindE split: if_splits dest!: step_moved moved_suffix verb which); meson suffix_order.order_trans)
qed

section \<open>Lists of rules\<close>

lemma parse_sep_shorter:
  assumes "parse_sep c = Some (True, c')"
  shows "length (rest c') < length (rest c)"
proof -
  obtain x c1 y c2 where "peek c = Some (x, c1)" "(if x = Some (CHR 0x0A) then Some (x, c1) else peek c1) = Some (y, c2)" "next_char c2 = Some c'"
    using assms unfolding parse_sep_def by (auto elim!: run_bindE split: if_splits)
  then show ?thesis using peek_moved [of c x c1] peek_moved [of c1 y c2] next_char_moved [of c2 c'] by (auto split: if_splits)
qed

text \<open>The separator and what comes after it, up to the start of a rule: whether there is more.\<close>

definition more_rules :: "cursor \<Rightarrow> (bool \<times> cursor) run" where
  "more_rules c = do {
     (e, c) \<leftarrow> eof c;
     if e then Some (False, c)
     else do {
       (sep, c) \<leftarrow> parse_sep c;
       if \<not> sep then Some (False, c)
       else do { (e, c) \<leftarrow> eof c; Some (\<not> e, c) } } }"

lemma more_rules_shorter: "more_rules c = Some (True, c') \<Longrightarrow> length (rest c') < length (rest c)"
  unfolding more_rules_def by (auto elim!: run_bindE split: if_splits dest!: eof_moved parse_sep_shorter)

function rules_loop :: "heap \<Rightarrow> packet_rule list \<Rightarrow> cursor \<Rightarrow> mesh \<Rightarrow> (int \<times> packet_rule list \<times> cursor \<times> mesh) run" where
  "rules_loop h rules c g = do {
     (more, c) \<leftarrow> more_rules c;
     if \<not> more then do { (e, c) \<leftarrow> eof c; Some (if e then 1 else 0, rules, c, g) }
     else do {
       c \<leftarrow> parse_space c;
       (r, rule, c, g) \<leftarrow> parse_rule h c g;
       if r = - 1 then Some (- 1, rules, c, g)
       else do {
         c \<leftarrow> parse_space c;
         case rule of
           None \<Rightarrow> do { (e, c) \<leftarrow> eof c; Some (if e then 1 else 0, rules, c, g) }
         | Some rule \<Rightarrow> rules_loop h (rules @ [rule]) c g } } }"
  by pat_completeness auto
termination
proof (relation "measure (\<lambda>(h, rules, c, g). length (rest c))", simp)
  fix h rules c g xa more c1 c2 xb r z rule z1 c3 g3 c4 rule'
  assume a: "more_rules c = Some xa" "(more, c1) = xa" "\<not> \<not> more" "parse_space c1 = Some c2" "parse_rule h c2 g = Some xb"
    "(r, z) = xb" "(rule, z1) = z" "(c3, g3) = z1" "parse_space c3 = Some (c4 :: cursor)"
  have "length (rest c1) < length (rest c)" using a more_rules_shorter by simp
  moreover have "length (rest c2) \<le> length (rest c1)" using a parse_space_moved moved_suffix suffix_length_le by blast
  moreover have "length (rest c3) \<le> length (rest c2)" using a parse_rule_suffix suffix_length_le by blast
  moreover have "length (rest c4) \<le> length (rest c3)" using a parse_space_moved moved_suffix suffix_length_le by blast
  ultimately show "((h, rules @ [rule'], c4, g3), h, rules, c, g) \<in> measure (\<lambda>(h, rules, c, g). length (rest c))" by simp
qed

declare rules_loop.simps [simp del]

definition parse_rules :: "heap \<Rightarrow> cursor \<Rightarrow> mesh \<Rightarrow> (int \<times> packet_rule list \<times> cursor \<times> mesh) run" where
  "parse_rules h c g = do {
     c \<leftarrow> parse_space c;
     (r, rule, c, g) \<leftarrow> parse_rule h c g;
     if r = - 1 then Some (- 1, [], c, g)
     else do {
       c \<leftarrow> parse_space c;
       case rule of
         None \<Rightarrow> do { (e, c) \<leftarrow> eof c; Some (if e then 1 else 0, [], c, g) }
       | Some rule \<Rightarrow> rules_loop h [rule] c g } }"

text \<open>The rules of a file, or \<^const>\<open>None\<close> inside when it is malformed or memory is short; both are reported as 1.\<close>

definition parse_mdp_packet_rules :: "heap \<Rightarrow> string \<Rightarrow> mesh \<Rightarrow> (packet_rule list option \<times> mesh) run" where
  "parse_mdp_packet_rules h file g = do {
     (r, rules, c, g) \<leftarrow> parse_rules h (init_cursor file) g;
     Some (if r = 1 then Some rules else None, g) }"

section \<open>Loading the file\<close>

record file_meta =
  mtime_sec :: int
  mtime_nsec :: int
  file_size :: int

definition FILE_META_UNKNOWN :: file_meta where
  "FILE_META_UNKNOWN = \<lparr>mtime_sec = - 1, mtime_nsec = - 1, file_size = - 1\<rparr>"

definition FILE_META_NONEXIST :: file_meta where
  "FILE_META_NONEXIST = \<lparr>mtime_sec = - 1, mtime_nsec = - 1, file_size = 0\<rparr>"

text \<open>What \<^verbatim>\<open>stat\<close> says: the size and the modification time, that there is no such file, or another error.\<close>

datatype stat_result = Stat int int | Stat_Enoent | Stat_Error

definition get_file_meta :: "stat_result \<Rightarrow> file_meta option" where
  "get_file_meta st =
     (case st of
        Stat_Error \<Rightarrow> None
      | Stat_Enoent \<Rightarrow> Some FILE_META_NONEXIST
      | Stat st_size st_mtime \<Rightarrow> Some \<lparr>mtime_sec = st_mtime, mtime_nsec = 0, file_size = st_size\<rparr>)"

definition cmp_timespec :: "file_meta \<Rightarrow> file_meta \<Rightarrow> int" where
  "cmp_timespec a b =
     (if mtime_sec a < mtime_sec b then - 1 else if mtime_sec a > mtime_sec b then 1
      else if mtime_nsec a < mtime_nsec b then - 1 else if mtime_nsec a > mtime_nsec b then 1 else 0)"

definition cmp_file_meta :: "file_meta \<Rightarrow> file_meta \<Rightarrow> int" where
  "cmp_file_meta a b =
     (let c = cmp_timespec a b
      in if c \<noteq> 0 then c else if file_size a < file_size b then - 1 else if file_size a > file_size b then 1 else 0)"

record packet_filter =
  packet_rules :: "packet_rule list"
  packet_rules_meta :: file_meta

text \<open>
  What the configuration and the operating system say: whether a path is configured, whether the path fits, what the
  file's status is and what opening it gives.
\<close>

record rules_file =
  path_configured :: bool
  path_fits :: bool
  file_stat :: stat_result
  opened :: "string option"

definition clear_mdp_packet_rules :: "packet_filter \<Rightarrow> packet_filter" where
  "clear_mdp_packet_rules p = p\<lparr>packet_rules := []\<rparr>"

definition set_mdp_packet_rules :: "packet_rule list \<Rightarrow> packet_filter \<Rightarrow> packet_filter" where
  "set_mdp_packet_rules rules p = (clear_mdp_packet_rules p)\<lparr>packet_rules := rules\<rparr>"

definition reload_mdp_packet_rules :: "heap \<Rightarrow> rules_file \<Rightarrow> packet_filter \<Rightarrow> mesh \<Rightarrow> (int \<times> packet_filter \<times> mesh) run" where
  "reload_mdp_packet_rules h file p g =
     (if \<not> path_configured file then Some (0, (clear_mdp_packet_rules p)\<lparr>packet_rules_meta := FILE_META_UNKNOWN\<rparr>, g)
      else if \<not> path_fits file then Some (- 1, p, g)
      else case get_file_meta (file_stat file) of
             None \<Rightarrow> Some (- 1, p, g)
           | Some meta \<Rightarrow>
               if cmp_file_meta meta (packet_rules_meta p) = 0 then Some (0, p, g)
               else if mtime_sec meta = - 1 then Some (1, (clear_mdp_packet_rules p)\<lparr>packet_rules_meta := meta\<rparr>, g)
               else if file_size meta > PACKET_RULES_FILE_MAX_SIZE then Some (- 1, p, g)
               else if file_size meta \<le> 0 then Some (1, (clear_mdp_packet_rules p)\<lparr>packet_rules_meta := meta\<rparr>, g)
               else case opened file of
                      None \<Rightarrow> Some (- 1, p, g)
                    | Some text \<Rightarrow> do {
                        (rules, g) \<leftarrow> parse_mdp_packet_rules h text g;
                        Some (case rules of
                                None \<Rightarrow> (- 1, p\<lparr>packet_rules_meta := meta\<rparr>, g)
                              | Some rules \<Rightarrow> (1, (set_mdp_packet_rules rules p)\<lparr>packet_rules_meta := meta\<rparr>, g)) })"

lemma cmp_file_meta_0 [simp]: "cmp_file_meta a b = 0 \<longleftrightarrow> a = b"
  by (cases a; cases b) (auto simp: cmp_file_meta_def cmp_timespec_def Let_def)

end
