(* ===== verification/Filter_Rules.thy ===== *)
theory Filter_Rules
  imports Mdp_Filter Neighbours
begin

text \<open>
  What the packet filter promises: a rules file that holds the texts of rules is read back as those rules, the
  decision on a packet is that of the first rule that matches it, and a file that cannot be loaded leaves the
  rules in force.
\<close>

section \<open>Runs that succeed\<close>

definition runs :: "'a run \<Rightarrow> ('a \<Rightarrow> bool) \<Rightarrow> bool" where
  "runs m P \<longleftrightarrow> (\<exists>x. m = Some x \<and> P x)"

lemma runs_Some [simp]: "runs (Some x) P \<longleftrightarrow> P x"
  by (simp add: runs_def)

lemma runs_bind: "runs m Q \<Longrightarrow> (\<And>x. Q x \<Longrightarrow> runs (f x) P) \<Longrightarrow> runs (m \<bind> f) P"
  by (auto simp: runs_def)

lemma runsE:
  assumes "runs m P"
  obtains x where "m = Some x" and "P x"
  using assms by (auto simp: runs_def)

lemma runs_mono: "runs m Q \<Longrightarrow> (\<And>x. Q x \<Longrightarrow> P x) \<Longrightarrow> runs m P"
  by (auto simp: runs_def)

section \<open>The cursor at a text\<close>

text \<open>The cursor is before \<open>s\<close>; \<open>d\<close> says how far behind it the pin is, if there is one.\<close>

definition pin_dist :: "nat option \<Rightarrow> nat" where
  "pin_dist d = (case d of None \<Rightarrow> 0 | Some k \<Rightarrow> k)"

abbreviation further :: "nat \<Rightarrow> nat option \<Rightarrow> nat option" where
  "further n d \<equiv> map_option ((+) n) d"

definition at :: "cursor \<Rightarrow> string \<Rightarrow> nat option \<Rightarrow> bool" where
  "at c s d \<longleftrightarrow> current c \<le> length (buf c) \<and> length (buf c) \<le> CURSOR_BUFFER \<and> rest c = s \<and> (at_end c \<longrightarrow> stream c = [])
     \<and> pins c = (if d = None then 0 else 1)
     \<and> pin_pos c = map_option (\<lambda>k. current c - k) d \<and> pin_dist d \<le> current c"

lemma pin_dist_simps [simp]: "pin_dist None = 0" "pin_dist (Some k) = k" "pin_dist (further n d) \<le> n + pin_dist d"
  by (auto simp: pin_dist_def split: option.splits)

lemma at_fread:
  assumes "at c s d" and "length (buf c) + n \<le> CURSOR_BUFFER"
  shows "at (cursor_fread n c) s d"
  using assms rest_fread [of c n] by (auto simp: at_def cursor_fread_def)

lemma at_shift:
  assumes "at c s d"
  shows "at (cursor_shift (stale c) c) s d"
proof -
  have "stale c \<le> current c" using assms by (auto simp: at_def stale_def split: option.splits)
  then show ?thesis using assms rest_shift [of c]
    by (cases d) (auto simp: at_def cursor_shift_def stale_def)
qed

lemma at_read_ahead:
  assumes "at c s d" and "available c < n"
  shows "length (buf c) + read_ahead n c \<le> CURSOR_BUFFER"
  using assms by (auto simp: at_def read_ahead_def Let_def)

lemma at_full:
  assumes "at c s d" and "available c < n" and "read_ahead n c = 0" and "stale c = 0"
  shows "CURSOR_BUFFER < n + pin_dist d"
  using assms by (cases d) (auto simp: at_def read_ahead_def Let_def stale_def available_def split: if_splits)

lemma preload_at:
  assumes "at c s d" and "n + pin_dist d \<le> CURSOR_BUFFER"
  shows "runs (preload n c) (\<lambda>c'. at c' s d \<and> (n \<le> available c' \<or> at_end c' \<and> available c' = length s))"
  using assms
proof (induction n c rule: preload.induct)
  case (1 n c)
  note c = preload.simps [of n c]
  have cur: "current c \<le> length (buf c)" "stale c \<le> current c" using "1.prems" by (auto simp: at_def stale_def split: option.splits)
  show ?case
  proof (cases "available c < n \<and> \<not> at_end c")
    case True
    then consider "read_ahead n c \<noteq> 0" | "read_ahead n c = 0" "stale c \<noteq> 0"
      using at_full [of c s d n] "1.prems" by linarith
    then show ?thesis
    proof cases
      case 1
      then show ?thesis using "1.IH"(1) "1.prems" True cur c at_fread [OF "1.prems"(1) at_read_ahead [OF "1.prems"(1)]] by auto
    next
      case 2
      then show ?thesis using "1.IH"(2) "1.prems" True cur c at_shift [OF "1.prems"(1)] by auto
    qed
  next
    case False
    then show ?thesis using "1.prems" cur c by (auto simp: at_def rest_def available_def)
  qed
qed

lemma at_available:
  assumes "at c s d"
  shows "drop (current c) (buf c) = take (available c) s" and "available c \<le> length s"
    and "current c < length (buf c) \<longleftrightarrow> 0 < available c"
  using assms by (auto simp: at_def rest_def available_def)

lemma at_forward:
  assumes "at c s d" and "n \<le> available c"
  shows "at (c\<lparr>current := current c + n\<rparr>) (drop n s) (further n d)"
  using assms by (cases d) (auto simp: at_def rest_def available_def add.commute)

lemma at_hd: "at c s d \<Longrightarrow> 0 < available c \<Longrightarrow> s \<noteq> [] \<and> buf c ! current c = hd s"
  by (auto simp: at_def rest_def available_def hd_append hd_drop_conv_nth)

lemma eof_at:
  assumes "at c s d" and "1 + pin_dist d \<le> CURSOR_BUFFER"
  shows "runs (eof c) (\<lambda>(e, c'). e = (s = []) \<and> at c' s d \<and> (s \<noteq> [] \<longrightarrow> 0 < available c'))"
  unfolding eof_def
  by (rule runs_bind [OF preload_at [OF assms]]) (auto simp: available_def at_def rest_def)

lemma peek_at:
  assumes "at c s d" and "1 + pin_dist d \<le> CURSOR_BUFFER"
  shows "runs (peek c) (\<lambda>(x, c'). x = (if s = [] then None else Some (hd s)) \<and> at c' s d \<and> (s \<noteq> [] \<longrightarrow> 0 < available c'))"
  unfolding peek_def
  by (rule runs_bind [OF eof_at [OF assms]]) (auto simp: at_available(3) dest: at_hd)

lemma next_at:
  assumes "at c s d" and "0 < available c"
  shows "runs (next_char c) (\<lambda>c'. at c' (tl s) (further 1 d))"
  using at_forward [OF assms(1), of 1] assms by (simp add: next_char_def at_available(3) drop_Suc)

lemma skip_at:
  assumes "at c s d" and "length t + pin_dist d \<le> CURSOR_BUFFER"
  shows "runs (skip t c) (\<lambda>(ok, c'). ok = prefix t s \<and> (if ok then at c' (drop (length t) s) (further (length t) d) else at c' s d \<and> (s \<noteq> [] \<longrightarrow> 0 < available c')))"
  unfolding skip_def
proof (rule runs_bind [OF preload_at [OF assms]])
  fix c1 assume c1: "at c1 s d \<and> (length t \<le> available c1 \<or> at_end c1 \<and> available c1 = length s)"
  have "take (length t) (drop (current c1) (buf c1)) = take (length t) s" if "length t \<le> available c1"
    using that at_available(1) [of c1 s d] c1 by (simp add: min_absorb1)
  then have "length t \<le> available c1 \<and> take (length t) (drop (current c1) (buf c1)) = t \<longleftrightarrow> prefix t s"
    using c1 at_available(2) [of c1 s d] prefix_length_le [of t s] take_is_prefix [of "length t" s] by (auto simp: prefix_def)
  then show "runs (c_assert (current c1 \<le> length (buf c1)) \<bind> (\<lambda>_. Some
      (if length t \<le> available c1 \<and> take (length t) (drop (current c1) (buf c1)) = t
       then (True, c1\<lparr>current := current c1 + length t\<rparr>) else (False, c1))))
     (\<lambda>(ok, c'). ok = prefix t s \<and> (if ok then at c' (drop (length t) s) (further (length t) d) else at c' s d \<and> (s \<noteq> [] \<longrightarrow> 0 < available c')))"
    using c1 at_forward [of c1 s d "length t"] by (cases t) (auto simp: at_def)
qed

lemma skip_text:
  assumes "at c (t @ s) d" and "k + pin_dist d \<le> CURSOR_BUFFER" and "k = length t"
  obtains c' where "skip t c = Some (True, c')" and "at c' s (further k d)"
  using skip_at [OF assms(1), of t] assms(2,3) by (auto elim!: runsE)

lemma skip_other:
  assumes "at c s d" and "length t + pin_dist d \<le> CURSOR_BUFFER" and "\<not> prefix t s"
  obtains c' where "skip t c = Some (False, c')" and "at c' s d" and "s \<noteq> [] \<Longrightarrow> 0 < available c'"
  using skip_at [OF assms(1,2)] assms(3) by (auto elim!: runsE)

lemma skip_not:
  assumes "at c s d" and "0 < available c" and "hd s \<noteq> x"
  shows "skip [x] c = Some (False, c)"
proof -
  have "current c < length (buf c)" using assms(2) by (simp add: available_def)
  then show ?thesis using at_hd [OF assms(1,2)] assms(2,3) preload.simps [of 1 c] by (simp add: skip_def take_Suc hd_drop_conv_nth)
qed

lemma space_none:
  assumes "at c s d" and "1 + pin_dist d \<le> CURSOR_BUFFER" and "s = [] \<or> hd s \<noteq> CHR '' ''"
  shows "runs (parse_space c) (\<lambda>c'. at c' s d)"
  unfolding parse_space.simps [of c]
  by (rule runs_bind [OF peek_at [OF assms(1,2)]]) (use assms(3) in auto)

lemma space_one:
  assumes "at c (CHR '' '' # s) d" and "2 + pin_dist d \<le> CURSOR_BUFFER" and "s = [] \<or> hd s \<noteq> CHR '' ''"
  shows "runs (parse_space c) (\<lambda>c'. at c' s (further 1 d))"
  unfolding parse_space.simps [of c]
proof (rule runs_bind [OF peek_at [OF assms(1)]])
  show "1 + pin_dist d \<le> CURSOR_BUFFER" using assms(2) by simp
  fix p assume "case p of (x, c') \<Rightarrow> x = (if CHR '' '' # s = [] then None else Some (hd (CHR '' '' # s))) \<and> at c' (CHR '' '' # s) d
     \<and> (CHR '' '' # s \<noteq> [] \<longrightarrow> 0 < available c')"
  then obtain c1 where c1: "p = (Some CHR '' '', c1)" "at c1 (CHR '' '' # s) d" "0 < available c1" by auto
  have "runs (next_char c1 \<bind> parse_space) (\<lambda>c'. at c' s (further 1 d))"
  proof (rule runs_bind [OF next_at [OF c1(2,3)]])
    fix c2 assume "at c2 (tl (CHR '' '' # s)) (further 1 d)"
    moreover have "1 + pin_dist (further 1 d) \<le> CURSOR_BUFFER" using assms(2) by (cases d) auto
    ultimately show "runs (parse_space c2) (\<lambda>c'. at c' s (further 1 d))" using space_none [of c2 s] assms(3) by simp
  qed
  then show "runs (case p of (x, c) \<Rightarrow> if x = Some CHR '' '' then next_char c \<bind> parse_space else Some c) (\<lambda>c'. at c' s (further 1 d))"
    using c1(1) by simp
qed

section \<open>Numbers and ids\<close>

lemma hexvalue_digits:
  assumes "n < 16"
  shows "hexvalue (hexdigit_lower ! n) = Some n" and "hexvalue (hexdigit_upper ! n) = Some n"
proof -
  have "n \<in> set [0..<16]" using assms by simp
  moreover have "\<forall>k\<in>set [0..<16]. hexvalue (hexdigit_lower ! k) = Some k \<and> hexvalue (hexdigit_upper ! k) = Some k" by code_simp
  ultimately show "hexvalue (hexdigit_lower ! n) = Some n" "hexvalue (hexdigit_upper ! n) = Some n" by auto
qed

lemma nibble: "w AND 0xF = (take_bit 4 w :: 'a::len word)"
  by (simp add: take_bit_eq_mask mask_eq_exp_minus_1)

lemma nibble_bound: "unat (w AND 0xF :: 'a::len word) < 16"
  using take_bit_nat_less_exp [of 4 "unat w"] by (simp add: nibble unsigned_take_bit_eq)

text \<open>The digits of a number: the loop holds the number without the digits that are still to come.\<close>

lemma hex_step:
  fixes v :: u32
  shows "drop_bit (4 * Suc i) v * 16 + (drop_bit (4 * i) v AND 0xF) = drop_bit (4 * i) v"
    and "drop_bit (4 * Suc i) v \<le> drop_bit (4 * i) v"
proof -
  have d: "drop_bit (4 * Suc i) v = drop_bit 4 (drop_bit (4 * i) v)" by (simp add: drop_bit_drop_bit add.commute)
  show "drop_bit (4 * Suc i) v * 16 + (drop_bit (4 * i) v AND 0xF) = drop_bit (4 * i) v"
    using bits_ident [of 4 "drop_bit (4 * i) v"] unfolding d nibble by (simp add: push_bit_eq_mult)
  show "drop_bit (4 * Suc i) v \<le> drop_bit (4 * i) v"
    unfolding d word_le_nat_alt unat_drop_bit_eq by (simp add: drop_bit_eq_div)
qed

definition no_digit :: "string \<Rightarrow> bool" where
  "no_digit s \<longleftrightarrow> s = [] \<or> hexvalue (hd s) = None"

lemma digits_stop: "no_digit s \<Longrightarrow> uint32_digits base v w n s = (v, w, n)"
  by (cases s) (auto simp: no_digit_def)

lemma digits_hex:
  fixes v :: u32
  shows "uint32_digits 16 (drop_bit (4 * Suc i) v) w n (hexdigit_lower ! unat (drop_bit (4 * i) v AND 0xF) # s)
     = uint32_digits 16 (drop_bit (4 * i) v) (drop_bit (4 * i) v) (n + 1) s"
  using nibble_bound [of "drop_bit (4 * i) v"] hex_step [of i v]
  by (simp add: hexvalue_digits(1) Let_def del: mult_Suc_right) (simp add: linorder_not_less [symmetric] del: mult_Suc_right)

lemma digits_hex8: "no_digit s \<Longrightarrow> uint32_digits 16 0 0 0 (hex8 v @ s) = (v, v, 8)"
  using digits_hex [of 7 v 0 0] digits_hex [of 6 v] digits_hex [of 5 v] digits_hex [of 4 v] digits_hex [of 3 v] digits_hex [of 2 v]
    digits_hex [of 1 v] digits_hex [of 0 v]
  by (simp add: hex8_def digits_stop)

lemma digits_zero: "no_digit s \<Longrightarrow> uint32_digits 10 0 0 0 (''0000000000'' @ s) = (0, 0, 10)"
  by (simp add: hexvalue_def digits_stop)

lemma high_nibble: "unat (drop_bit 4 b :: u8) < 16"
  using unsigned_less [of b, where ?'a = nat] unfolding unat_drop_bit_eq by (simp add: drop_bit_eq_div)

lemma fromhex_tohex: "strn_fromhex (length bs) (tohex bs @ s) = bs"
proof (induction bs)
  case (Cons b bs)
  have "unat (drop_bit 4 b) * 16 + unat (b AND 0xF) = unat b"
    unfolding nibble unat_drop_bit_eq unsigned_take_bit_eq by (simp add: drop_bit_eq_div take_bit_eq_mod)
  then have "word_of_nat (unat (drop_bit 4 b) * 16 + unat (b AND 0xF)) = b" by simp
  then show ?case using Cons nibble_bound [of b] high_nibble [of b] by (simp add: tohex_def hexvalue_digits)
qed simp

lemma length_tohex [simp]: "length (tohex bs) = 2 * length bs"
  by (induction bs) (auto simp: tohex_def)

lemma length_hexdigit_upper: "length hexdigit_upper = 16"
  by (simp add: hexdigit_upper_def)

lemma tohex_hd: "bs \<noteq> [] \<Longrightarrow> hd (tohex bs @ s) \<in> set hexdigit_upper"
  using nth_mem [of "unat (drop_bit 4 (hd bs))" hexdigit_upper] high_nibble [of "hd bs"]
  by (cases bs) (simp_all add: tohex_def length_hexdigit_upper)

lemma sid_text: "length bs = SID_SIZE \<Longrightarrow> strn_to_sid_t (tohex bs @ s) = Some (bs, SID_SIZE * 2)"
proof -
  assume bs: "length bs = SID_SIZE"
  then have "hd (tohex bs @ s) \<in> set hexdigit_upper" by (intro tohex_hd) (auto simp: SID_SIZE_def)
  moreover have "0 < length (tohex bs)" using bs by (simp add: SID_SIZE_def)
  ultimately have "take 9 (tohex bs @ s) \<noteq> ''broadcast''"
    by (cases "tohex bs") (auto simp: hexdigit_upper_def)
  then show ?thesis using fromhex_tohex [of bs s] bs by (simp add: strn_to_sid_t_def Let_def)
qed

section \<open>Ports, endpoints and rules\<close>

lemma at_prefix:
  assumes "at c (t @ s) d" and "length t \<le> available c"
  shows "drop (current c) (buf c) = t @ take (available c - length t) s"
  using assms at_available(1) [OF assms(1)] by simp

lemma no_digit_take: "no_digit s \<Longrightarrow> no_digit (take n s)"
  by (cases s; cases n) (auto simp: no_digit_def)

lemma preload_text:
  assumes "at c (t @ s) d" and "length t + pin_dist d \<le> CURSOR_BUFFER" and "n = length t"
  obtains c' where "preload n c = Some c'" and "at c' (t @ s) d" and "length t \<le> available c'"
  by (rule runsE [OF preload_at [OF assms(1)]]) (use assms(2,3) that in auto)

text \<open>A number is read when the rest of the text does not go on with a digit.\<close>

lemma number_at:
  assumes "at c (t @ s) d" and "length t \<le> available c" and "t \<noteq> []" and "no_digit s"
    and digits: "\<And>u. no_digit u \<Longrightarrow> uint32_digits base 0 0 0 (t @ u) = (v, v, k)" and k: "k = length t"
  shows "runs (do {
      str \<leftarrow> preloaded c;
      case strn_to_uint32 str base of
        None \<Rightarrow> Some (None, c)
      | Some (port, n) \<Rightarrow> do { c \<leftarrow> advance_to (current c + n) c; Some (Some port, c) } })
    (\<lambda>(x, c'). x = Some v \<and> at c' s (further k d))"
proof -
  have t: "0 < length t" using assms(3) by simp
  have "strn_to_uint32 (drop (current c) (buf c)) base = Some (v, k)"
    unfolding at_prefix [OF assms(1,2)] strn_to_uint32_def digits [OF no_digit_take [OF assms(4)]] using t k by simp
  moreover have "current c < length (buf c)" "current c + length t \<le> length (buf c)"
    using assms(2) t unfolding available_def by linarith+
  ultimately show ?thesis using at_forward [OF assms(1,2)] k by (simp add: preloaded_def advance_to_def)
qed

lemma further_further [simp]: "further m (further n d) = further (n + m) d"
  by (cases d) auto

lemma pin_dist_further: "pin_dist d + n \<le> k \<Longrightarrow> pin_dist (further n d) \<le> k"
  by (cases d) auto

lemma port_at:
  assumes "at c (port_text v @ s) d" and "12 + pin_dist d \<le> CURSOR_BUFFER" and "no_digit s"
  shows "runs (parse_port c) (\<lambda>(x, c'). x = Some v \<and> at c' s (further 10 d))"
proof (cases "v = 0")
  case True
  define t where "t = ''0000000000''"
  have t: "length t = 10" "t \<noteq> []" "\<not> prefix ''0x'' (t @ s)" "\<And>u. no_digit u \<Longrightarrow> uint32_digits 10 0 0 0 (t @ u) = (0, 0, 10)"
    using digits_zero by (auto simp: t_def)
  have "at c (t @ s) d" using assms(1) True by (simp add: port_text_def t_def)
  then obtain c1 where c1: "skip ''0x'' c = Some (False, c1)" "at c1 (t @ s) d"
    using assms(2) t(3) skip_other [of c "t @ s" d "''0x''"] by auto
  obtain c2 where c2: "preload 10 c1 = Some c2" "at c2 (t @ s) d" "length t \<le> available c2"
    by (rule preload_text [OF c1(2), of 10]) (use assms(2) t(1) in auto)
  have "runs (do {
      str \<leftarrow> preloaded c2;
      case strn_to_uint32 str 10 of
        None \<Rightarrow> Some (None, c2)
      | Some (port, n) \<Rightarrow> do { c \<leftarrow> advance_to (current c2 + n) c2; Some (Some port, c) } })
    (\<lambda>(x, c'). x = Some 0 \<and> at c' s (further 10 d))"
    by (rule number_at [OF c2(2,3) t(2) assms(3) t(4)]) (simp_all add: t(1))
  then show ?thesis using True by (simp add: parse_port_def c1(1) c2(1))
next
  case False
  define t where "t = hex8 v"
  have t: "length t = 8" "t \<noteq> []" "\<And>u. no_digit u \<Longrightarrow> uint32_digits 16 0 0 0 (t @ u) = (v, v, 8)"
    using digits_hex8 by (auto simp: t_def hex8_def)
  have "at c (''0x'' @ t @ s) d" using assms(1) False by (simp add: port_text_def t_def)
  then obtain c1 where c1: "skip ''0x'' c = Some (True, c1)" "at c1 (t @ s) (further 2 d)"
    using assms(2) skip_text [of c "''0x''" "t @ s" d 2] by auto
  have "length t + pin_dist (further 2 d) \<le> CURSOR_BUFFER" using assms(2) t(1) by (cases d) auto
  then obtain c2 where c2: "preload 8 c1 = Some c2" "at c2 (t @ s) (further 2 d)" "length t \<le> available c2"
    by (rule preload_text [OF c1(2)]) (use t(1) in auto)
  have "runs (do {
      str \<leftarrow> preloaded c2;
      case strn_to_uint32 str 16 of
        None \<Rightarrow> Some (None, c2)
      | Some (port, n) \<Rightarrow> do { c \<leftarrow> advance_to (current c2 + n) c2; Some (Some port, c) } })
    (\<lambda>(x, c'). x = Some v \<and> at c' s (further 8 (further 2 d)))"
    by (rule number_at [OF c2(2,3) t(2) assms(3) t(3)]) (simp_all add: t(1))
  then show ?thesis by (simp add: parse_port_def c1(1) c2(1))
qed

text \<open>What comes after an endpoint, and the cursor at most \<open>n\<close> characters further.\<close>

definition endpoint_end :: "string \<Rightarrow> bool" where
  "endpoint_end s \<longleftrightarrow> s = [] \<or> hd s = CHR 0x0A \<or> (hd s = CHR '' '' \<and> tl s \<noteq> [] \<and> hd (tl s) \<in> {CHR ''<'', CHR ''>''})"

definition after_space :: "string \<Rightarrow> string" where
  "after_space s = (if s \<noteq> [] \<and> hd s = CHR '' '' then tl s else s)"

definition near :: "nat \<Rightarrow> cursor \<Rightarrow> string \<Rightarrow> nat option \<Rightarrow> bool" where
  "near n c s d \<longleftrightarrow> (\<exists>k\<le>n. at c s (further k d))"

lemma endpoint_end:
  assumes "endpoint_end s"
  shows "no_digit s" and "after_space s = [] \<or> hd (after_space s) \<notin> {CHR '' '', CHR '':'', CHR ''-''}"
  using assms by (auto simp: endpoint_end_def no_digit_def after_space_def hexvalue_def Let_def)

lemma near_at: "at c s d \<Longrightarrow> near n c s d"
  unfolding near_def by (rule exI [of _ 0]) (cases d, auto)

lemma near_mono: "near m c s d \<Longrightarrow> m \<le> n \<Longrightarrow> near n c s d"
  unfolding near_def using order_trans by blast

lemma near_near: "near n c s (further m d) \<Longrightarrow> near (m + n) c s d"
  unfolding near_def by (auto intro: exI [of _ "m + k" for k])

lemma near_space:
  assumes "at c s d" and "2 + pin_dist d \<le> CURSOR_BUFFER" and "endpoint_end s"
  shows "runs (parse_space c) (\<lambda>c'. near 1 c' (after_space s) d)"
proof (cases "s \<noteq> [] \<and> hd s = CHR '' ''")
  case True
  then obtain u where u: "s = CHR '' '' # u" by (cases s) auto
  have "u = [] \<or> hd u \<noteq> CHR '' ''" using assms(3) u by (auto simp: endpoint_end_def)
  then have "runs (parse_space c) (\<lambda>c'. at c' u (further 1 d))" using space_one [of c u d] assms(1,2) u by blast
  then show ?thesis unfolding u by (rule runs_mono) (auto simp: near_def after_space_def)
next
  case False
  then show ?thesis using runs_mono [OF space_none [OF assms(1)], of "\<lambda>c'. near 1 c' (after_space s) d"] assms(2) near_at
    by (auto simp: after_space_def)
qed

text \<open>The cursor is after the endpoint, and may be after the space that follows it.\<close>

definition past :: "nat \<Rightarrow> cursor \<Rightarrow> string \<Rightarrow> nat option \<Rightarrow> bool" where
  "past n c s d \<longleftrightarrow> near n c s d \<or> near n c (after_space s) d"

lemma past_mono: "past m c s d \<Longrightarrow> m \<le> n \<Longrightarrow> past n c s d"
  using near_mono unfolding past_def by blast

lemma past_further: "past n c s (further m d) \<Longrightarrow> past (m + n) c s d"
  using near_near unfolding past_def by blast

lemma past_space:
  assumes "past n c s d" and "n + 2 + pin_dist d \<le> CURSOR_BUFFER" and "endpoint_end s"
  shows "runs (parse_space c) (\<lambda>c'. near (n + 1) c' (after_space s) d)"
proof -
  obtain k where k: "k \<le> n" "at c s (further k d) \<or> at c (after_space s) (further k d)"
    using assms(1) by (auto simp: past_def near_def)
  have b: "2 + pin_dist (further k d) \<le> CURSOR_BUFFER" using k(1) assms(2) by (cases d) auto
  have far: "near (n + 1) c' (after_space s) d" if "near 1 c' (after_space s) (further k d)" for c'
    using near_mono [OF near_near [OF that], of "n + 1"] k(1) by simp
  show ?thesis
  proof (cases "at c s (further k d)")
    case True
    show ?thesis by (rule runs_mono [OF near_space [OF True b assms(3)]]) (rule far)
  next
    case False
    then have a: "at c (after_space s) (further k d)" using k(2) by simp
    show ?thesis by (rule runs_mono [OF space_none [OF a]]) (use b endpoint_end(2) [OF assms(3)] far near_at in auto)
  qed
qed

text \<open>The next character when there are no spaces before it, and when it is skipped together with the spaces after it.\<close>

lemma spaces_peek:
  assumes "at c s d" and "endpoint_end s" and "3 + pin_dist d \<le> CURSOR_BUFFER"
  obtains x c1 c2 where "parse_space c = Some c1" and "peek c1 = Some (x, c2)" and "x \<noteq> Some CHR '':''" and "x \<noteq> Some CHR ''-''"
    and "near 1 c2 (after_space s) d"
proof -
  obtain c1 where c1: "parse_space c = Some c1" "near 1 c1 (after_space s) d"
    by (rule runsE [OF near_space [OF assms(1) _ assms(2)]]) (use assms(3) that in auto)
  obtain k where k: "k \<le> 1" "at c1 (after_space s) (further k d)" using c1(2) by (auto simp: near_def)
  have b: "1 + pin_dist (further k d) \<le> CURSOR_BUFFER" using k(1) assms(3) by (cases d) auto
  obtain x c2 where c2: "peek c1 = Some (x, c2)" "x = (if after_space s = [] then None else Some (hd (after_space s)))"
    "at c2 (after_space s) (further k d)"
    by (rule runsE [OF peek_at [OF k(2) b]]) auto
  show ?thesis using that [OF c1(1) c2(1)] c2(2,3) k(1) endpoint_end(2) [OF assms(2)] by (auto simp: near_def split: if_splits)
qed

lemma mark_at:
  assumes "at c (x # s) d" and "4 + pin_dist d \<le> CURSOR_BUFFER" and "x \<noteq> CHR '' ''" and "s = [] \<or> hd s \<noteq> CHR '' ''"
  obtains c1 c2 c3 c4 where "parse_space c = Some c1" and "peek c1 = Some (Some x, c2)" and "next_char c2 = Some c3"
    and "parse_space c3 = Some c4" and "at c4 s (further 1 d)"
proof -
  obtain c1 where c1: "parse_space c = Some c1" "at c1 (x # s) d"
    by (rule runsE [OF space_none [OF assms(1)]]) (use assms(2,3) in auto)
  obtain c2 where c2: "peek c1 = Some (Some x, c2)" "at c2 (x # s) d" "0 < available c2"
    by (rule runsE [OF peek_at [OF c1(2)]]) (use assms(2) in auto)
  obtain c3 where c3: "next_char c2 = Some c3" "at c3 s (further 1 d)"
    by (rule runsE [OF next_at [OF c2(2,3)]]) auto
  have "1 + pin_dist (further 1 d) \<le> CURSOR_BUFFER" using assms(2) by (cases d) auto
  then obtain c4 where "parse_space c3 = Some c4" "at c4 s (further 1 d)"
    by (rule runsE [OF space_none [OF c3(2)]]) (use assms(4) in auto)
  then show ?thesis using that c1(1) c2(1) c3(1) by blast
qed

lemma port_text_hd: "port_text v \<noteq> []" "hd (port_text v @ s) = CHR ''0''"
  by (auto simp: port_text_def)

lemma portrange_at:
  assumes "at c (port_text (port_first r) @ (if port_last r \<noteq> port_first r then ''-'' @ port_text (port_last r) else []) @ s) d"
    and "40 + pin_dist d \<le> CURSOR_BUFFER" and "endpoint_end s"
  shows "runs (parse_portrange ports c) (\<lambda>(ok, ports', c'). ok \<and> ports' = r \<and> past 21 c' s d)"
proof -
  define u where "u = (if port_last r \<noteq> port_first r then ''-'' @ port_text (port_last r) else []) @ s"
  have "no_digit u" using endpoint_end(1) [OF assms(3)] by (auto simp: u_def no_digit_def hexvalue_def)
  then obtain c1 where c1: "parse_port c = Some (Some (port_first r), c1)" "at c1 u (further 10 d)"
    using port_at [OF assms(1) [folded u_def]] assms(2) by (auto elim!: runsE)
  have b: "22 + pin_dist (further 10 d) \<le> CURSOR_BUFFER" using assms(2) by (cases d) auto
  show ?thesis
  proof (cases "port_last r = port_first r")
    case True
    then have "at c1 s (further 10 d)" using c1(2) by (simp add: u_def)
    then obtain x c2 c3 where c3: "parse_space c1 = Some c2" "peek c2 = Some (x, c3)" "x \<noteq> Some CHR ''-''" "near 1 c3 (after_space s) (further 10 d)"
      by (rule spaces_peek [OF _ assms(3)]) (use b in auto)
    have "past 21 c3 s d" using near_mono [OF near_near [OF c3(4)], of 21] by (simp add: past_def)
    then show ?thesis using c1(1) c3 True by (cases r, cases ports) (simp add: parse_portrange_def)
  next
    case False
    define v where "v = port_text (port_last r) @ s"
    have "at c1 (CHR ''-'' # v) (further 10 d)" using c1(2) False by (simp add: u_def v_def)
    then obtain c2 c3 c4 c5 where c5: "parse_space c1 = Some c2" "peek c2 = Some (Some CHR ''-'', c3)" "next_char c3 = Some c4"
      "parse_space c4 = Some c5" "at c5 v (further 1 (further 10 d))"
      by (rule mark_at) (use b port_text_hd [of "port_last r"] in \<open>auto simp: v_def\<close>)
    have "12 + pin_dist (further 1 (further 10 d)) \<le> CURSOR_BUFFER" using assms(2) by (cases d) auto
    then obtain c6 where c6: "parse_port c5 = Some (Some (port_last r), c6)" "at c6 s (further 10 (further 1 (further 10 d)))"
      using port_at [OF c5(5) [unfolded v_def]] endpoint_end(1) [OF assms(3)] by (auto elim!: runsE)
    then have "past 21 c6 s d" by (auto simp: past_def near_def)
    then show ?thesis using c1(1) c5(1-4) c6(1) by (cases r, cases ports) (simp add: parse_portrange_def)
  qed
qed

text \<open>The subscribers that rules name are known, so reading a rule changes nothing in the table.\<close>

definition known :: "mesh \<Rightarrow> nat option \<Rightarrow> bool" where
  "known g subscriber \<longleftrightarrow> (case subscriber of None \<Rightarrow> True | Some a \<Rightarrow> a < length (subs g))"

lemma find_known:
  assumes "table_ok (tree g) (subs g)" and "a < length (subs g)"
  shows "find_subscriber m (tree g) (subs g) (sid (sub g a)) SID_SIZE True = (Some a, tree g, subs g)" and "length (sid (sub g a)) = SID_SIZE"
  using table_ok_sub [OF assms] by (auto intro!: find_subscriber_known [OF assms] simp: SID_SIZE_def)

lemma subscriber_at:
  assumes "at c ((case subscriber of Some a \<Rightarrow> tohex (sid (sub g a)) | None \<Rightarrow> ''*'') @ s) d" and "65 + pin_dist d \<le> CURSOR_BUFFER"
    and g: "table_ok (tree g) (subs g)" "known g subscriber"
  shows "runs (parse_subscriber h subscr c g) (\<lambda>(ok, subscr', c', g'). ok \<and> subscr' = subscriber \<and> near 64 c' s d \<and> g' = g)"
proof (cases subscriber)
  case None
  obtain c1 where c1: "preload (SID_SIZE * 2) c = Some c1" "at c1 (''*'' @ s) d"
    by (rule runsE [OF preload_at [OF assms(1), of "SID_SIZE * 2"]]) (use assms(2) None in \<open>auto simp: SID_SIZE_def\<close>)
  obtain c2 where "skip ''*'' c1 = Some (True, c2)" "at c2 s (further 1 d)"
    by (rule skip_text [OF c1(2)]) (use assms(2) in auto)
  then show ?thesis using c1(1) None by (auto simp: parse_subscriber_def near_def intro!: exI [of _ 1])
next
  case (Some a)
  define t where "t = tohex (sid (sub g a))"
  have a: "a < length (subs g)" using g(2) Some by (simp add: known_def)
  have len: "length t = 64" and t: "strn_to_sid_t (t @ u) = Some (sid (sub g a), 64)" for u
    using sid_text [of "sid (sub g a)"] find_known(2) [OF g(1) a] by (simp_all add: t_def SID_SIZE_def)
  have "at c (t @ s) d" using assms(1) Some by (simp add: t_def)
  then obtain c1 where c1: "preload 64 c = Some c1" "at c1 (t @ s) d" "length t \<le> available c1"
    by (rule preload_text) (use assms(2) len in auto)
  have "sid (sub g a) \<noteq> []" using len by (auto simp: t_def tohex_def)
  then have "hd (t @ s) \<in> set hexdigit_upper" unfolding t_def by (rule tohex_hd)
  then have skip: "skip ''*'' c1 = Some (False, c1)" using skip_not [OF c1(2)] c1(3) len by (auto simp: hexdigit_upper_def)
  have "drop (current c1) (buf c1) = t @ take (available c1 - length t) s" by (rule at_prefix [OF c1(2,3)])
  moreover have "current c1 < length (buf c1)" "current c1 + 64 \<le> length (buf c1)" using c1(3) len unfolding available_def by linarith+
  moreover have "near 64 (c1\<lparr>current := current c1 + 64\<rparr>) s d" using at_forward [OF c1(2,3)] len by (auto simp: near_def)
  ultimately show ?thesis
    using c1(1) skip t find_known(1) [OF g(1) a] Some by (simp add: parse_subscriber_def preloaded_def advance_to_def SID_SIZE_def)
qed

lemma endpoint_at:
  assumes "at c (endpoint_text g subscriber has_port rng @ s) d" and "150 + pin_dist d \<le> CURSOR_BUFFER" and "endpoint_end s"
    and g: "table_ok (tree g) (subs g)" "known g subscriber"
  shows "runs (parse_endpoint h f (flags, subscr, ports) c g) (\<lambda>(ok, e, c', g'). ok \<and> past 100 c' s d \<and> g' = g
     \<and> e = (if has_port then flags OR f else flags, subscriber, if has_port then rng else ports))"
proof -
  define u where "u = (if has_port then strbuf_append_mdp_portrange rng else []) @ s"
  obtain c1 where c1: "parse_subscriber h subscr c g = Some (True, subscriber, c1, g)" "near 64 c1 u d"
    by (rule runsE [OF subscriber_at [OF _ _ g]]) (use assms(1,2) in \<open>auto simp: endpoint_text_def u_def\<close>)
  then obtain k where k: "k \<le> 64" "at c1 u (further k d)" by (auto simp: near_def)
  have b: "50 + pin_dist (further k d) \<le> CURSOR_BUFFER" using assms(2) k(1) by (cases d) auto
  show ?thesis
  proof (cases has_port)
    case False
    then have "at c1 s (further k d)" using k(2) by (simp add: u_def)
    then obtain x c2 c3 where c3: "parse_space c1 = Some c2" "peek c2 = Some (x, c3)" "x \<noteq> Some CHR '':''" "near 1 c3 (after_space s) (further k d)"
      by (rule spaces_peek [OF _ assms(3)]) (use b in auto)
    have "past 100 c3 s d" using near_mono [OF near_near [OF c3(4)], of 100] k(1) by (simp add: past_def)
    then show ?thesis using c1(1) c3 False by (simp add: parse_endpoint_def)
  next
    case True
    define v where "v = port_text (port_first rng) @ (if port_last rng \<noteq> port_first rng then ''-'' @ port_text (port_last rng) else []) @ s"
    have "at c1 (CHR '':'' # v) (further k d)" using k(2) True by (simp add: u_def v_def strbuf_append_mdp_portrange_def)
    then obtain c2 c3 c4 c5 where c5: "parse_space c1 = Some c2" "peek c2 = Some (Some CHR '':'', c3)" "next_char c3 = Some c4"
      "parse_space c4 = Some c5" "at c5 v (further 1 (further k d))"
      by (rule mark_at) (use b port_text_hd [of "port_first rng"] in \<open>auto simp: v_def\<close>)
    have b': "40 + pin_dist (further 1 (further k d)) \<le> CURSOR_BUFFER" using assms(2) k(1) by (cases d) auto
    obtain c6 where c6: "parse_portrange ports c5 = Some (True, rng, c6)" "past 21 c6 s (further 1 (further k d))"
      by (rule runsE [OF portrange_at [OF c5(5) [unfolded v_def] b' assms(3)]]) auto
    have "past 100 c6 s d" using past_mono [OF past_further [OF past_further [OF c6(2)]], of 100] k(1) by simp
    then show ?thesis using c1(1) c5(1-4) c6(1) True by (simp add: parse_endpoint_def)
  qed
qed

lemma near_None [simp]: "near n c s None = at c s None"
  by (auto simp: near_def)

lemma unpin_past:
  assumes "past n c s (Some 0)"
  obtains c' where "unpin 0 c = Some c'" and "past n c' s None"
proof -
  obtain k u where k: "at c u (Some k)" "u = s \<or> u = after_space s" using assms by (auto simp: past_def near_def)
  then have "unpin 0 c = Some (drop_pin c)" "at (drop_pin c) u None"
    by (auto simp: at_def unpin_def drop_pin_def rest_def)
  then show ?thesis using that k(2) by (auto simp: past_def)
qed

lemma local_at:
  assumes "at c (endpoint_text g subscriber has_port rng @ s) None" and "0 < available c" and "endpoint_end s"
    and g: "table_ok (tree g) (subs g)" "known g subscriber"
  shows "runs (parse_local h rule c g) (\<lambda>(rule', c', g'). g' = g \<and> at c' (after_space s) None
     \<and> rule' = rule\<lparr>rule_flags := if has_port then rule_flags rule OR RULE_LOCAL_PORT else rule_flags rule,
         local_subscriber := subscriber, local_ports := if has_port then rng else local_ports rule\<rparr>)"
proof -
  obtain c1 where c1: "pin_cursor c = Some (0, c1)" "at c1 (endpoint_text g subscriber has_port rng @ s) (Some 0)"
    using assms(1,2) by (auto simp: at_def pin_cursor_def rest_def available_def)
  have b: "150 + pin_dist (Some 0) \<le> CURSOR_BUFFER" "100 + 2 + pin_dist None \<le> CURSOR_BUFFER" by (auto simp: CURSOR_BUFFER_def)
  obtain e c2 where c2: "parse_endpoint h RULE_LOCAL_PORT (rule_flags rule, local_subscriber rule, local_ports rule) c1 g = Some (True, e, c2, g)"
    "past 100 c2 s (Some 0)"
    "e = (if has_port then rule_flags rule OR RULE_LOCAL_PORT else rule_flags rule, subscriber, if has_port then rng else local_ports rule)"
    by (rule runsE [OF endpoint_at [OF c1(2) b(1) assms(3) g, of h RULE_LOCAL_PORT "rule_flags rule" "local_subscriber rule" "local_ports rule"]]) auto
  obtain c3 where c3: "unpin 0 c2 = Some c3" "past 100 c3 s None" by (rule unpin_past [OF c2(2)])
  obtain c4 where "parse_space c3 = Some c4" "at c4 (after_space s) None"
    by (rule runsE [OF past_space [OF c3(2) b(2) assms(3)]]) auto
  then show ?thesis using c1(1) c2(1,3) c3(1) by (simp add: parse_local_def)
qed

lemma skip_option:
  assumes "at c ((if b then [x] else []) @ s) None" and "s = [] \<or> hd s \<noteq> x"
  obtains c' where "skip [x] c = Some (b, c')" and "at c' s None"
proof (cases b)
  case True
  obtain c' where "skip [x] c = Some (True, c')" "at c' s (further 1 None)"
    by (rule skip_text [of c "[x]" s None 1]) (use assms(1) True in \<open>auto simp: CURSOR_BUFFER_def\<close>)
  then show ?thesis using that True by simp
next
  case False
  obtain c' where "skip [x] c = Some (False, c')" "at c' s None"
    by (rule skip_other [of c s None "[x]"]) (use assms False in \<open>auto simp: CURSOR_BUFFER_def prefix_def\<close>)
  then show ?thesis using that False by simp
qed

lemma direction_flags:
  fixes f :: u8
  shows "(((f AND NOT (2 OR 4)) OR (if i then 2 else 0)) OR (if out then 4 else 0)) AND (2 OR 4) \<noteq> 0 \<longleftrightarrow> i \<or> out"
proof -
  have "(f AND NOT (2 OR 4)) AND (2 OR 4) = 0" by (simp only: and.assoc bit.conj_cancel_left bit.conj_zero_right)
  then show ?thesis unfolding bit.conj_disj_distrib2 by (simp add: or_eq_0_iff)
qed

lemma direction_at:
  assumes "at c ((if i then ''<'' else []) @ (if out then ''>'' else []) @ s) None" and "i \<or> out" and "hd s \<notin> {CHR ''<'', CHR ''>''}"
  shows "runs (parse_direction flags c) (\<lambda>(ok, flags', c'). ok \<and> at c' s None
     \<and> flags' = ((flags AND NOT (2 OR 4)) OR (if i then 2 else 0)) OR (if out then 4 else 0))"
proof -
  obtain c1 where c1: "skip ''<'' c = Some (i, c1)" "at c1 ((if out then ''>'' else []) @ s) None"
    by (rule skip_option [OF assms(1)]) (use assms(3) in auto)
  obtain c2 where c2: "skip ''>'' c1 = Some (out, c2)" "at c2 s None"
    by (rule skip_option [OF c1(2)]) (use assms(3) in auto)
  show ?thesis using assms(2) c1(1) c2 direction_flags [of flags i out]
    by (cases i; cases out) (simp_all add: parse_direction_def RULE_INBOUND_def RULE_OUTBOUND_def)
qed

text \<open>
  The rules that the parser makes: without a direction there is nothing else to match, and ports that are not looked at
  are zero.
\<close>

definition rule_ok :: "mesh \<Rightarrow> packet_rule \<Rightarrow> bool" where
  "rule_ok g rule \<longleftrightarrow> rule_flags rule < 32 \<and> known g (local_subscriber rule) \<and> known g (remote_subscriber rule)
     \<and> (\<not> flagged rule (RULE_INBOUND OR RULE_OUTBOUND) \<longrightarrow>
          rule_flags rule < 2 \<and> local_subscriber rule = None \<and> remote_subscriber rule = None)
     \<and> (\<not> flagged rule RULE_LOCAL_PORT \<longrightarrow> local_ports rule = local_ports zero_rule)
     \<and> (\<not> flagged rule RULE_REMOTE_PORT \<longrightarrow> remote_ports rule = remote_ports zero_rule)"

lemma flags_rebuild:
  fixes f :: u8
  assumes "f < 32"
  shows "(if f AND 16 \<noteq> 0 then ((((if f AND 8 \<noteq> 0 then (if f AND 1 \<noteq> 0 then 1 else 0) OR 8 else if f AND 1 \<noteq> 0 then 1 else 0) AND NOT (2 OR 4))
     OR (if f AND 2 \<noteq> 0 then 2 else 0)) OR (if f AND 4 \<noteq> 0 then 4 else 0)) OR 16
     else ((((if f AND 8 \<noteq> 0 then (if f AND 1 \<noteq> 0 then 1 else 0) OR 8 else if f AND 1 \<noteq> 0 then 1 else 0) AND NOT (2 OR 4))
     OR (if f AND 2 \<noteq> 0 then 2 else 0)) OR (if f AND 4 \<noteq> 0 then 4 else 0))) = f"
proof -
  have "f = of_nat (unat f)" "unat f \<in> set [0..<32]" using assms by (auto simp: word_less_nat_alt)
  moreover have "\<forall>n\<in>set [0..<32]. (let f = of_nat n :: u8 in
     (if f AND 16 \<noteq> 0 then ((((if f AND 8 \<noteq> 0 then (if f AND 1 \<noteq> 0 then 1 else 0) OR 8 else if f AND 1 \<noteq> 0 then 1 else 0) AND NOT (2 OR 4))
     OR (if f AND 2 \<noteq> 0 then 2 else 0)) OR (if f AND 4 \<noteq> 0 then 4 else 0)) OR 16
     else ((((if f AND 8 \<noteq> 0 then (if f AND 1 \<noteq> 0 then 1 else 0) OR 8 else if f AND 1 \<noteq> 0 then 1 else 0) AND NOT (2 OR 4))
     OR (if f AND 2 \<noteq> 0 then 2 else 0)) OR (if f AND 4 \<noteq> 0 then 4 else 0))) = f)"
    by code_simp
  ultimately show ?thesis by (metis (no_types, lifting))
qed

lemma endpoint_text_hd:
  assumes "table_ok (tree g) (subs g)" and "known g subscriber"
  shows "endpoint_text g subscriber has_port rng @ s \<noteq> []"
    and "hd (endpoint_text g subscriber has_port rng @ s) \<in> insert (CHR ''*'') (set hexdigit_upper)"
proof -
  have sid: "sid (sub g a) \<noteq> []" if "subscriber = Some a" for a
    using find_known(2) [OF assms(1), of a] assms(2) that by (auto simp: known_def SID_SIZE_def)
  show "hd (endpoint_text g subscriber has_port rng @ s) \<in> insert (CHR ''*'') (set hexdigit_upper)"
    using tohex_hd [OF sid] by (cases subscriber) (auto simp: endpoint_text_def)
  have "tohex (sid (sub g a)) \<noteq> []" if "subscriber = Some a" for a
    using sid [OF that] by (cases "sid (sub g a)") (auto simp: tohex_def)
  then show "endpoint_text g subscriber has_port rng @ s \<noteq> []" by (cases subscriber) (auto simp: endpoint_text_def)
qed

text \<open>The text after the verb.\<close>

definition pattern_text :: "mesh \<Rightarrow> packet_rule \<Rightarrow> string" where
  "pattern_text g rule =
     endpoint_text g (local_subscriber rule) (flagged rule RULE_LOCAL_PORT) (local_ports rule)
     @ '' '' @ (if flagged rule RULE_INBOUND then ''<'' else []) @ (if flagged rule RULE_OUTBOUND then ''>'' else [])
     @ endpoint_text g (remote_subscriber rule) (flagged rule RULE_REMOTE_PORT) (remote_ports rule)"

lemma flagged_either: "flagged rule (RULE_INBOUND OR RULE_OUTBOUND) \<longleftrightarrow> flagged rule RULE_INBOUND \<or> flagged rule RULE_OUTBOUND"
  unfolding flagged_def bit.conj_disj_distrib by (simp add: or_eq_0_iff)

lemma pattern_at:
  assumes "at c (pattern_text g rule @ s) None" and "0 < available c" and "s = [] \<or> hd s = CHR 0x0A"
    and "table_ok (tree g) (subs g)" and "rule_ok g rule" and "flagged rule (RULE_INBOUND OR RULE_OUTBOUND)"
  shows "runs (parse_pattern h (zero_rule\<lparr>rule_flags := if flagged rule RULE_DROP then 1 else 0\<rparr>) c g)
     (\<lambda>(ok, rule', c', g'). ok \<and> rule' = rule \<and> past 100 c' s None \<and> g' = g)"
proof -
  define remote where "remote = endpoint_text g (remote_subscriber rule) (flagged rule RULE_REMOTE_PORT) (remote_ports rule) @ s"
  define dir where "dir = (if flagged rule RULE_INBOUND then ''<'' else []) @ (if flagged rule RULE_OUTBOUND then ''>'' else []) @ remote"
  have known: "known g (local_subscriber rule)" "known g (remote_subscriber rule)" using assms(5) by (auto simp: rule_ok_def)
  have either: "flagged rule RULE_INBOUND \<or> flagged rule RULE_OUTBOUND" using assms(6) by (simp add: flagged_either)
  have remote: "remote \<noteq> []" "hd remote \<in> insert (CHR ''*'') (set hexdigit_upper)"
    unfolding remote_def using endpoint_text_hd [OF assms(4) known(2)] by auto
  have ends: "endpoint_end ('' '' @ dir)" "after_space ('' '' @ dir) = dir" "endpoint_end s"
    using either assms(3) by (auto simp: endpoint_end_def dir_def after_space_def)
  have "at c (endpoint_text g (local_subscriber rule) (flagged rule RULE_LOCAL_PORT) (local_ports rule) @ '' '' @ dir) None"
    using assms(1) by (simp add: pattern_text_def dir_def remote_def)
  from local_at [OF this assms(2) ends(1) assms(4) known(1), of h "zero_rule\<lparr>rule_flags := if flagged rule RULE_DROP then 1 else 0\<rparr>"]
  obtain rule1 c1 where c1: "parse_local h (zero_rule\<lparr>rule_flags := if flagged rule RULE_DROP then 1 else 0\<rparr>) c g = Some (rule1, c1, g)"
    "at c1 dir None" and rule1: "rule1 = zero_rule\<lparr>rule_flags := if flagged rule RULE_LOCAL_PORT then (if flagged rule RULE_DROP then 1 else 0) OR RULE_LOCAL_PORT
        else if flagged rule RULE_DROP then 1 else 0,
      local_subscriber := local_subscriber rule, local_ports := if flagged rule RULE_LOCAL_PORT then local_ports rule else local_ports zero_rule\<rparr>"
    unfolding ends(2) by (auto elim!: runsE)
  have rf: "rule_flags rule1 = (if flagged rule RULE_LOCAL_PORT then (if flagged rule RULE_DROP then 1 else 0) OR RULE_LOCAL_PORT
      else if flagged rule RULE_DROP then 1 else 0)" by (simp add: rule1)
  define flags where "flags = ((rule_flags rule1 AND NOT (2 OR 4)) OR (if flagged rule RULE_INBOUND then 2 else 0)) OR (if flagged rule RULE_OUTBOUND then 4 else 0)"
  obtain c2 where c2: "parse_direction (rule_flags rule1) c1 = Some (True, flags, c2)" "at c2 remote None"
    by (rule runsE [OF direction_at [OF c1(2) [unfolded dir_def] either, of "rule_flags rule1"]])
      (use remote in \<open>auto simp: flags_def hexdigit_upper_def\<close>)
  obtain c3 where c3: "parse_space c2 = Some c3" "at c3 remote None"
    by (rule runsE [OF space_none [OF c2(2)]]) (use remote in \<open>auto simp: hexdigit_upper_def CURSOR_BUFFER_def\<close>)
  have b: "150 + pin_dist None \<le> CURSOR_BUFFER" by (simp add: CURSOR_BUFFER_def)
  from endpoint_at [OF c3(2) [unfolded remote_def] b ends(3) assms(4) known(2), of h RULE_REMOTE_PORT flags None "remote_ports zero_rule"]
  obtain c4 where c4: "parse_endpoint h RULE_REMOTE_PORT (flags, None, remote_ports zero_rule) c3 g = Some (True,
      (if flagged rule RULE_REMOTE_PORT then flags OR RULE_REMOTE_PORT else flags, remote_subscriber rule,
       if flagged rule RULE_REMOTE_PORT then remote_ports rule else remote_ports zero_rule), c4, g)" "past 100 c4 s None"
    by (auto elim!: runsE)
  have "(if flagged rule RULE_REMOTE_PORT then flags OR RULE_REMOTE_PORT else flags) = rule_flags rule"
    unfolding flags_def rf flagged_def RULE_DROP_def RULE_INBOUND_def RULE_OUTBOUND_def RULE_LOCAL_PORT_def RULE_REMOTE_PORT_def
    by (rule flags_rebuild) (use assms(5) in \<open>simp add: rule_ok_def\<close>)
  then show ?thesis using c1(1) c2(1) c3(1) c4 assms(5)
    by (cases rule) (auto simp: parse_pattern_def rule1 rule_ok_def zero_rule_def)
qed

lemma verb_at:
  assumes "at c ((if drp then ''drop '' else ''allow '') @ s) None" and "s = [] \<or> hd s \<noteq> CHR '' ''"
  obtains c1 c2 where "parse_verb zero_rule c = Some (True, zero_rule\<lparr>rule_flags := if drp then 1 else 0\<rparr>, c1)"
    and "parse_space c1 = Some c2" and "at c2 s None"
proof -
  obtain c1 where c1: "parse_verb zero_rule c = Some (True, zero_rule\<lparr>rule_flags := if drp then 1 else 0\<rparr>, c1)" "at c1 (CHR '' '' # s) None"
  proof (cases drp)
    case True
    obtain c0 where c0: "skip ''allow'' c = Some (False, c0)" "at c0 (''drop'' @ CHR '' '' # s) None"
      by (rule skip_other [OF assms(1), of "''allow''"]) (use True in \<open>auto simp: CURSOR_BUFFER_def\<close>)
    obtain c1 where "skip ''drop'' c0 = Some (True, c1)" "at c1 (CHR '' '' # s) (further 4 None)"
      by (rule skip_text [OF c0(2)]) (auto simp: CURSOR_BUFFER_def)
    then show ?thesis using that True c0(1) by (simp add: parse_verb_def zero_rule_def RULE_DROP_def)
  next
    case False
    then have "at c (''allow'' @ CHR '' '' # s) None" using assms(1) by simp
    then obtain c1 where "skip ''allow'' c = Some (True, c1)" "at c1 (CHR '' '' # s) (further 5 None)"
      by (rule skip_text) (auto simp: CURSOR_BUFFER_def)
    then show ?thesis using that False by (simp add: parse_verb_def zero_rule_def)
  qed
  obtain c2 where "parse_space c1 = Some c2" "at c2 s None"
    by (rule runsE [OF space_one [OF c1(2)]]) (use assms(2) in \<open>auto simp: CURSOR_BUFFER_def\<close>)
  then show ?thesis using that c1(1) by blast
qed

lemma plain_rule:
  assumes "rule_ok g rule" and "\<not> flagged rule (RULE_INBOUND OR RULE_OUTBOUND)"
  shows "zero_rule\<lparr>rule_flags := if flagged rule RULE_DROP then 1 else 0\<rparr> = rule"
proof -
  have "unat (rule_flags rule) < 2" using assms by (simp add: rule_ok_def word_less_nat_alt)
  then have "unat (rule_flags rule) = 0 \<or> unat (rule_flags rule) = 1" by arith
  then have f: "rule_flags rule = 0 \<or> rule_flags rule = 1" by (metis unat_eq_zero unsigned_1 word_unat_eq_iff)
  then have "\<not> flagged rule RULE_LOCAL_PORT" "\<not> flagged rule RULE_REMOTE_PORT" "(if flagged rule RULE_DROP then 1 else 0) = rule_flags rule"
    by (auto simp: flagged_def RULE_LOCAL_PORT_def RULE_REMOTE_PORT_def RULE_DROP_def)
  then show ?thesis using assms by (cases rule) (simp add: rule_ok_def zero_rule_def)
qed

lemma which_at:
  assumes "at c ((if flagged rule (RULE_INBOUND OR RULE_OUTBOUND) then pattern_text g rule else ''all'') @ s) None"
    and "s = [] \<or> hd s = CHR 0x0A" and "table_ok (tree g) (subs g)" and "rule_ok g rule"
  shows "runs (parse_which h (zero_rule\<lparr>rule_flags := if flagged rule RULE_DROP then 1 else 0\<rparr>) c g)
     (\<lambda>(ok, rule', c', g'). ok \<and> rule' = rule \<and> past 100 c' s None \<and> g' = g)"
proof (cases "flagged rule (RULE_INBOUND OR RULE_OUTBOUND)")
  case True
  have "known g (local_subscriber rule)" using assms(4) by (simp add: rule_ok_def)
  note hd = endpoint_text_hd [OF assms(3) this, of "flagged rule RULE_LOCAL_PORT" "local_ports rule"]
  have p: "pattern_text g rule @ s \<noteq> []" "hd (pattern_text g rule @ s) \<noteq> CHR ''a''"
    using hd(1) [of "[]"] hd(2) [of "[]"] by (auto simp: pattern_text_def hexdigit_upper_def hd_append)
  obtain c1 where c1: "skip ''all'' c = Some (False, c1)" "at c1 (pattern_text g rule @ s) None" "0 < available c1"
    by (rule skip_other [OF assms(1), of "''all''"]) (use True p in \<open>auto simp: CURSOR_BUFFER_def prefix_def\<close>)
  show ?thesis using pattern_at [OF c1(2,3) assms(2,3,4) True, of h] c1(1) by (simp add: parse_which_def)
next
  case False
  then have "at c (''all'' @ s) None" using assms(1) by simp
  then obtain c1 where "skip ''all'' c = Some (True, c1)" "at c1 s (further 3 None)"
    by (rule skip_text) (auto simp: CURSOR_BUFFER_def)
  moreover have "zero_rule\<lparr>rule_flags := if flagged rule RULE_DROP then 1 else 0\<rparr> = rule"
    by (rule plain_rule [OF assms(4) False])
  ultimately show ?thesis by (simp add: parse_which_def past_def)
qed

lemma rule_at:
  assumes "at c (strbuf_append_packet_rule g rule @ s) None" and "s = [] \<or> hd s = CHR 0x0A"
    and "table_ok (tree g) (subs g)" and "rule_ok g rule" and "objects h New_Packet_Rule"
  obtains c1 c2 where "parse_rule h c g = Some (1, Some rule, c1, g)" and "parse_space c1 = Some c2" and "at c2 s None"
proof -
  define w where "w = (if flagged rule (RULE_INBOUND OR RULE_OUTBOUND) then pattern_text g rule else ''all'') @ s"
  have "known g (local_subscriber rule)" using assms(4) by (simp add: rule_ok_def)
  note hd = endpoint_text_hd [OF assms(3) this, of "flagged rule RULE_LOCAL_PORT" "local_ports rule" "[]"]
  have w: "hd w \<noteq> CHR '' ''" using hd by (auto simp: w_def pattern_text_def hexdigit_upper_def hd_append)
  have "at c ((if flagged rule RULE_DROP then ''drop '' else ''allow '') @ w) None"
    using assms(1) unfolding strbuf_append_packet_rule_def w_def pattern_text_def by (simp only: append_assoc)
  then obtain c1 c2 where c2: "parse_verb zero_rule c = Some (True, zero_rule\<lparr>rule_flags := if flagged rule RULE_DROP then 1 else 0\<rparr>, c1)"
    "parse_space c1 = Some c2" "at c2 w None"
    by (rule verb_at) (use w in auto)
  obtain c3 where c3: "parse_which h (zero_rule\<lparr>rule_flags := if flagged rule RULE_DROP then 1 else 0\<rparr>) c2 g = Some (True, rule, c3, g)"
    "past 100 c3 s None"
    by (rule runsE [OF which_at [OF c2(3) [unfolded w_def] assms(2,3,4), of h]]) auto
  have s: "endpoint_end s" "after_space s = s" using assms(2) by (auto simp: endpoint_end_def after_space_def)
  obtain c4 where "parse_space c3 = Some c4" "at c4 s None"
    by (rule runsE [OF past_space [OF c3(2) _ s(1)]]) (use s(2) in \<open>auto simp: CURSOR_BUFFER_def\<close>)
  then show ?thesis using that c2(1,2) c3(1) assms(5) by (simp add: parse_rule_def)
qed

section \<open>Reading the rules back\<close>

text \<open>A rules file: the texts of the rules, one in a line.\<close>

definition more_text :: "mesh \<Rightarrow> packet_rule list \<Rightarrow> string" where
  "more_text g rules = concat (map (\<lambda>rule. CHR 0x0A # strbuf_append_packet_rule g rule) rules)"

definition rules_text :: "mesh \<Rightarrow> packet_rule list \<Rightarrow> string" where
  "rules_text g rules = (case rules of [] \<Rightarrow> [] | rule # rules \<Rightarrow> strbuf_append_packet_rule g rule @ more_text g rules)"

lemma more_text_hd: "more_text g rules = [] \<or> hd (more_text g rules) = CHR 0x0A"
  by (cases rules) (auto simp: more_text_def)

lemma rule_text_hd: "strbuf_append_packet_rule g rule @ s \<noteq> []" "hd (strbuf_append_packet_rule g rule @ s) \<noteq> CHR '' ''"
  by (auto simp: strbuf_append_packet_rule_def)

lemma end_at: "at c [] None \<Longrightarrow> \<exists>c'. eof c = Some (True, c') \<and> at c' [] None"
  using eof_at [of c "[]" None] by (auto simp: CURSOR_BUFFER_def elim!: runsE)

lemma more_at:
  assumes "at c (CHR 0x0A # s) None" and "s \<noteq> []"
  obtains c' where "more_rules c = Some (True, c')" and "at c' s None"
proof -
  obtain c1 where c1: "eof c = Some (False, c1)" "at c1 (CHR 0x0A # s) None"
    by (rule runsE [OF eof_at [OF assms(1)]]) (auto simp: CURSOR_BUFFER_def)
  obtain c2 where c2: "peek c1 = Some (Some (CHR 0x0A), c2)" "at c2 (CHR 0x0A # s) None" "0 < available c2"
    by (rule runsE [OF peek_at [OF c1(2)]]) (auto simp: CURSOR_BUFFER_def)
  obtain c3 where c3: "next_char c2 = Some c3" "at c3 s None" by (rule runsE [OF next_at [OF c2(2,3)]]) auto
  obtain c4 where "eof c3 = Some (False, c4)" "at c4 s None"
    by (rule runsE [OF eof_at [OF c3(2)]]) (use assms(2) in \<open>auto simp: CURSOR_BUFFER_def\<close>)
  then show ?thesis using that c1(1) c2(1) c3(1) by (simp add: more_rules_def parse_sep_def)
qed

lemma loop_at:
  assumes "table_ok (tree g) (subs g)" and "objects h New_Packet_Rule"
  shows "at c (more_text g rules) None \<Longrightarrow> \<forall>rule\<in>set rules. rule_ok g rule \<Longrightarrow>
     \<exists>c'. rules_loop h acc c g = Some (1, acc @ rules, c', g)"
proof (induction rules arbitrary: acc c)
  case Nil
  then obtain c1 where c1: "eof c = Some (True, c1)" "at c1 [] None" using end_at [of c] by (auto simp: more_text_def)
  then obtain c2 where "eof c1 = Some (True, c2)" using end_at by blast
  then show ?case using c1(1) rules_loop.simps [of h acc c g] by (simp add: more_rules_def)
next
  case (Cons rule rules)
  let ?s = "strbuf_append_packet_rule g rule @ more_text g rules"
  have "at c (CHR 0x0A # ?s) None" using Cons.prems(1) by (simp add: more_text_def)
  then obtain c1 where c1: "more_rules c = Some (True, c1)" "at c1 ?s None"
    by (rule more_at) (use rule_text_hd in auto)
  obtain c2 where c2: "parse_space c1 = Some c2" "at c2 ?s None"
    by (rule runsE [OF space_none [OF c1(2)]]) (use rule_text_hd in \<open>auto simp: CURSOR_BUFFER_def\<close>)
  obtain c3 c4 where c4: "parse_rule h c2 g = Some (1, Some rule, c3, g)" "parse_space c3 = Some c4" "at c4 (more_text g rules) None"
    by (rule rule_at [OF c2(2) more_text_hd assms(1) _ assms(2)]) (use Cons.prems(2) in auto)
  obtain c5 where "rules_loop h (acc @ [rule]) c4 g = Some (1, (acc @ [rule]) @ rules, c5, g)"
    using Cons.IH [OF c4(3), of "acc @ [rule]"] Cons.prems(2) by auto
  then show ?case using c1(1) c2(1) c4(1,2) rules_loop.simps [of h acc c g] by simp
qed

text \<open>
  C35: the text that is printed for rules is read back as those rules.
\<close>

theorem parse_print_rules:
  assumes "table_ok (tree g) (subs g)" and "objects h New_Packet_Rule" and "\<forall>rule\<in>set rules. rule_ok g rule"
  shows "parse_mdp_packet_rules h (rules_text g rules) g = Some (Some rules, g)"
proof (cases rules)
  case Nil
  have i: "at (init_cursor []) [] None" by (simp add: init_cursor_def at_def rest_def)
  obtain c1 where c1: "parse_space (init_cursor []) = Some c1" "at c1 [] None"
    by (rule runsE [OF space_none [OF i]]) (auto simp: CURSOR_BUFFER_def)
  obtain c2 where c2: "skip ''allow'' c1 = Some (False, c2)" "at c2 [] None" by (rule skip_other [OF c1(2)]) (auto simp: CURSOR_BUFFER_def)
  obtain c3 where c3: "skip ''drop'' c2 = Some (False, c3)" "at c3 [] None" by (rule skip_other [OF c2(2)]) (auto simp: CURSOR_BUFFER_def)
  obtain c4 where c4: "parse_space c3 = Some c4" "at c4 [] None"
    by (rule runsE [OF space_none [OF c3(2)]]) (auto simp: CURSOR_BUFFER_def)
  obtain c5 where "eof c4 = Some (True, c5)" using end_at [OF c4(2)] by blast
  then show ?thesis using Nil c1(1) c2(1) c3(1) c4(1) assms(2)
    by (simp add: parse_mdp_packet_rules_def parse_rules_def rules_text_def parse_rule_def parse_verb_def)
next
  case (Cons rule more)
  let ?s = "strbuf_append_packet_rule g rule @ more_text g more"
  have i: "at (init_cursor ?s) ?s None" by (simp add: init_cursor_def at_def rest_def)
  obtain c2 where c2: "parse_space (init_cursor ?s) = Some c2" "at c2 ?s None"
    by (rule runsE [OF space_none [OF i]]) (use rule_text_hd in \<open>auto simp: CURSOR_BUFFER_def\<close>)
  obtain c3 c4 where c4: "parse_rule h c2 g = Some (1, Some rule, c3, g)" "parse_space c3 = Some c4" "at c4 (more_text g more) None"
    by (rule rule_at [OF c2(2) more_text_hd assms(1) _ assms(2)]) (use assms(3) Cons in auto)
  obtain c5 where "rules_loop h [rule] c4 g = Some (1, [rule] @ more, c5, g)"
    using loop_at [OF assms(1,2) c4(3), of "[rule]"] assms(3) Cons by auto
  then show ?thesis using c2(1) c4(1,2) Cons by (simp add: parse_mdp_packet_rules_def parse_rules_def rules_text_def)
qed

definition sample_rules :: "packet_rule list" where
  "sample_rules =
     [\<lparr>local_subscriber = Some 0, remote_subscriber = None, local_ports = \<lparr>port_first = 5, port_last = 0xFFFFFFFF\<rparr>,
       remote_ports = \<lparr>port_first = 0, port_last = 0\<rparr>, rule_flags = 0xF\<rparr>,
      \<lparr>local_subscriber = Some 1, remote_subscriber = Some 0, local_ports = \<lparr>port_first = 0, port_last = 0\<rparr>,
       remote_ports = \<lparr>port_first = 0, port_last = 0\<rparr>, rule_flags = 0x14\<rparr>,
      zero_rule]"

lemma sample_rules_ok: "\<forall>rule\<in>set sample_rules. rule_ok sample_mesh rule"
  by (simp add: sample_rules_def rule_ok_def known_def flagged_def zero_rule_def sample_mesh_def bare_mesh_def new_destination_def
      sample_heap_def sample_subs_def RULE_INBOUND_def RULE_OUTBOUND_def RULE_LOCAL_PORT_def RULE_REMOTE_PORT_def)

theorem parse_print_rules_witness:
  "parse_mdp_packet_rules sample_heap (rules_text sample_mesh sample_rules) sample_mesh = Some (Some sample_rules, sample_mesh)"
proof -
  have "table_ok (tree sample_mesh) (subs sample_mesh)" "objects sample_heap New_Packet_Rule"
    using sample_table_ok by (simp_all add: sample_mesh_def bare_mesh_def new_destination_def sample_heap_def)
  then show ?thesis by (rule parse_print_rules [OF _ _ sample_rules_ok])
qed

section \<open>Decisions\<close>

text \<open>
  What a rule is meant to say: the local and the remote side of the packet match, in the direction of the packet;
  a rule without a direction matches every packet.
\<close>

definition side_matches :: "nat option \<Rightarrow> bool \<Rightarrow> mdp_portrange \<Rightarrow> nat option \<times> u32 \<Rightarrow> bool" where
  "side_matches subscriber has_port ports side \<longleftrightarrow> (subscriber = None \<or> fst side = subscriber)
     \<and> (has_port \<longrightarrow> snd side \<in> {port_first ports .. port_last ports})"

definition rule_matches :: "u8 \<Rightarrow> nat option \<times> u32 \<Rightarrow> nat option \<times> u32 \<Rightarrow> packet_rule \<Rightarrow> bool" where
  "rule_matches direction local_side remote_side rule \<longleftrightarrow>
     rule_flags rule AND (RULE_INBOUND OR RULE_OUTBOUND) = 0
     \<or> flagged rule direction
       \<and> side_matches (local_subscriber rule) (flagged rule RULE_LOCAL_PORT) (local_ports rule) local_side
       \<and> side_matches (remote_subscriber rule) (flagged rule RULE_REMOTE_PORT) (remote_ports rule) remote_side"

definition first_match :: "u8 \<Rightarrow> nat option \<times> u32 \<Rightarrow> nat option \<times> u32 \<Rightarrow> packet_rule list \<Rightarrow> packet_rule option" where
  "first_match direction local_side remote_side rules = find (rule_matches direction local_side remote_side) rules"

lemma inbound_first_match:
  "allow_inbound_packet rules header \<longleftrightarrow>
     (case first_match RULE_INBOUND (mdp_destination header, destination_port header) (mdp_source header, source_port header) rules of
        None \<Rightarrow> True | Some rule \<Rightarrow> \<not> flagged rule RULE_DROP)"
  by (induction rules) (auto simp: first_match_def rule_matches_def side_matches_def flagged_def)

lemma outbound_first_match:
  "allow_outbound_packet rules header \<longleftrightarrow>
     (case first_match RULE_OUTBOUND (mdp_source header, source_port header) (mdp_destination header, destination_port header) rules of
        None \<Rightarrow> True | Some rule \<Rightarrow> \<not> flagged rule RULE_DROP)"
  by (induction rules) (auto simp: first_match_def rule_matches_def side_matches_def flagged_def)


section \<open>Loading\<close>

text \<open>The three ways in which loading a file that changed ends with rules in force.\<close>

lemma reload_cases:
  assumes "reload_mdp_packet_rules h file p g = Some (r, p', g')"
  shows "r \<in> {- 1, 0, 1}" and "r = - 1 \<Longrightarrow> packet_rules p' = packet_rules p"
    and "r = 0 \<Longrightarrow> g' = g \<and> (if path_configured file then p' = p else packet_rules p' = [])"
    and "r = 1 \<Longrightarrow> \<exists>meta. get_file_meta (file_stat file) = Some meta \<and> packet_rules_meta p' = meta \<and> meta \<noteq> packet_rules_meta p
         \<and> ((mtime_sec meta = - 1 \<or> file_size meta \<le> 0) \<and> packet_rules p' = []
            \<or> file_size meta \<le> PACKET_RULES_FILE_MAX_SIZE
              \<and> (\<exists>text. opened file = Some text \<and> parse_mdp_packet_rules h text g = Some (Some (packet_rules p'), g')))"
  using assms unfolding reload_mdp_packet_rules_def clear_mdp_packet_rules_def set_mdp_packet_rules_def
  by (auto split: if_splits option.splits elim!: run_bindE)

lemma reload_again:
  assumes "reload_mdp_packet_rules h file p g = Some (r, p', g')"
  shows "\<exists>r2\<in>{- 1, 0}. reload_mdp_packet_rules h2 file p' g2 = Some (r2, p', g2)"
  using assms unfolding reload_mdp_packet_rules_def clear_mdp_packet_rules_def set_mdp_packet_rules_def
  by (auto split: if_splits option.splits elim!: run_bindE)


definition sample_file :: "string \<Rightarrow> rules_file" where
  "sample_file text = \<lparr>path_configured = True, path_fits = True,
     file_stat = Stat (int (length text)) 5, opened = Some text\<rparr>"

definition sample_filter :: packet_filter where
  "sample_filter = \<lparr>packet_rules = [zero_rule\<lparr>rule_flags := RULE_DROP\<rparr>], packet_rules_meta = FILE_META_UNKNOWN\<rparr>"

lemma sample_reload:
  "map_option fst (reload_mdp_packet_rules sample_heap (sample_file ''allow all;allo'') sample_filter sample_mesh) = Some (- 1)"
  by code_simp


section \<open>Limits of the parser\<close>

text \<open>
  A rule that ends before its pattern or its port is not reported as malformed: an assertion fails.  A decimal number that is
  too big is not always noticed.  The longest text of a rule does not fit in the 180 bytes that \<^verbatim>\<open>alloca_packet_rule\<close> has for it.
\<close>

lemma truncated_rule_aborts:
  "parse_mdp_packet_rules sample_heap ''allow '' sample_mesh = None"
  "parse_mdp_packet_rules sample_heap ''allow *>'' sample_mesh = None"
  "parse_mdp_packet_rules sample_heap ''allow *>*:'' sample_mesh = None"
  by code_simp+

lemma port_overflow_unnoticed: "strn_to_uint32 ''9999999999'' 10 = Some (1410065407, 10)"
  by code_simp

lemma longest_rule_text:
  "length (strbuf_append_packet_rule sample_mesh (zero_rule\<lparr>local_subscriber := Some 0, remote_subscriber := Some 1,
     local_ports := \<lparr>port_first = 1, port_last = 2\<rparr>, remote_ports := \<lparr>port_first = 1, port_last = 2\<rparr>, rule_flags := 0x1E\<rparr>)) = 181"
  by code_simp

end
