(* ===== verification/Frame_Types.thy ===== *)
theory Frame_Types
  imports Frame_Decision Tx_Queue
begin

text \<open>
  The frames that come out of the parser of frame headers are well typed, whatever the bytes were: every field fits the
  width it has in the frame or on the wire, and every subscriber is one of the table.
\<close>

section \<open>Types of frames and parser states\<close>

definition frame_typed :: "mesh \<Rightarrow> overlay_frame \<Rightarrow> bool" where
  "frame_typed g f \<longleftrightarrow> frame_type f < 2 ^ 8 \<and> modifiers f < 2 ^ 8 \<and> ttl f < 2 ^ 5 \<and> frame_queue f < OQ_MAX
     \<and> length (broadcast_id f) = BROADCAST_LEN \<and> index_ok g (source f) \<and> index_ok g (frame_destination f)"

definition header_typed :: "mdp_header \<Rightarrow> bool" where
  "header_typed s \<longleftrightarrow> codes_ok (mh_mesh s) (mh_context s) \<and> frame_typed (mh_mesh s) (mh_frame s) \<and> index_ok (mh_mesh s) (mh_nexthop s)"

text \<open>A part of the parser that keeps the types, whether it goes on or fails.\<close>

locale typed_stage =
  fixes stage :: "mdp_header \<Rightarrow> (bool \<times> mdp_header) run"
  assumes typed: "header_typed s \<Longrightarrow> stage s = Some (ok, s') \<Longrightarrow> header_typed s'"
begin

lemma and_then_typed:
  assumes "and_then r stage = Some (ok, s')" and "\<And>ok s. r = Some (ok, s) \<Longrightarrow> header_typed s"
  shows "header_typed s'"
proof -
  obtain ok1 s1 where r: "r = Some (ok1, s1)" and "(if ok1 then stage s1 else Some (False, s1)) = Some (ok, s')"
    using assms(1) unfolding and_then_def by (auto elim!: run_bindE)
  then show ?thesis using assms(2) [OF r] typed by (auto split: if_splits)
qed

end

lemma ob_get_range: "ob_get b = Some (v, b') \<Longrightarrow> v = - 1 \<or> 0 \<le> v \<and> v < 256"
  using unsigned_less [where ?'a = int and ?'b = 8] by (auto simp: ob_get_def elim!: run_bindE split: if_splits)

lemma keeps_frame_typed: "keeps g g' \<Longrightarrow> frame_typed g f \<Longrightarrow> frame_typed g' f"
  using keeps_index by (auto simp: frame_typed_def)

lemma parse_address_typed:
  assumes "header_typed s" and "index_ok (mh_mesh s) v" and "parse_address h now v s = Some (ok, v', s')"
  shows "header_typed s'" and "index_ok (mh_mesh s') v'"
proof -
  note k = parse_address_keeps [OF _ assms(2,3)]
  have c: "codes_ok (mh_mesh s) (mh_context s)" using assms(1) by (simp add: header_typed_def)
  show "header_typed s'" using k(1,5,6) [OF c] keeps_frame_typed [OF k(3) [OF c]] keeps_index [OF k(3) [OF c]] assms(1)
    by (auto simp: header_typed_def)
  show "index_ok (mh_mesh s') v'" by (rule k(2) [OF c])
qed

interpretation source_stage: typed_stage "parse_source h now flags"
proof
  fix s s' ok assume s: "header_typed s" and p: "parse_source h now flags s = Some (ok, s')"
  show "header_typed s'"
  proof (cases "has flags PAYLOAD_FLAG_SENDER_SAME")
    case True
    then show ?thesis using s p by (auto simp: parse_source_def header_typed_def frame_typed_def codes_ok_def Let_def)
  next
    case False
    then obtain v s1 where v: "parse_address h now (source (mh_frame s)) s = Some (ok, v, s1)"
      and s': "mh_mesh s' = mh_mesh s1" "mh_context s' = mh_context s1" "mh_nexthop s' = mh_nexthop s1" "mh_frame s' = (mh_frame s1)\<lparr>source := v\<rparr>"
      using p by (auto simp: parse_source_def Let_def elim!: run_bindE)
    have "index_ok (mh_mesh s) (source (mh_frame s))" using s by (simp add: header_typed_def frame_typed_def)
    from parse_address_typed [OF s this v] s' show ?thesis by (auto simp: header_typed_def frame_typed_def)
  qed
qed

text \<open>The state only differs in what the types do not depend on.\<close>

lemma header_typed_same:
  assumes "header_typed s" and "tree (mh_mesh s') = tree (mh_mesh s)" and "subs (mh_mesh s') = subs (mh_mesh s)"
    and "my_subscriber (mh_mesh s') = my_subscriber (mh_mesh s)" and "mh_context s' = mh_context s" and "mh_nexthop s' = mh_nexthop s"
    and "index_ok (mh_mesh s) (source (mh_frame s'))" and "index_ok (mh_mesh s) (frame_destination (mh_frame s'))"
    and "frame_type (mh_frame s') < 2 ^ 8" and "modifiers (mh_frame s') < 2 ^ 8" and "ttl (mh_frame s') < 2 ^ 5"
    and "frame_queue (mh_frame s') < OQ_MAX" and "length (broadcast_id (mh_frame s')) = BROADCAST_LEN"
  shows "header_typed s'"
  using assms by (simp add: header_typed_def frame_typed_def codes_ok_def index_ok_def)

lemmas typed_defs = header_typed_def frame_typed_def

lemma parse_broadcast_typed:
  assumes "header_typed s" and "parse_broadcast now s = Some (ok, s')"
  shows "header_typed s'"
proof -
  obtain addr b where b: "overlay_broadcast_parse (mh_buffer s) = Some (addr, b)" using assms(2) by (auto simp: parse_broadcast_def elim!: run_bindE)
  then have len: "addr = Some bid \<Longrightarrow> length bid = BROADCAST_LEN" for bid
    by (auto simp: overlay_broadcast_parse_def ob_get_bytes_def elim!: run_bindE split: if_splits dest: ob_load_length)
  show ?thesis using assms len
    by (intro header_typed_same [OF assms(1)])
       (auto simp: parse_broadcast_def b Let_def overlay_broadcast_drop_check_def typed_defs split: option.splits prod.splits if_splits)
qed

interpretation target_stage: typed_stage "parse_target h now flags"
proof
  fix s s' ok assume s: "header_typed s" and p: "parse_target h now flags s = Some (ok, s')"
  show "header_typed s'"
  proof (cases "has flags PAYLOAD_FLAG_TO_BROADCAST")
    case True
    then obtain s1 where "(if has flags PAYLOAD_FLAG_ONE_HOP then Some (True, s) else parse_broadcast now s) = Some (ok, s1)"
      and s': "s' = (if ok then s1\<lparr>mh_frame := (mh_frame s1)\<lparr>frame_destination := None\<rparr>\<rparr> else s1)"
      using p by (auto simp: parse_target_def elim!: run_bindE)
    then have "header_typed s1" using s parse_broadcast_typed [OF s] by (auto split: if_splits)
    then show ?thesis by (auto simp: s' typed_defs index_ok_def)
  next
    case False
    obtain ok1 v s1 where v: "parse_address h now (frame_destination (mh_frame s)) s = Some (ok1, v, s1)"
      using p False by (auto simp: parse_target_def elim!: run_bindE)
    have "index_ok (mh_mesh s) (frame_destination (mh_frame s))" using s by (simp add: typed_defs)
    note t1 = parse_address_typed [OF s this v]
    define s2 where "s2 = s1\<lparr>mh_frame := (mh_frame s1)\<lparr>frame_destination := v\<rparr>\<rparr>"
    define s3 where "s3 = (if not_self s2 v then s2\<lparr>mh_process := False\<rparr> else s2)"
    have t2: "header_typed s2" using t1 by (simp add: s2_def typed_defs)
    then have t3: "header_typed s3" by (simp add: s3_def typed_defs)
    have i3: "index_ok (mh_mesh s3) (mh_nexthop s3)" using t3 by (simp add: typed_defs)
    have q: "(if \<not> ok1 then Some (False, s2) else if has flags PAYLOAD_FLAG_ONE_HOP then Some (True, s3)
        else parse_address h now (mh_nexthop s3) s3 \<bind> (\<lambda>(ok, v, s). let s = s\<lparr>mh_nexthop := v\<rparr>
               in Some (ok, if ok \<and> not_self s v then s\<lparr>mh_forward := False\<rparr> else s))) = Some (ok, s')"
      using p False v
      by (cases ok1; cases "has flags PAYLOAD_FLAG_ONE_HOP"; cases "not_self s2 v") (simp_all add: parse_target_def s3_def s2_def [symmetric] Let_def)
    show ?thesis
    proof (cases "ok1 \<and> \<not> has flags PAYLOAD_FLAG_ONE_HOP")
      case True
      then obtain n s4 where n: "parse_address h now (mh_nexthop s3) s3 = Some (ok, n, s4)"
        and s': "s' = (if ok \<and> not_self (s4\<lparr>mh_nexthop := n\<rparr>) n then s4\<lparr>mh_nexthop := n, mh_forward := False\<rparr> else s4\<lparr>mh_nexthop := n\<rparr>)"
        using q by (auto simp: Let_def elim!: run_bindE)
      from parse_address_typed [OF t3 i3 n] show ?thesis by (simp add: s' typed_defs)
    next
      case False
      then show ?thesis using q t2 t3 by (auto split: if_splits)
    qed
  qed
qed

lemma and_0x1F: "n AND 0x1F < (32 :: nat)"
  using take_bit_nat_less_exp [of 5 n] by (simp add: take_bit_eq_mask mask_eq_exp_minus_1)

lemma and_3: "n AND 3 < (5 :: nat)"
  using take_bit_nat_less_exp [of 2 n] by (simp add: take_bit_eq_mask mask_eq_exp_minus_1)

interpretation ttl_stage: typed_stage "parse_ttl flags"
proof
  fix s s' ok assume s: "header_typed s" and p: "parse_ttl flags s = Some (ok, s')"
  show "header_typed s'"
    using s p and_0x1F and_3
    by (auto simp: parse_ttl_def Let_def typed_defs OQ_MAX_def less_imp_diff_less elim!: run_bindE split: if_splits)
qed

interpretation type_stage: typed_stage "parse_type flags"
proof
  fix s s' ok assume s: "header_typed s" and p: "parse_type flags s = Some (ok, s')"
  show "header_typed s'"
    using s p by (auto simp: parse_type_def Let_def typed_defs OF_TYPE_DATA_def elim!: run_bindE split: if_splits dest!: ob_get_range)
qed

lemma link_received_duplicate_same:
  "link_received_duplicate a seq g = Some (dup, g') \<Longrightarrow> subs g' = subs g \<and> tree g' = tree g \<and> my_subscriber g' = my_subscriber g"
  by (auto simp: link_received_duplicate_def set_neighbour_def elim!: run_bindE split: option.splits)

interpretation seq_stage: typed_stage parse_seq
proof
  fix s s' ok assume s: "header_typed s" and p: "parse_seq s = Some (ok, s')"
  show "header_typed s'"
    by (rule header_typed_same [OF s])
       (use s p in \<open>auto simp: parse_seq_def Let_def typed_defs elim!: run_bindE split: if_splits dest!: link_received_duplicate_same\<close>)
qed

lemma parse_last_typed: "header_typed s \<Longrightarrow> flags < 2 ^ 8 \<Longrightarrow> header_typed (snd (parse_last flags s))"
  by (auto simp: parse_last_def Let_def typed_defs)

text \<open>
  C38: a frame that is well typed before its header is parsed, as a zeroed one is, is well typed afterwards, whatever the bytes of the
  packet were and however the parser ended.  The context and the table of subscribers that the parser leaves are well formed as well.
\<close>

theorem parseMdpPacketHeader_typed:
  assumes "codes_ok g c" and "frame_typed g f" and "index_ok g n" and "parseMdpPacketHeader h now c f b n g = Some (ret, s)"
  shows "frame_typed (mh_mesh s) (mh_frame s) \<and> codes_ok (mh_mesh s) (mh_context s) \<and> index_ok (mh_mesh s) (mh_nexthop s)"
proof -
  obtain fl b1 where get: "ob_get b = Some (fl, b1)" using assms(4) by (auto simp: parseMdpPacketHeader_def elim!: run_bindE)
  define s0 where "s0 = \<lparr>mh_process = True, mh_forward = True, mh_context = c, mh_frame = f, mh_buffer = b1, mh_nexthop = n, mh_mesh = g\<rparr>"
  have s0: "header_typed s0" using assms(1-3) by (simp add: header_typed_def s0_def)
  have "header_typed s"
  proof (cases "fl < 0")
    case True
    then show ?thesis using s0 assms(4) get by (simp add: parseMdpPacketHeader_def s0_def)
  next
    case False
    define r where "r = and_then (and_then (and_then (and_then (parse_source h now (nat fl) s0)
       (parse_target h now (nat fl))) (parse_ttl (nat fl))) (parse_type (nat fl))) parse_seq"
    have "r \<bind> (\<lambda>(ok, s). Some (if ok then parse_last (nat fl) s else (- 1, s))) = Some (ret, s)"
      using assms(4) get False by (simp add: parseMdpPacketHeader_def r_def s0_def Let_def)
    then obtain ok s1 where r: "r = Some (ok, s1)" and s: "s = (if ok then snd (parse_last (nat fl) s1) else s1)"
      by (auto elim!: run_bindE split: if_splits)
    have "header_typed s1"
      by (rule seq_stage.and_then_typed [OF r [unfolded r_def]], erule type_stage.and_then_typed, erule ttl_stage.and_then_typed,
          erule target_stage.and_then_typed, erule source_stage.typed [OF s0])
    moreover have "nat fl < 2 ^ 8" using ob_get_range [OF get] by auto
    ultimately show ?thesis using parse_last_typed s by auto
  qed
  then show ?thesis by (simp add: header_typed_def)
qed

definition sample_packet :: overlay_buffer where
  "sample_packet = zero_buffer\<lparr>bytes := Some [7], allocSize := 1, sizeLimit := 1\<rparr>"

lemma sample_packet_parsed:
  "\<exists>s. parseMdpPacketHeader sample_heap 1000 (zero_context\<lparr>sender := Some 1\<rparr>) zero_frame sample_packet None sample_mesh = Some (HEADER_PROCESS, s)"
proof -
  have b: "ob_good sample_packet" "ob_rest sample_packet = 7 # []"
    by (simp_all add: sample_packet_def ob_good_def ob_wf_def ob_rest_def ob_unlimitsize_def zero_buffer_def SIZE_MAX_def)
  obtain b1 where "ob_get sample_packet = Some (7, b1)" by (rule ob_get_rest [OF b]) simp
  then show ?thesis
    by (simp add: parseMdpPacketHeader_def and_then_def parse_source_def parse_target_def parse_ttl_def parse_type_def parse_seq_def parse_last_def
      zero_context_def zero_frame_def has_def PAYLOAD_FLAG_SENDER_SAME_def PAYLOAD_FLAG_TO_BROADCAST_def PAYLOAD_FLAG_ONE_HOP_def
      PAYLOAD_FLAG_LEGACY_TYPE_def Let_def HEADER_PROCESS_def HEADER_FORWARD_def)
qed

theorem parseMdpPacketHeader_typed_witness:
  "\<exists>s. parseMdpPacketHeader sample_heap 1000 (zero_context\<lparr>sender := Some 1\<rparr>) zero_frame sample_packet None sample_mesh = Some (HEADER_PROCESS, s)
     \<and> frame_typed (mh_mesh s) (mh_frame s) \<and> codes_ok (mh_mesh s) (mh_context s)"
proof -
  have "tree sample_mesh = sample_root" "subs sample_mesh = sample_subs" "my_subscriber sample_mesh = Some 0"
    by (simp_all add: sample_mesh_def bare_mesh_def new_destination_def sample_heap_def)
  then have c: "codes_ok sample_mesh (zero_context\<lparr>sender := Some 1\<rparr>)"
    using sample_table_ok by (simp add: codes_ok_def index_ok_def zero_context_def sample_subs_def)
  have f: "frame_typed sample_mesh zero_frame" "index_ok sample_mesh None"
    by (simp_all add: frame_typed_def zero_frame_def index_ok_def OQ_MAX_def BROADCAST_LEN_def)
  obtain s where "parseMdpPacketHeader sample_heap 1000 (zero_context\<lparr>sender := Some 1\<rparr>) zero_frame sample_packet None sample_mesh = Some (HEADER_PROCESS, s)"
    using sample_packet_parsed ..
  with parseMdpPacketHeader_typed [OF c f this] show ?thesis by blast
qed

end
