(* ===== verification/Msp.thy ===== *)
theory Msp
  imports Mesh_State Fdqueue
begin

text \<open>
  The stream protocol of \<^verbatim>\<open>msp_client.c\<close>: windows of packets, sockets, the processing of sockets and of packets that arrive.
  A socket is an address in the state; memory that was freed is not there any more, so that using it is \<^const>\<open>None\<close>.
  The handler of the application is a parameter that may change the whole state, because it may call the functions of this
  file again.  Every reading of the clock and every message takes a new number, by which the environment gives its answer.
\<close>

section \<open>Constants\<close>

definition FLAG_SHUTDOWN :: u8 where "FLAG_SHUTDOWN = 1"
definition FLAG_ACK :: u8 where "FLAG_ACK = 2"
definition FLAG_FIRST :: u8 where "FLAG_FIRST = 4"
definition FLAG_STOP :: u8 where "FLAG_STOP = 8"
definition RETRANSMIT_TIME :: int where "RETRANSMIT_TIME = 1500"
definition HANDLER_KEEPALIVE :: int where "HANDLER_KEEPALIVE = 1000"
definition MAX_WINDOW_SIZE :: u32 where "MAX_WINDOW_SIZE = 4"
definition SALT_INVALID :: u32 where "SALT_INVALID = 0xdeadbeef"
definition MSP_PAYLOAD_PREAMBLE_SIZE :: nat where "MSP_PAYLOAD_PREAMBLE_SIZE = 5"

definition MSP_STATE_UNINITIALISED :: u16 where "MSP_STATE_UNINITIALISED = 0"
definition MSP_STATE_LISTENING :: u16 where "MSP_STATE_LISTENING = 1"
definition MSP_STATE_RECEIVED_DATA :: u16 where "MSP_STATE_RECEIVED_DATA = 2"
definition MSP_STATE_RECEIVED_PACKET :: u16 where "MSP_STATE_RECEIVED_PACKET = 4"
definition MSP_STATE_SHUTDOWN_LOCAL :: u16 where "MSP_STATE_SHUTDOWN_LOCAL = 8"
definition MSP_STATE_SHUTDOWN_REMOTE :: u16 where "MSP_STATE_SHUTDOWN_REMOTE = 16"
definition MSP_STATE_CLOSED :: u16 where "MSP_STATE_CLOSED = 32"
definition MSP_STATE_ERROR :: u16 where "MSP_STATE_ERROR = 64"
definition MSP_STATE_DATAOUT :: u16 where "MSP_STATE_DATAOUT = 128"
definition MSP_STATE_STOPPED :: u16 where "MSP_STATE_STOPPED = 256"

definition MDP_FLAG_BIND :: u8 where "MDP_FLAG_BIND = 4"
definition MDP_FLAG_CLOSE :: u8 where "MDP_FLAG_CLOSE = 8"
definition MDP_FLAG_ERROR :: u8 where "MDP_FLAG_ERROR = 16"
definition MDP_LISTEN :: u32 where "MDP_LISTEN = 0"
definition SID_ANY :: "u8 list" where "SID_ANY = replicate SID_SIZE 0"

section \<open>Data\<close>

record msp_packet =
  pkt_seq :: u16
  pkt_flags :: u8
  pkt_added :: int
  pkt_sent :: int
  pkt_payload :: "u8 list option"
  pkt_len :: nat
  pkt_offset :: nat

text \<open>
  The list starts at \<^verbatim>\<open>_head\<close>; \<^verbatim>\<open>_tail\<close> is its last packet, or NULL.  \<open>tail_lost\<close> says that \<^verbatim>\<open>_tail\<close> points to a packet
  that was freed.
\<close>

record msp_window =
  packet_count :: u32
  base_rtt :: u32
  rtt :: u32
  next_seq :: u16
  last_activity :: int
  packets :: "msp_packet list"
  tail_lost :: bool

record mdp_sockaddr =
  addr_sid :: "u8 list"
  addr_port :: u32

record mdp_header_t =
  hdr_local :: mdp_sockaddr
  hdr_remote :: mdp_sockaddr
  hdr_flags :: u8
  hdr_qos :: u8
  hdr_ttl :: u8

record msp_sock =
  salt :: u32
  mdp_sock :: int
  msp_state :: u16
  last_state :: u16
  last_handler :: int
  tx :: msp_window
  rx :: msp_window
  previous_ack :: u16
  next_ack :: int
  sock_handler :: "nat option"
  sock_context :: nat
  sock_header :: mdp_header_t
  sock_timeout :: int
  next_action :: int

record msp_handle =
  ptr :: "nat option"
  handle_salt :: u32

definition MSP_SOCKET_NULL :: msp_handle where
  "MSP_SOCKET_NULL = \<lparr>ptr = None, handle_salt = 0\<rparr>"

text \<open>The state of the library (\<open>root\<close> is the list of sockets), what was sent, and the state of the application.\<close>

record 'x msp =
  root :: "nat list"
  socks :: "nat \<Rightarrow> msp_sock option"
  next_addr :: nat
  salt_counter :: u32
  ticks :: nat
  wire :: "(int \<times> mdp_header_t \<times> u8 list) list"
  app :: 'x

datatype send_result = Sent | Again | Send_Failed

record 'x msp_env =
  e_heap :: heap
  e_clock :: "nat \<Rightarrow> int"
  e_send :: "nat \<Rightarrow> send_result"
  e_daemon_addr :: bool
  e_handler :: "nat \<Rightarrow> msp_handle \<Rightarrow> u16 \<Rightarrow> u8 list \<Rightarrow> nat \<Rightarrow> 'x msp \<Rightarrow> (nat \<times> 'x msp) run"

definition gettime_ms :: "'x msp_env \<Rightarrow> 'x msp \<Rightarrow> int \<times> 'x msp" where
  "gettime_ms e m = (e_clock e (ticks m), m\<lparr>ticks := ticks m + 1\<rparr>)"

definition send_message :: "'x msp_env \<Rightarrow> int \<Rightarrow> mdp_header_t \<Rightarrow> u8 list \<Rightarrow> 'x msp \<Rightarrow> send_result \<times> 'x msp" where
  "send_message e sockfd header bs m =
     (let r = e_send e (ticks m)
      in (r, m\<lparr>ticks := ticks m + 1, wire := if r = Sent then wire m @ [(sockfd, header, bs)] else wire m\<rparr>))"

text \<open>\<^verbatim>\<open>mdp_send\<close>, whose result is only whether it failed.\<close>

definition mdp_send :: "'x msp_env \<Rightarrow> int \<Rightarrow> mdp_header_t \<Rightarrow> u8 list \<Rightarrow> 'x msp \<Rightarrow> bool \<times> 'x msp" where
  "mdp_send e sockfd header bs m =
     (if \<not> e_daemon_addr e then (False, m) else (let (r, m) = send_message e sockfd header bs m in (r = Sent, m)))"

definition upd :: "nat \<Rightarrow> (msp_sock \<Rightarrow> msp_sock) \<Rightarrow> 'x msp \<Rightarrow> 'x msp run" where
  "upd a f m = do { s \<leftarrow> socks m a; Some (m\<lparr>socks := (socks m)(a \<mapsto> f s)\<rparr>) }"

abbreviation has_state :: "msp_sock \<Rightarrow> u16 \<Rightarrow> bool" where
  "has_state s f \<equiv> msp_state s AND f \<noteq> 0"

definition set_state :: "u16 \<Rightarrow> msp_sock \<Rightarrow> msp_sock" where
  "set_state f s = s\<lparr>msp_state := msp_state s OR f\<rparr>"

definition clear_state :: "u16 \<Rightarrow> msp_sock \<Rightarrow> msp_sock" where
  "clear_state f s = s\<lparr>msp_state := msp_state s AND NOT f\<rparr>"

section \<open>Sockets\<close>

definition msp_socket_is_valid :: "msp_handle \<Rightarrow> 'x msp \<Rightarrow> bool run" where
  "msp_socket_is_valid handle m =
     (case ptr handle of None \<Rightarrow> Some False | Some a \<Rightarrow> do { s \<leftarrow> socks m a; Some (handle_salt handle = salt s) })"

definition handle_to_sock :: "msp_handle \<Rightarrow> 'x msp \<Rightarrow> nat run" where
  "handle_to_sock handle m = do { a \<leftarrow> ptr handle; s \<leftarrow> socks m a; c_assert (handle_salt handle = salt s); Some a }"

definition sock_to_handle :: "nat \<Rightarrow> 'x msp \<Rightarrow> msp_handle run" where
  "sock_to_handle a m = do { s \<leftarrow> socks m a; Some \<lparr>ptr = Some a, handle_salt = salt s\<rparr> }"

definition zero_window :: msp_window where
  "zero_window = \<lparr>packet_count = 0, base_rtt = 0, rtt = 0, next_seq = 0, last_activity = 0, packets = [], tail_lost = False\<rparr>"

definition zero_addr :: mdp_sockaddr where
  "zero_addr = \<lparr>addr_sid = SID_ANY, addr_port = 0\<rparr>"

definition zero_header :: mdp_header_t where
  "zero_header = \<lparr>hdr_local = zero_addr, hdr_remote = zero_addr, hdr_flags = 0, hdr_qos = 0, hdr_ttl = 0\<rparr>"

definition msp_socket :: "'x msp_env \<Rightarrow> int \<Rightarrow> int \<Rightarrow> 'x msp \<Rightarrow> msp_handle \<times> 'x msp" where
  "msp_socket e sockfd flags m =
     (if flags \<noteq> 0 then (MSP_SOCKET_NULL, m)
      else if \<not> objects (e_heap e) New_Msp_Sock then (MSP_SOCKET_NULL, m)
      else
        let counter = salt_counter m + 1;
            counter = (if counter = SALT_INVALID then counter + 1 else counter);
            (now, m) = gettime_ms e m;
            a = next_addr m;
            s = \<lparr>salt = counter, mdp_sock = sockfd, msp_state = MSP_STATE_UNINITIALISED, last_state = 0xFFFF, last_handler = TIME_MS_NEVER_HAS,
                 tx = zero_window\<lparr>base_rtt := 0xFFFFFFFF, rtt := 0xFFFFFFFF, last_activity := TIME_MS_NEVER_HAS\<rparr>,
                 rx = zero_window\<lparr>last_activity := TIME_MS_NEVER_HAS\<rparr>, previous_ack = 0x7FFF, next_ack = 0,
                 sock_handler = None, sock_context = 0, sock_header = zero_header, sock_timeout = now + 10000,
                 next_action = TIME_MS_NEVER_WILL\<rparr>
        in (\<lparr>ptr = Some a, handle_salt = counter\<rparr>,
            m\<lparr>root := a # root m, socks := (socks m)(a \<mapsto> s), next_addr := a + 1, salt_counter := counter\<rparr>))"

definition msp_get_state :: "msp_handle \<Rightarrow> 'x msp \<Rightarrow> u16 run" where
  "msp_get_state handle m = do { a \<leftarrow> handle_to_sock handle m; s \<leftarrow> socks m a; Some (msp_state s) }"

text \<open>The tests of \<^verbatim>\<open>msp_socket_is_...\<close>: an invalid handle gives \<open>invalid\<close>, a valid one is judged by its socket.\<close>

definition test_sock :: "bool \<Rightarrow> (msp_sock \<Rightarrow> bool) \<Rightarrow> msp_handle \<Rightarrow> 'x msp \<Rightarrow> bool run" where
  "test_sock invalid p handle m = do {
     valid \<leftarrow> msp_socket_is_valid handle m;
     if \<not> valid then Some invalid else do { a \<leftarrow> handle_to_sock handle m; s \<leftarrow> socks m a; Some (p s) } }"

definition msp_socket_is_initialising :: "msp_handle \<Rightarrow> 'x msp \<Rightarrow> bool run" where
  "msp_socket_is_initialising = test_sock False (\<lambda>s. msp_state s = MSP_STATE_UNINITIALISED)"

definition msp_socket_is_open :: "msp_handle \<Rightarrow> 'x msp \<Rightarrow> bool run" where
  "msp_socket_is_open = test_sock False
     (\<lambda>s. (msp_state s \<noteq> MSP_STATE_UNINITIALISED \<or> packet_count (tx s) \<noteq> 0) \<and> \<not> has_state s MSP_STATE_CLOSED)"

definition msp_socket_is_closed :: "msp_handle \<Rightarrow> 'x msp \<Rightarrow> bool run" where
  "msp_socket_is_closed = test_sock True (\<lambda>s. has_state s MSP_STATE_CLOSED)"

definition msp_socket_is_listening :: "msp_handle \<Rightarrow> 'x msp \<Rightarrow> bool run" where
  "msp_socket_is_listening = test_sock False (\<lambda>s. msp_state s AND (MSP_STATE_CLOSED OR MSP_STATE_LISTENING) = MSP_STATE_LISTENING)"

definition msp_socket_is_data :: "msp_handle \<Rightarrow> 'x msp \<Rightarrow> bool run" where
  "msp_socket_is_data = test_sock False (\<lambda>s. has_state s MSP_STATE_DATAOUT \<or> packet_count (tx s) \<noteq> 0)"

definition msp_socket_is_connected :: "msp_handle \<Rightarrow> 'x msp \<Rightarrow> bool run" where
  "msp_socket_is_connected = test_sock False (\<lambda>s. has_state s MSP_STATE_RECEIVED_PACKET)"

definition msp_socket_is_shutdown_local :: "msp_handle \<Rightarrow> 'x msp \<Rightarrow> bool run" where
  "msp_socket_is_shutdown_local = test_sock False (\<lambda>s. has_state s MSP_STATE_SHUTDOWN_LOCAL)"

definition msp_socket_is_shutdown_remote :: "msp_handle \<Rightarrow> 'x msp \<Rightarrow> bool run" where
  "msp_socket_is_shutdown_remote = test_sock False (\<lambda>s. has_state s MSP_STATE_SHUTDOWN_REMOTE)"

definition msp_socket_count :: "'x msp \<Rightarrow> nat" where
  "msp_socket_count m = length (root m)"

section \<open>Windows\<close>

definition compare_wrapped_uint16 :: "u16 \<Rightarrow> u16 \<Rightarrow> int" where
  "compare_wrapped_uint16 one two = sint (one - two)"

definition free_all_packets :: "msp_window \<Rightarrow> msp_window" where
  "free_all_packets w = w\<lparr>packets := [], packet_count := 0, tail_lost := tail_lost w \<or> packets w \<noteq> []\<rparr>"

text \<open>The loop that frees packets: what remains, the count and the smallest round trip.\<close>

fun free_acked_loop :: "int \<Rightarrow> u16 \<Rightarrow> msp_packet list \<Rightarrow> u32 \<Rightarrow> u32 \<Rightarrow> msp_packet list \<times> u32 \<times> u32" where
  "free_acked_loop now seq [] count r = ([], count, r)"
| "free_acked_loop now seq (p # ps) count r =
     (if compare_wrapped_uint16 (pkt_seq p) seq \<le> 0
      then (let this_rtt = word_of_int (now - pkt_sent p);
                r = (if pkt_sent p \<noteq> TIME_MS_NEVER_HAS \<and> r > this_rtt then this_rtt else r)
            in free_acked_loop now seq ps (count - 1) r)
      else (p # ps, count, r))"

definition free_acked_packets :: "'x msp_env \<Rightarrow> u16 \<Rightarrow> msp_window \<Rightarrow> 'x msp \<Rightarrow> msp_window \<times> 'x msp" where
  "free_acked_packets e seq w m =
     (if packets w = [] then (w, m)
      else
        let (now, m) = gettime_ms e m;
            (ps, count, r) = free_acked_loop now seq (packets w) (packet_count w) 0xFFFFFFFF;
            w = w\<lparr>packets := ps, packet_count := count\<rparr>;
            w = (if r \<noteq> 0xFFFFFFFF
                 then (let r = (if r < 10 then 10 else r) in w\<lparr>rtt := r, base_rtt := if base_rtt w > r then r else base_rtt w\<rparr>)
                 else w);
            w = (if ps = [] then w\<lparr>tail_lost := False\<rparr> else w)
        in (w, m))"

text \<open>Where a packet belongs: nowhere because it is there or because its place is not clear, or before a position.\<close>

datatype position = Duplicate | Ambiguous | Insert nat

fun insert_position :: "u16 \<Rightarrow> msp_packet list \<Rightarrow> nat \<Rightarrow> position run" where
  "insert_position seq [] i = None"
| "insert_position seq (p # ps) i =
     (if compare_wrapped_uint16 (pkt_seq p) seq < 0 then insert_position seq ps (i + 1)
      else Some (if pkt_seq p = seq then Duplicate else Insert i))"

definition find_position :: "u16 \<Rightarrow> msp_packet list \<Rightarrow> position run" where
  "find_position seq ps =
     (if ps = [] then Some (Insert 0)
      else if pkt_seq (last ps) = seq then Some Duplicate
      else if compare_wrapped_uint16 (pkt_seq (last ps)) seq < 0
      then Some (if compare_wrapped_uint16 (pkt_seq (hd ps)) seq > 0 then Ambiguous else Insert (length ps))
      else insert_position seq ps 0)"

text \<open>
  When there is no memory for the payload, the packet is freed although the list already holds it: nothing is defined
  from there on.
\<close>

definition add_packet :: "'x msp_env \<Rightarrow> msp_window \<Rightarrow> u16 \<Rightarrow> u8 \<Rightarrow> u8 list \<Rightarrow> 'x msp \<Rightarrow> (int \<times> msp_window \<times> 'x msp) run" where
  "add_packet e w seq flags bs m = do {
     pos \<leftarrow> find_position seq (packets w);
     case pos of
       Duplicate \<Rightarrow> Some (0, w, m)
     | Ambiguous \<Rightarrow> Some (- 1, w, m)
     | Insert i \<Rightarrow>
         if \<not> objects (e_heap e) New_Msp_Packet then Some (- 1, w, m)
         else do {
           let (now, m) = gettime_ms e m;
           stored \<leftarrow> (if bs \<noteq> [] then do { _ \<leftarrow> blocks (e_heap e) (length bs); Some (Some bs) } else Some None);
           let p = \<lparr>pkt_seq = seq, pkt_flags = flags, pkt_added = now, pkt_sent = TIME_MS_NEVER_HAS, pkt_payload = stored,
                    pkt_len = length bs, pkt_offset = 0\<rparr>;
           Some (1, w\<lparr>packets := take i (packets w) @ p # drop i (packets w), packet_count := packet_count w + 1,
                      tail_lost := if i = length (packets w) then False else tail_lost w\<rparr>, m) } }"

section \<open>The handler and the end of a socket\<close>

definition call_handler :: "'x msp_env \<Rightarrow> nat \<Rightarrow> u8 list \<Rightarrow> 'x msp \<Rightarrow> (nat \<times> 'x msp) run" where
  "call_handler e a bs m = do {
     let (now, m) = gettime_ms e m;
     s \<leftarrow> socks m a;
     case sock_handler s of
       None \<Rightarrow> Some (length bs, m)
     | Some f \<Rightarrow>
         if bs \<noteq> [] \<or> last_state s \<noteq> msp_state s \<or> now - last_handler s > HANDLER_KEEPALIVE
         then do {
           m \<leftarrow> upd a (\<lambda>s. s\<lparr>last_state := msp_state s, last_handler := now\<rparr>) m;
           handle \<leftarrow> sock_to_handle a m;
           (n, m) \<leftarrow> e_handler e f handle (msp_state s) bs (sock_context s) m;
           c_assert (n \<le> length bs);
           Some (n, m) }
         else Some (length bs, m) }"

definition msp_free :: "'x msp_env \<Rightarrow> nat \<Rightarrow> 'x msp \<Rightarrow> 'x msp run" where
  "msp_free e a m = do {
     m \<leftarrow> upd a (set_state MSP_STATE_CLOSED) m;
     c_assert (a \<in> set (root m));
     let m = m\<lparr>root := remove1 a (root m)\<rparr>;
     m \<leftarrow> upd a (\<lambda>s. s\<lparr>tx := free_all_packets (tx s)\<rparr>) m;
     m \<leftarrow> upd a (\<lambda>s. s\<lparr>rx := free_all_packets (rx s)\<rparr>) m;
     (_, m) \<leftarrow> call_handler e a [] m;
     m \<leftarrow> upd a (\<lambda>s. s\<lparr>salt := SALT_INVALID\<rparr>) m;
     Some (m\<lparr>socks := (socks m)(a := None)\<rparr>) }"

definition msp_stop :: "'x msp_env \<Rightarrow> msp_handle \<Rightarrow> 'x msp \<Rightarrow> 'x msp run" where
  "msp_stop e handle m = do {
     a \<leftarrow> handle_to_sock handle m;
     s \<leftarrow> socks m a;
     if has_state s MSP_STATE_STOPPED then Some m
     else do {
       m \<leftarrow> upd a (clear_state MSP_STATE_DATAOUT \<circ> set_state (MSP_STATE_STOPPED OR MSP_STATE_CLOSED)) m;
       if addr_port (hdr_remote (sock_header s)) \<noteq> 0 \<and> \<not> has_state s MSP_STATE_LISTENING
       then Some (snd (mdp_send e (mdp_sock s) (sock_header s) [FLAG_STOP] m))
       else Some m } }"

text \<open>The socket after one in the list of sockets.\<close>

fun next_sock :: "nat \<Rightarrow> nat list \<Rightarrow> nat option" where
  "next_sock a [] = None"
| "next_sock a (b # bs) = (if a = b then (case bs of [] \<Rightarrow> None | c # _ \<Rightarrow> Some c) else next_sock a bs)"

abbreviation first_sock :: "'x msp \<Rightarrow> nat option" where
  "first_sock m \<equiv> (case root m of [] \<Rightarrow> None | a # _ \<Rightarrow> Some a)"

partial_function (option) close_loop :: "'x msp_env \<Rightarrow> int \<Rightarrow> nat option \<Rightarrow> 'x msp \<Rightarrow> 'x msp run" where
  "close_loop e sockfd p m =
     (case p of
        None \<Rightarrow> Some m
      | Some a \<Rightarrow> do {
          s \<leftarrow> socks m a;
          let p = next_sock a (root m);
          m \<leftarrow> (if mdp_sock s = sockfd then msp_free e a m else Some m);
          close_loop e sockfd p m })"

definition msp_close_all :: "'x msp_env \<Rightarrow> int \<Rightarrow> 'x msp \<Rightarrow> 'x msp run" where
  "msp_close_all e sockfd m = close_loop e sockfd (first_sock m) m"

section \<open>Setting up\<close>

definition msp_set_handler :: "msp_handle \<Rightarrow> nat option \<Rightarrow> nat \<Rightarrow> 'x msp \<Rightarrow> 'x msp run" where
  "msp_set_handler handle f context m = do {
     a \<leftarrow> handle_to_sock handle m;
     upd a (\<lambda>s. s\<lparr>sock_handler := f, sock_context := context\<rparr>) m }"

definition msp_set_local :: "msp_handle \<Rightarrow> mdp_sockaddr \<Rightarrow> 'x msp \<Rightarrow> 'x msp run" where
  "msp_set_local handle addr m = do {
     a \<leftarrow> handle_to_sock handle m;
     s \<leftarrow> socks m a;
     c_assert (msp_state s = MSP_STATE_UNINITIALISED);
     upd a (\<lambda>s. s\<lparr>sock_header := (sock_header s)\<lparr>hdr_local := addr\<rparr>\<rparr>) m }"

definition msp_connect :: "'x msp_env \<Rightarrow> msp_handle \<Rightarrow> mdp_sockaddr \<Rightarrow> 'x msp \<Rightarrow> 'x msp run" where
  "msp_connect e handle addr m = do {
     a \<leftarrow> handle_to_sock handle m;
     s \<leftarrow> socks m a;
     c_assert (msp_state s = MSP_STATE_UNINITIALISED);
     let (now, m) = gettime_ms e m;
     upd a (\<lambda>s. (set_state MSP_STATE_DATAOUT s)\<lparr>sock_header := (sock_header s)\<lparr>hdr_remote := addr\<rparr>, next_ack := now + 10,
              next_action := now + 10\<rparr>) m }"

definition msp_listen :: "'x msp_env \<Rightarrow> msp_handle \<Rightarrow> 'x msp \<Rightarrow> (int \<times> 'x msp) run" where
  "msp_listen e handle m = do {
     a \<leftarrow> handle_to_sock handle m;
     s \<leftarrow> socks m a;
     c_assert (msp_state s = MSP_STATE_UNINITIALISED);
     c_assert (addr_port (hdr_local (sock_header s)) \<noteq> 0);
     let s = (set_state MSP_STATE_LISTENING s)\<lparr>sock_header := (sock_header s)\<lparr>hdr_flags := hdr_flags (sock_header s) OR MDP_FLAG_BIND\<rparr>\<rparr>;
     m \<leftarrow> upd a (\<lambda>_. s) m;
     let (ok, m) = mdp_send e (mdp_sock s) (sock_header s) [] m;
     if \<not> ok then do { m \<leftarrow> upd a (set_state (MSP_STATE_ERROR OR MSP_STATE_CLOSED)) m; Some (- 1, m) }
     else do {
       let (now, m) = gettime_ms e m;
       m \<leftarrow> upd a (\<lambda>s. s\<lparr>sock_timeout := now + 1000, next_action := now + 1000\<rparr>) m;
       Some (0, m) } }"

definition msp_get_local :: "msp_handle \<Rightarrow> 'x msp \<Rightarrow> mdp_sockaddr run" where
  "msp_get_local handle m = do { a \<leftarrow> handle_to_sock handle m; s \<leftarrow> socks m a; Some (hdr_local (sock_header s)) }"

definition msp_get_remote :: "msp_handle \<Rightarrow> 'x msp \<Rightarrow> mdp_sockaddr run" where
  "msp_get_remote handle m = do { a \<leftarrow> handle_to_sock handle m; s \<leftarrow> socks m a; Some (hdr_remote (sock_header s)) }"

section \<open>Sending\<close>

definition write_uint16 :: "u16 \<Rightarrow> u8 list" where
  "write_uint16 v = [ucast (v AND 0xFF), ucast (drop_bit 8 v AND 0xFF)]"

definition read_uint16 :: "u8 list \<Rightarrow> u16" where
  "read_uint16 bs = push_bit 8 (ucast (bs ! 1)) OR ucast (bs ! 0)"

text \<open>The flags of a header, and the number of the packet that is acknowledged.\<close>

definition header_flags :: "msp_sock \<Rightarrow> u8 \<Rightarrow> u8" where
  "header_flags s flags =
     (let flags = (if has_state s MSP_STATE_RECEIVED_DATA then flags OR FLAG_ACK else flags)
      in if \<not> has_state s MSP_STATE_RECEIVED_PACKET then flags OR FLAG_FIRST else flags)"

definition ack_seq :: "msp_sock \<Rightarrow> u16" where
  "ack_seq s = next_seq (rx s) - 1"

text \<open>The packet is given by its place in the transmit window.\<close>

definition msp_send_packet :: "'x msp_env \<Rightarrow> nat \<Rightarrow> nat \<Rightarrow> 'x msp \<Rightarrow> (int \<times> 'x msp) run" where
  "msp_send_packet e a i m = do {
     s \<leftarrow> socks m a;
     c_assert (addr_port (hdr_remote (sock_header s)) \<noteq> 0);
     if \<not> e_daemon_addr e then Some (- 1, m)
     else do {
       let p = packets (tx s) ! i;
       let bs = header_flags s (pkt_flags p) # write_uint16 (ack_seq s) @ write_uint16 (pkt_seq p)
                @ (case pkt_payload p of None \<Rightarrow> [] | Some bs \<Rightarrow> bs);
       m \<leftarrow> upd a (\<lambda>s. s\<lparr>previous_ack := ack_seq s\<rparr>) m;
       let (r, m) = send_message e (mdp_sock s) (sock_header s) bs m;
       case r of
         Again \<Rightarrow> Some (1, m)
       | Send_Failed \<Rightarrow> do { m \<leftarrow> msp_close_all e (mdp_sock s) m; Some (- 1, m) }
       | Sent \<Rightarrow> do {
           let (now, m) = gettime_ms e m;
           m \<leftarrow> upd a (\<lambda>s. s\<lparr>tx := (tx s)\<lparr>last_activity := now, packets := (packets (tx s))[i := (packets (tx s) ! i)\<lparr>pkt_sent := now\<rparr>]\<rparr>,
                    next_ack := now + RETRANSMIT_TIME\<rparr>) m;
           Some (0, m) } } }"

definition send_ack :: "'x msp_env \<Rightarrow> nat \<Rightarrow> 'x msp \<Rightarrow> (int \<times> 'x msp) run" where
  "send_ack e a m = do {
     s \<leftarrow> socks m a;
     c_assert (addr_port (hdr_remote (sock_header s)) \<noteq> 0);
     if \<not> e_daemon_addr e then Some (- 1, m)
     else do {
       let (r, m) = send_message e (mdp_sock s) (sock_header s) (header_flags s 0 # write_uint16 (ack_seq s)) m;
       case r of
         Again \<Rightarrow> Some (- 1, m)
       | Send_Failed \<Rightarrow> do { m \<leftarrow> msp_close_all e (mdp_sock s) m; Some (- 1, m) }
       | Sent \<Rightarrow> do {
           let (now, m) = gettime_ms e m;
           m \<leftarrow> upd a (\<lambda>s. s\<lparr>previous_ack := ack_seq s, tx := (tx s)\<lparr>last_activity := now\<rparr>, next_ack := now + RETRANSMIT_TIME\<rparr>) m;
           Some (0, m) } } }"

definition msp_send :: "'x msp_env \<Rightarrow> msp_handle \<Rightarrow> u8 list \<Rightarrow> 'x msp \<Rightarrow> (int \<times> 'x msp) run" where
  "msp_send e handle bs m = do {
     a \<leftarrow> handle_to_sock handle m;
     s \<leftarrow> socks m a;
     c_assert (\<not> has_state s MSP_STATE_LISTENING);
     c_assert (addr_port (hdr_remote (sock_header s)) \<noteq> 0);
     c_assert (\<not> has_state s MSP_STATE_SHUTDOWN_LOCAL);
     if has_state s MSP_STATE_CLOSED \<or> packet_count (tx s) > MAX_WINDOW_SIZE then Some (- 1, m)
     else do {
       (r, w, m) \<leftarrow> add_packet e (tx s) (next_seq (tx s)) 0 bs m;
       if r = - 1 then Some (- 1, m)
       else do {
         let w = w\<lparr>next_seq := next_seq w + 1\<rparr>;
         let (now, m) = gettime_ms e m;
         m \<leftarrow> upd a (\<lambda>s. (if packet_count w \<ge> MAX_WINDOW_SIZE then clear_state MSP_STATE_DATAOUT s else s)\<lparr>tx := w, next_action := now\<rparr>) m;
         Some (int (length bs), m) } } }"

definition msp_shutdown :: "'x msp_env \<Rightarrow> msp_handle \<Rightarrow> 'x msp \<Rightarrow> (int \<times> 'x msp) run" where
  "msp_shutdown e handle m = do {
     a \<leftarrow> handle_to_sock handle m;
     s \<leftarrow> socks m a;
     c_assert (\<not> has_state s MSP_STATE_LISTENING);
     c_assert (\<not> has_state s MSP_STATE_SHUTDOWN_LOCAL);
     let ps = packets (tx s);
     c_assert (\<not> tail_lost (tx s));
     (ok, w, m) \<leftarrow>
       (if ps \<noteq> [] \<and> pkt_sent (last ps) = TIME_MS_NEVER_HAS
        then Some (True, (tx s)\<lparr>packets := butlast ps @ [(last ps)\<lparr>pkt_flags := pkt_flags (last ps) OR FLAG_SHUTDOWN\<rparr>]\<rparr>, m)
        else do {
          (r, w, m) \<leftarrow> add_packet e (tx s) (next_seq (tx s)) FLAG_SHUTDOWN [] m;
          Some (if r = - 1 then (False, w, m) else (True, w\<lparr>next_seq := next_seq w + 1\<rparr>, m)) });
     if \<not> ok then Some (- 1, m)
     else do {
       let (now, m) = gettime_ms e m;
       m \<leftarrow> upd a (\<lambda>s. (clear_state MSP_STATE_DATAOUT (set_state MSP_STATE_SHUTDOWN_LOCAL s))\<lparr>tx := w, next_action := now\<rparr>) m;
       Some (0, m) } }"

section \<open>Processing sockets\<close>

definition pending_bind :: "int \<Rightarrow> 'x msp \<Rightarrow> bool" where
  "pending_bind sockfd m \<longleftrightarrow>
     list_ex (\<lambda>a. case socks m a of None \<Rightarrow> False | Some s \<Rightarrow> mdp_sock s = sockfd \<and> hdr_flags (sock_header s) AND MDP_FLAG_BIND \<noteq> 0) (root m)"

definition pkt_rest :: "msp_packet \<Rightarrow> u8 list" where
  "pkt_rest p = drop (pkt_offset p) (take (pkt_len p) (case pkt_payload p of None \<Rightarrow> [] | Some bs \<Rightarrow> bs))"

definition set_offset :: "nat \<Rightarrow> nat \<Rightarrow> msp_sock \<Rightarrow> msp_sock" where
  "set_offset i n s = s\<lparr>rx := (rx s)\<lparr>packets := (packets (rx s))[i := (packets (rx s) ! i)\<lparr>pkt_offset := n\<rparr>]\<rparr>\<rparr>"

definition advance_rx :: "msp_sock \<Rightarrow> msp_sock" where
  "advance_rx s = s\<lparr>rx := (rx s)\<lparr>next_seq := next_seq (rx s) + 1\<rparr>\<rparr>"

text \<open>
  Delivering the packets that are in order, from place \<open>i\<close> of the window on.  The handler is called again while it
  consumes a part of a packet.
\<close>

partial_function (option) deliver :: "'x msp_env \<Rightarrow> nat \<Rightarrow> nat \<Rightarrow> 'x msp \<Rightarrow> 'x msp run" where
  "deliver e a i m = do {
     s \<leftarrow> socks m a;
     if i < length (packets (rx s)) \<and> pkt_seq (packets (rx s) ! i) = next_seq (rx s)
     then do {
       let p = packets (rx s) ! i;
       m \<leftarrow> (if pkt_flags p AND FLAG_SHUTDOWN \<noteq> 0 then upd a (set_state MSP_STATE_SHUTDOWN_REMOTE) m else Some m);
       c_assert (pkt_offset p \<le> pkt_len p);
       (n, m) \<leftarrow> call_handler e a (pkt_rest p) m;
       if n = 0 \<and> pkt_offset p < pkt_len p then Some m
       else do {
         m \<leftarrow> upd a (set_offset i (pkt_offset p + n)) m;
         if pkt_offset p + n < pkt_len p then deliver e a i m
         else do {
           c_assert (pkt_offset p + n = pkt_len p);
           m \<leftarrow> upd a advance_rx m;
           deliver e a (i + 1) m } } }
     else Some m }"

definition set_bind :: "msp_sock \<Rightarrow> msp_sock" where
  "set_bind s = s\<lparr>sock_header := (sock_header s)\<lparr>hdr_flags := hdr_flags (sock_header s) OR MDP_FLAG_BIND\<rparr>\<rparr>"

definition sooner :: "int \<Rightarrow> msp_sock \<Rightarrow> msp_sock" where
  "sooner t s = (if next_action s > t then s\<lparr>next_action := t\<rparr> else s)"

text \<open>Transmitting the packets at the places that are given; \<^const>\<open>False\<close> when the function is to return -1.\<close>

fun transmit :: "'x msp_env \<Rightarrow> nat \<Rightarrow> int \<Rightarrow> nat list \<Rightarrow> 'x msp \<Rightarrow> (bool \<times> 'x msp) run" where
  "transmit e a now [] m = Some (True, m)"
| "transmit e a now (i # is) m = do {
     s \<leftarrow> socks m a;
     if pkt_sent (packets (tx s) ! i) + RETRANSMIT_TIME < now
     then
       if addr_port (hdr_local (sock_header s)) = 0 \<and> pending_bind (mdp_sock s) m then Some (True, m)
       else do {
         m \<leftarrow> (if addr_port (hdr_local (sock_header s)) = 0 then upd a set_bind m else Some m);
         (r, m) \<leftarrow> msp_send_packet e a i m;
         if r = - 1 then Some (False, m)
         else if r \<noteq> 0 then Some (True, m)
         else do {
           m \<leftarrow> upd a (\<lambda>s. sooner (pkt_sent (packets (tx s) ! i) + RETRANSMIT_TIME) s) m;
           transmit e a now is m } }
     else do {
       m \<leftarrow> upd a (\<lambda>s. sooner (pkt_sent (packets (tx s) ! i) + RETRANSMIT_TIME) s) m;
       transmit e a now is m } }"

text \<open>The part of \<^verbatim>\<open>process_sock\<close> that receives: delivery, and freeing what was delivered.\<close>

definition process_rx :: "'x msp_env \<Rightarrow> nat \<Rightarrow> 'x msp \<Rightarrow> 'x msp run" where
  "process_rx e a m = do {
     m \<leftarrow> deliver e a 0 m;
     s \<leftarrow> socks m a;
     let (w, m) = free_acked_packets e (next_seq (rx s) - 1) (rx s) m;
     m \<leftarrow> upd a (\<lambda>s. s\<lparr>rx := w\<rparr>) m;
     (_, m) \<leftarrow> call_handler e a [] m;
     upd a (\<lambda>s. if sock_handler s \<noteq> None then sooner (last_handler s + HANDLER_KEEPALIVE) s else s) m }"

text \<open>
  The part that sends an acknowledgement and closes the socket.  In the last test C compares as \<^verbatim>\<open>int\<close>, so that it fails
  when \<^verbatim>\<open>next_seq\<close> is 0.
\<close>

definition process_close :: "nat \<Rightarrow> 'x msp \<Rightarrow> (int \<times> 'x msp) run" where
  "process_close a m = do {
     m \<leftarrow> upd a (\<lambda>s. sooner (next_ack s) s) m;
     s \<leftarrow> socks m a;
     if has_state s MSP_STATE_SHUTDOWN_LOCAL \<and> has_state s MSP_STATE_SHUTDOWN_REMOTE \<and> packet_count (tx s) = 0 \<and> packet_count (rx s) = 0
        \<and> uint (previous_ack s) = uint (next_seq (rx s)) - 1
     then do { m \<leftarrow> upd a (set_state MSP_STATE_CLOSED) m; Some (- 1, m) }
     else Some (0, m) }"

definition process_ack :: "'x msp_env \<Rightarrow> nat \<Rightarrow> int \<Rightarrow> 'x msp \<Rightarrow> (int \<times> 'x msp) run" where
  "process_ack e a now m = do {
     s \<leftarrow> socks m a;
     if now > next_ack s
     then
       if addr_port (hdr_local (sock_header s)) = 0 \<and> hdr_flags (sock_header s) AND MDP_FLAG_BIND \<noteq> 0 then Some (0, m)
       else do {
         m \<leftarrow> (if addr_port (hdr_local (sock_header s)) = 0 then upd a set_bind m else Some m);
         (r, m) \<leftarrow> send_ack e a m;
         if r = - 1 then Some (- 1, m) else process_close a m }
     else process_close a m }"

definition process_sock :: "'x msp_env \<Rightarrow> nat \<Rightarrow> 'x msp \<Rightarrow> (int \<times> 'x msp) run" where
  "process_sock e a m = do {
     let (now, m) = gettime_ms e m;
     s \<leftarrow> socks m a;
     if sock_timeout s < now
     then do { m \<leftarrow> upd a (set_state (MSP_STATE_CLOSED OR MSP_STATE_ERROR)) m; Some (- 1, m) }
     else do {
       m \<leftarrow> upd a (\<lambda>s. s\<lparr>next_action := sock_timeout s\<rparr>) m;
       if has_state s MSP_STATE_LISTENING then Some (0, m)
       else do {
         m \<leftarrow> process_rx e a m;
         s \<leftarrow> socks m a;
         c_assert (of_nat (length (packets (tx s))) = packet_count (tx s));
         c_assert (if packet_count (tx s) \<ge> MAX_WINDOW_SIZE \<or> has_state s (MSP_STATE_CLOSED OR MSP_STATE_SHUTDOWN_LOCAL)
                   then \<not> has_state s MSP_STATE_DATAOUT else has_state s MSP_STATE_DATAOUT);
         (ok, m) \<leftarrow> transmit e a now [0..<length (packets (tx s))] m;
         if \<not> ok then Some (- 1, m) else process_ack e a now m } } }"

definition msp_release :: "'x msp_env \<Rightarrow> nat \<Rightarrow> 'x msp \<Rightarrow> 'x msp run" where
  "msp_release e a m = do {
     s \<leftarrow> socks m a;
     let addr = hdr_local (sock_header s);
     if addr_port addr = 0 then Some m
     else if list_ex (\<lambda>b. b \<noteq> a \<and> (case socks m b of None \<Rightarrow> False
            | Some o' \<Rightarrow> mdp_sock o' = mdp_sock s \<and> addr_port (hdr_local (sock_header o')) = addr_port addr)) (root m) then Some m
     else do {
       let header = zero_header\<lparr>hdr_local := addr, hdr_remote := \<lparr>addr_sid = SID_ANY, addr_port = MDP_LISTEN\<rparr>, hdr_flags := MDP_FLAG_CLOSE\<rparr>;
       let (_, m) = mdp_send e (mdp_sock s) header [] m;
       upd a (\<lambda>s. s\<lparr>sock_header := (sock_header s)\<lparr>hdr_local := \<lparr>addr_sid = SID_ANY, addr_port = 0\<rparr>\<rparr>\<rparr>) m } }"

partial_function (option) process_all :: "'x msp_env \<Rightarrow> nat option \<Rightarrow> 'x msp \<Rightarrow> 'x msp run" where
  "process_all e p m =
     (case p of
        None \<Rightarrow> Some m
      | Some a \<Rightarrow> do {
          (r, m) \<leftarrow> process_sock e a m;
          s \<leftarrow> socks m a;
          process_all e (next_sock a (root m)) m })"

partial_function (option) free_closed :: "'x msp_env \<Rightarrow> nat option \<Rightarrow> int \<Rightarrow> 'x msp \<Rightarrow> (int \<times> 'x msp) run" where
  "free_closed e p next m =
     (case p of
        None \<Rightarrow> Some (next, m)
      | Some a \<Rightarrow> do {
          s \<leftarrow> socks m a;
          if has_state s MSP_STATE_CLOSED
          then do {
            let p = next_sock a (root m);
            m \<leftarrow> msp_release e a m;
            m \<leftarrow> msp_free e a m;
            free_closed e p next m }
          else free_closed e (next_sock a (root m)) (if next_action s < next then next_action s else next) m })"

definition msp_processing :: "'x msp_env \<Rightarrow> 'x msp \<Rightarrow> (int \<times> 'x msp) run" where
  "msp_processing e m = do {
     m \<leftarrow> process_all e (first_sock m) m;
     free_closed e (first_sock m) TIME_MS_NEVER_WILL m }"

section \<open>Packets that arrive\<close>

text \<open>The search over the sockets: an answer to a bind, or the socket and the listening socket that match.\<close>

datatype lookup = Bound nat | Looked_Up "nat option" "nat option"

fun find_sock :: "int \<Rightarrow> mdp_header_t \<Rightarrow> 'x msp \<Rightarrow> nat list \<Rightarrow> nat option \<Rightarrow> lookup run" where
  "find_sock sockfd header m [] listening = Some (Looked_Up None listening)"
| "find_sock sockfd header m (a # as) listening = do {
     s \<leftarrow> socks m a;
     let h = sock_header s;
     if mdp_sock s \<noteq> sockfd then find_sock sockfd header m as listening
     else if hdr_flags h AND MDP_FLAG_BIND \<noteq> 0 \<and> hdr_flags header AND MDP_FLAG_BIND \<noteq> 0 then Some (Bound a)
     else if has_state s MSP_STATE_LISTENING
     then find_sock sockfd header m as
            (if addr_port (hdr_local h) = addr_port (hdr_local header)
                \<and> (addr_sid (hdr_local h) = SID_ANY \<or> addr_sid (hdr_local h) = addr_sid (hdr_local header))
             then Some a else listening)
     else if hdr_remote h = hdr_remote header \<and> hdr_local h = hdr_local header then Some (Looked_Up (Some a) listening)
     else find_sock sockfd header m as listening }"

text \<open>What a bind answer does to the socket.\<close>

definition bound :: "'x msp_env \<Rightarrow> nat \<Rightarrow> mdp_header_t \<Rightarrow> 'x msp \<Rightarrow> 'x msp run" where
  "bound e a header m = do {
     m \<leftarrow> upd a (\<lambda>s. s\<lparr>sock_header := (sock_header s)\<lparr>hdr_local := hdr_local header, hdr_flags := hdr_flags (sock_header s) AND NOT MDP_FLAG_BIND\<rparr>\<rparr>) m;
     s \<leftarrow> socks m a;
     if has_state s MSP_STATE_LISTENING then upd a (\<lambda>s. s\<lparr>next_action := TIME_MS_NEVER_WILL, sock_timeout := TIME_MS_NEVER_WILL\<rparr>) m
     else do { let (now, m) = gettime_ms e m; upd a (\<lambda>s. s\<lparr>next_action := now\<rparr>) m } }"

text \<open>A socket for a connection that arrives at a listening one.\<close>

definition accept_sock :: "'x msp_env \<Rightarrow> nat \<Rightarrow> mdp_header_t \<Rightarrow> 'x msp \<Rightarrow> (nat option \<times> 'x msp) run" where
  "accept_sock e l header m = do {
     ls \<leftarrow> socks m l;
     let (handle, m) = msp_socket e (mdp_sock ls) 0 m;
     case ptr handle of
       None \<Rightarrow> Some (None, m)
     | Some a \<Rightarrow> do {
         m \<leftarrow> upd a (\<lambda>s. s\<lparr>sock_header := header, sock_handler := sock_handler ls, sock_context := sock_context ls\<rparr>) m;
         Some (Some a, m) } }"

text \<open>The packet of a socket that was found: its data, its acknowledgement, and the whole of it.\<close>

definition receive_data :: "'x msp_env \<Rightarrow> nat \<Rightarrow> u8 list \<Rightarrow> 'x msp \<Rightarrow> 'x msp run" where
  "receive_data e a bs m =
     (if length bs < MSP_PAYLOAD_PREAMBLE_SIZE then Some m
      else do {
        m \<leftarrow> upd a (set_state MSP_STATE_RECEIVED_DATA) m;
        s \<leftarrow> socks m a;
        (r, w, m) \<leftarrow> add_packet e (rx s) (read_uint16 (drop 3 bs)) (hd bs) (drop MSP_PAYLOAD_PREAMBLE_SIZE bs) m;
        m \<leftarrow> upd a (\<lambda>s. s\<lparr>rx := w\<rparr>) m;
        if r = 1 then do { let (now, m) = gettime_ms e m; upd a (\<lambda>s. s\<lparr>next_ack := now\<rparr>) m } else Some m })"

definition receive_ack :: "'x msp_env \<Rightarrow> nat \<Rightarrow> u8 list \<Rightarrow> 'x msp \<Rightarrow> 'x msp run" where
  "receive_ack e a bs m = do {
     s \<leftarrow> socks m a;
     let (w, m) = (if hd bs AND FLAG_ACK \<noteq> 0 then free_acked_packets e (read_uint16 (drop 1 bs)) (tx s) m else (tx s, m));
     m \<leftarrow> upd a (\<lambda>s. s\<lparr>tx := w\<rparr>) m;
     m \<leftarrow> upd a (\<lambda>s. if packet_count (tx s) < MAX_WINDOW_SIZE \<and> \<not> has_state s MSP_STATE_SHUTDOWN_LOCAL \<and> \<not> has_state s MSP_STATE_CLOSED
                     then set_state MSP_STATE_DATAOUT s else s) m;
     let (now, m) = gettime_ms e m;
     upd a (\<lambda>s. s\<lparr>next_action := now\<rparr>) m }"

definition receive_packet :: "'x msp_env \<Rightarrow> nat \<Rightarrow> u8 list \<Rightarrow> 'x msp \<Rightarrow> 'x msp run" where
  "receive_packet e a bs m = do {
     let (now, m) = gettime_ms e m;
     m \<leftarrow> upd a (\<lambda>s. (set_state MSP_STATE_RECEIVED_PACKET s)\<lparr>rx := (rx s)\<lparr>last_activity := now\<rparr>, sock_timeout := now + 10000\<rparr>) m;
     if hd bs AND FLAG_STOP \<noteq> 0 then do { handle \<leftarrow> sock_to_handle a m; msp_stop e handle m }
     else if length bs < 3 then Some m
     else do { m \<leftarrow> receive_ack e a bs m; receive_data e a bs m } }"

definition process_packet :: "'x msp_env \<Rightarrow> int \<Rightarrow> mdp_header_t \<Rightarrow> u8 list \<Rightarrow> 'x msp \<Rightarrow> (int \<times> 'x msp) run" where
  "process_packet e sockfd header bs m =
     (if hdr_flags header AND MDP_FLAG_ERROR \<noteq> 0 then Some (- 1, m)
      else do {
        found \<leftarrow> find_sock sockfd header m (root m) None;
        case found of
          Bound a \<Rightarrow> do { m \<leftarrow> bound e a header m; Some (0, m) }
        | Looked_Up sock listening \<Rightarrow>
            if length bs < 1 then Some (- 1, m)
            else if sock = None \<and> hd bs AND FLAG_STOP \<noteq> 0 then Some (0, m)
            else do {
              (sock, m) \<leftarrow> (case listening of
                 Some l \<Rightarrow> if hd bs AND FLAG_FIRST \<noteq> 0 \<and> sock = None then accept_sock e l header m else Some (sock, m)
               | None \<Rightarrow> Some (sock, m));
              case sock of
                None \<Rightarrow> Some (0, snd (mdp_send e sockfd header [FLAG_STOP] m))
              | Some a \<Rightarrow> do { m \<leftarrow> receive_packet e a bs m; Some (0, m) } } })"

text \<open>\<open>received\<close> is what \<^verbatim>\<open>mdp_recv\<close> gives.\<close>

definition msp_recv :: "'x msp_env \<Rightarrow> int \<Rightarrow> (mdp_header_t \<times> u8 list) option \<Rightarrow> 'x msp \<Rightarrow> (int \<times> 'x msp) run" where
  "msp_recv e sockfd received m =
     (case received of None \<Rightarrow> Some (- 1, m) | Some (header, bs) \<Rightarrow> process_packet e sockfd header bs m)"

end
