(* ===== verification/Spec2Isabelle.thy ===== *)
theory Spec2Isabelle
  imports Prelude Overlay_Buffer Subscriber_Tree Fdqueue Performance_Timing Limit Mesh_State Link_Tree Bit_Count Neighbours Overlay_Address Overlay_Frame Frame_Decision Tx_Queue Queue_Times Queue_Refs Golay Mdp_Filter Filter_Rules Frame_Types Msp
begin

text \<open>
  Verification of the mesh layer of the Serval DNA daemon, the C program under \<^verbatim>\<open>src/jni/serval-dna/\<close> that carries
  the calls and messages of the Android application from phone to phone.  Files are named relative to that directory.

  \<^bold>\<open>The program.\<close>  A single threaded daemon runs alarms and watches file descriptors (\<^verbatim>\<open>fdqueue.c\<close>).  Packets are
  built and taken apart in growing byte buffers (\<^verbatim>\<open>overlay_buffer.c\<close>).  Every node is a \<^emph>\<open>subscriber\<close> with a 32 byte id,
  kept in a tree by prefix so that ids can be abbreviated in packets (\<^verbatim>\<open>overlay_address.c\<close>).  Routing keeps a tree of links per neighbour,
  counts the packets that arrive, and chooses the network destinations of a frame (\<^verbatim>\<open>route_link.c\<close>,
  \<^verbatim>\<open>overlay_interface.c\<close>).  Frames have compact headers (\<^verbatim>\<open>overlay_payload.c\<close>, \<^verbatim>\<open>overlay_packetformats.c\<close>) and wait
  in queues until a packet to one of their destinations may be sent (\<^verbatim>\<open>overlay_queue.c\<close>), at a limited rate (\<^verbatim>\<open>limit.c\<close>).
  Rules that are read from a file decide which packets of the datagram protocol pass (\<^verbatim>\<open>mdp_filter.c\<close>).
  Applications have streams over these datagrams (\<^verbatim>\<open>msp_client.c\<close>).

  \<^bold>\<open>Conventions.\<close>  The target is the 32 bit armeabi of \<^verbatim>\<open>Android.mk\<close>.  A function that may stop the process (a failed \<^verbatim>\<open>assert\<close>,
  a \<^verbatim>\<open>FATAL\<close>, a NULL pointer that is followed, an operation C leaves undefined) has a result in \<open>'a run\<close>, where \<^const>\<open>None\<close> is
  that stop; an error the code reports is a value.  Structs are records, linked lists are lists, and pointers to shared objects
  are indices into a list of the state.  Allocation is the record \<open>heap\<close>, readings of the clock, random numbers and results of
  system calls are arguments.  All readings of the clock in one call are the same.

  \<^bold>\<open>Theories, in the order they build on each other.\<close>

  \<^item> \<open>Prelude\<close>: machine types, the monad of runs, the allocator (\<^verbatim>\<open>mem.c\<close>), lemmas on byte lists.
  \<^item> \<open>Overlay_Buffer\<close>: all operations on \<^verbatim>\<open>struct overlay_buffer\<close>.  Fields and packed integers are read back as written, a failed
    append leaves the buffer overrun and a rewind restores it.  The locale of byte buffers is interpreted on these operations.
  \<^item> \<open>Subscriber_Tree\<close>: the tree of subscribers.  Lookup, creation and abbreviation by prefix, the walk over a prefix, and freeing.
  \<^item> \<open>Fdqueue\<close>, \<open>Performance_Timing\<close>: the scheduler and the profiler.  The three lists of alarms stay ordered and
    agree, alarms run earliest deadline first, watching is consistent, the list sort sorts, times add up.
  \<^item> \<open>Limit\<close>: the rate limiter and its bound over any sequence of events.
  \<^item> \<open>Mesh_State\<close>: the shared structs and the record \<open>mesh\<close> of the daemon's state.
  \<^item> \<open>Link_Tree\<close>, \<open>Bit_Count\<close>, \<open>Neighbours\<close>: routing.  Path scores terminate also on cyclic parents, the link tree implements a map, duplicates
    are detected exactly, reference counts of destinations are kept, the best link is the best.
  \<^item> \<open>Overlay_Address\<close>, \<open>Overlay_Frame\<close>, \<open>Frame_Decision\<close>, \<open>Frame_Types\<close>: addresses and frame headers survive the way from one node to another, and
    for arbitrary bytes a frame is only processed or forwarded when it may be, and is well typed.
  \<^item> \<open>Tx_Queue\<close>, \<open>Queue_Times\<close>, \<open>Queue_Refs\<close>: the transmission queues.  Over any sequence of operations the queues stay bounded and the reference
    counts exact; a frame that can be sent has the sending alarm scheduled; filling a packet and acknowledgements
    remove what they should and nothing else.
  \<^item> \<open>Golay\<close>: the error correcting code of \<^verbatim>\<open>golay.c\<close>.  The decoder finds the nearest codeword for every input and corrects three errors.
  \<^item> \<open>Mdp_Filter\<close>, \<open>Filter_Rules\<close>: the packet filter.  Printed rules are parsed back through the buffered cursor, the first rule that matches decides, and
    a file that cannot be loaded leaves the rules in force.
  \<^item> \<open>Msp\<close>: windows, sockets and packets of the stream protocol.

  \<^bold>\<open>Bounds and fuel.\<close>  No definition uses fuel: loops are structural recursion or \<open>function\<close> with a measure.  The loops of \<open>Msp\<close> that call the
  application are \<open>partial_function\<close>, where not returning is \<^const>\<open>None\<close>.  The recursion over links
  in \<open>Link_Tree\<close> ends because every call marks one more link as being calculated.

  \<^bold>\<open>Not modelled.\<close>  Sockets, processes, files and the serial radio; the keyring and its cryptography; the Rhizome store, whose behaviour is that of
  SQL statements; telephony, MeshMS, the HTTP server and the configuration parser, which are generated by macros or are mostly calls to these; the
  building and receiving of link state messages; the third-party libraries beside the daemon (codec2, opus, SQLite, NaCl,
  fec, wireless tools) and the Java application.  They are listed with their reasons in the manifest of the development.
\<close>

end
